(* ===== verification/Prelude.thy ===== *)
theory Prelude
  imports "HOL-Library.Word" "HOL-Library.Sublist"
begin

text \<open>
  Shared ground of the development: the ways a C++ operation of the program can fail,
  bytes as characters, and the \<open>std::string\<close> / \<open>std::string_view\<close> operations the
  sources call (\<open>find\<close>, \<open>substr\<close>, \<open>compare\<close>, \<open>remove_prefix\<close>, the C character
  classes, \<open>stoul\<close>, \<open>stoi\<close>, \<open>to_string\<close>), with the lemmas every component uses.
\<close>

named_theorems find_lemmas \<open>facts on substring search\<close>
named_theorems char_lemmas \<open>facts on bytes and character classes\<close>

section \<open>Failures\<close>

text \<open>
  An operation of the sources that does not return normally reaches undefined behaviour
  (an out-of-range read, an indeterminate value), fails an \<open>assert\<close> (the build defines no
  \<open>NDEBUG\<close>), throws, or never returns.
\<close>

datatype cpp_exn =
    Out_of_range
  | Invalid_argument
  | Json_error string
  | Logic_error string

datatype fault =
    Undefined
  | Assertion
  | Raised cpp_exn
  | Diverges

type_synonym 'a res = "fault + 'a"

definition rbind :: "'a res \<Rightarrow> ('a \<Rightarrow> 'b res) \<Rightarrow> 'b res" where
  "rbind m f = (case m of Inl e \<Rightarrow> Inl e | Inr v \<Rightarrow> f v)"

lemma rbind_simps [simp]:
  "rbind (Inl e) f = Inl e"
  "rbind (Inr v) f = f v"
  by (simp_all add: rbind_def)

lemma rbind_cong [fundef_cong]:
  "m = m' \<Longrightarrow> (\<And>v. m' = Inr v \<Longrightarrow> f v = g v) \<Longrightarrow> rbind m f = rbind m' g"
  by (cases m') (auto simp: rbind_def)

lemma rbind_Inr_conv: "rbind m f = Inr y \<longleftrightarrow> (\<exists>v. m = Inr v \<and> f v = Inr y)"
  by (cases m) auto

lemma rbind_Inl_conv:
  "rbind m f = Inl e \<longleftrightarrow> m = Inl e \<or> (\<exists>v. m = Inr v \<and> f v = Inl e)"
  by (cases m) auto

definition check_assert :: "bool \<Rightarrow> unit res" where
  "check_assert b = (if b then Inr () else Inl Assertion)"

lemma check_assert_simps [simp]:
  "check_assert True = Inr ()"
  "check_assert False = Inl Assertion"
  by (simp_all add: check_assert_def)

section \<open>Bytes\<close>

text \<open>
  A \<open>char\<close> of the sources is one byte. It is signed on the platforms the program is built
  for: comparisons such as \<open>c <= 32\<close> read it through \<open>schar\<close>.
\<close>

abbreviation byte :: "char \<Rightarrow> nat" where
  "byte c \<equiv> of_char c"

definition schar :: "char \<Rightarrow> int" where
  "schar c = (if byte c < 128 then int (byte c) else int (byte c) - 256)"

lemma byte_less [simp, char_lemmas]: "byte c < 256"
  by (cases c) (simp add: of_char_def horner_sum_simps split: if_splits)

lemma byte_inject [simp]: "byte c = byte d \<longleftrightarrow> c = d"
  by simp

abbreviation CR :: char where "CR \<equiv> CHR 0x0D"
abbreviation LF :: char where "LF \<equiv> CHR 0x0A"
abbreviation CRLF :: string where "CRLF \<equiv> [CR, LF]"
abbreviation NUL :: char where "NUL \<equiv> CHR 0x00"
abbreviation DQUOTE :: char where "DQUOTE \<equiv> CHR 0x22"
abbreviation SQUOTE :: char where "SQUOTE \<equiv> CHR 0x27"
abbreviation BSLASH :: char where "BSLASH \<equiv> CHR 0x5C"
abbreviation TAB :: char where "TAB \<equiv> CHR 0x09"

text \<open>The character classes of \<open><ctype.h>\<close> in the C locale.\<close>

definition isdigit :: "char \<Rightarrow> bool" where
  "isdigit c \<longleftrightarrow> 48 \<le> byte c \<and> byte c \<le> 57"

definition isupper :: "char \<Rightarrow> bool" where
  "isupper c \<longleftrightarrow> 65 \<le> byte c \<and> byte c \<le> 90"

definition islower :: "char \<Rightarrow> bool" where
  "islower c \<longleftrightarrow> 97 \<le> byte c \<and> byte c \<le> 122"

definition isalpha :: "char \<Rightarrow> bool" where
  "isalpha c \<longleftrightarrow> isupper c \<or> islower c"

definition isalnum :: "char \<Rightarrow> bool" where
  "isalnum c \<longleftrightarrow> isalpha c \<or> isdigit c"

definition isxdigit :: "char \<Rightarrow> bool" where
  "isxdigit c \<longleftrightarrow> isdigit c \<or> (65 \<le> byte c \<and> byte c \<le> 70) \<or> (97 \<le> byte c \<and> byte c \<le> 102)"

definition isspace :: "char \<Rightarrow> bool" where
  "isspace c \<longleftrightarrow> byte c = 32 \<or> (9 \<le> byte c \<and> byte c \<le> 13)"

definition tolower :: "char \<Rightarrow> char" where
  "tolower c = (if isupper c then char_of (byte c + 32) else c)"

definition toupper :: "char \<Rightarrow> char" where
  "toupper c = (if islower c then char_of (byte c - 32) else c)"

lemmas ctype_defs = isdigit_def isupper_def islower_def isalpha_def isalnum_def
  isxdigit_def isspace_def

lemma byte_tolower: "byte (tolower c) = (if isupper c then byte c + 32 else byte c)"
  by (auto simp: tolower_def isupper_def)

lemma tolower_not_upper [char_lemmas]: "\<not> isupper (tolower c)"
  unfolding isupper_def byte_tolower by (auto simp: isupper_def)

lemma tolower_idem [simp, char_lemmas]: "tolower (tolower c) = tolower c"
  using tolower_not_upper [of c] by (simp add: tolower_def)

section \<open>String views\<close>

text \<open>
  A \<open>string_view\<close> is its list of bytes. \<open>remove_prefix n\<close> with \<open>n\<close> greater than the
  length, and \<open>v[0]\<close> on an empty view, are undefined behaviour.
\<close>

definition remove_prefix :: "nat \<Rightarrow> string \<Rightarrow> string res" where
  "remove_prefix n v = (if n \<le> length v then Inr (drop n v) else Inl Undefined)"

definition front :: "string \<Rightarrow> char res" where
  "front v = (case v of [] \<Rightarrow> Inl Undefined | c # _ \<Rightarrow> Inr c)"

lemma front_simps [simp]: "front [] = Inl Undefined" "front (c # v) = Inr c"
  by (simp_all add: front_def)

text \<open>\<open>find\<close>: the position of the first occurrence, \<open>None\<close> for \<open>npos\<close>.\<close>

fun find_sub :: "string \<Rightarrow> string \<Rightarrow> nat option" where
  "find_sub p [] = (if p = [] then Some 0 else None)"
| "find_sub p (c # v) =
     (if take (length p) (c # v) = p then Some 0 else map_option Suc (find_sub p v))"

fun find_char :: "(char \<Rightarrow> bool) \<Rightarrow> string \<Rightarrow> nat option" where
  "find_char P [] = None"
| "find_char P (c # v) = (if P c then Some 0 else map_option Suc (find_char P v))"

text \<open>The same searches starting at a position.\<close>

definition find_char_from :: "(char \<Rightarrow> bool) \<Rightarrow> nat \<Rightarrow> string \<Rightarrow> nat option" where
  "find_char_from P n v = map_option (\<lambda>k. n + k) (find_char P (drop n v))"

definition substr :: "nat \<Rightarrow> nat \<Rightarrow> string \<Rightarrow> string" where
  "substr pos n v = take n (drop pos v)"

text \<open>\<open>compare(0, n, s) == 0\<close>: the first \<open>n\<close> bytes (fewer if the view is shorter) are \<open>s\<close>.\<close>

definition compare_prefix :: "nat \<Rightarrow> string \<Rightarrow> string \<Rightarrow> bool" where
  "compare_prefix n s v \<longleftrightarrow> take n v = s"

lemma find_sub_Some_bound [find_lemmas]:
  "find_sub p v = Some k \<Longrightarrow> k + length p \<le> length v"
proof (induction p v arbitrary: k rule: find_sub.induct)
  case (2 p c v)
  show ?case
  proof (cases "take (length p) (c # v) = p")
    case True
    with 2(2) have "k = 0" by simp
    moreover have "length p \<le> length (c # v)"
      using arg_cong [OF True, of length] by (simp add: min_def split: if_splits)
    ultimately show ?thesis by simp
  next
    case False
    with 2 show ?thesis by auto
  qed
qed (auto split: if_splits)

lemma find_sub_Some_take [find_lemmas]:
  "find_sub p v = Some k \<Longrightarrow> take (length p) (drop k v) = p"
  by (induction p v arbitrary: k rule: find_sub.induct) (auto split: if_splits)

lemma find_sub_Some_first [find_lemmas]:
  "find_sub p v = Some k \<Longrightarrow> j < k \<Longrightarrow> take (length p) (drop j v) \<noteq> p"
proof (induction p v arbitrary: k j rule: find_sub.induct)
  case (2 p c v)
  then show ?case
    by (cases j) (auto split: if_splits)
qed (auto split: if_splits)

lemma find_sub_None_iff: "find_sub p v = None \<longleftrightarrow> (\<forall>j \<le> length v. take (length p) (drop j v) \<noteq> p)"
proof (induction p v rule: find_sub.induct)
  case (2 p c v)
  have "(\<forall>j \<le> length (c # v). take (length p) (drop j (c # v)) \<noteq> p) \<longleftrightarrow>
      take (length p) (c # v) \<noteq> p \<and> (\<forall>j \<le> length v. take (length p) (drop j v) \<noteq> p)"
    by (simp add: All_less_Suc2 less_Suc_eq_le [symmetric] del: length_Suc_conv)
  with 2 show ?case by auto
qed auto

lemma find_sub_decomp:
  "find_sub p v = Some k \<Longrightarrow> v = take k v @ p @ drop (k + length p) v"
  using find_sub_Some_take [of p v k]
  by (metis append_take_drop_id drop_drop add.commute)

lemma find_sub_append_Some:
  "find_sub p v = Some k \<Longrightarrow> find_sub p (v @ w) = Some k"
proof (induction p v arbitrary: k rule: find_sub.induct)
  case (1 p)
  then show ?case by (cases w) (auto split: if_splits)
next
  case (2 p c v)
  show ?case
  proof (cases "take (length p) (c # v) = p")
    case True
    have "length p \<le> length (c # v)"
      using arg_cong [OF True, of length] by (simp add: min_def split: if_splits)
    then have "take (length p) ((c # v) @ w) = take (length p) (c # v)"
      by (simp add: take_append del: append_Cons)
    with True 2(2) show ?thesis by simp
  next
    case False
    with 2 obtain k' where k': "find_sub p v = Some k'" "k = Suc k'" by auto
    have "k' + length p \<le> length v" using k'(1) by (rule find_sub_Some_bound)
    then have "take (length p) ((c # v) @ w) = take (length p) (c # v)"
      by (simp add: take_append del: append_Cons)
    with False k' 2 show ?thesis by simp
  qed
qed

lemma find_char_Some_bound [find_lemmas]: "find_char P v = Some k \<Longrightarrow> k < length v"
  by (induction v arbitrary: k) (auto split: if_splits)

lemma find_char_Some_nth [find_lemmas]: "find_char P v = Some k \<Longrightarrow> P (v ! k)"
  by (induction v arbitrary: k) (auto split: if_splits)

lemma find_char_Some_first [find_lemmas]:
  "find_char P v = Some k \<Longrightarrow> j < k \<Longrightarrow> \<not> P (v ! j)"
proof (induction v arbitrary: k j)
  case (Cons c v)
  then show ?case by (cases j) (auto split: if_splits)
qed simp

lemma find_char_None_iff [find_lemmas]: "find_char P v = None \<longleftrightarrow> (\<forall>c \<in> set v. \<not> P c)"
  by (induction v) auto

lemma find_char_append:
  "(\<forall>c \<in> set v. \<not> P c) \<Longrightarrow> P d \<Longrightarrow> find_char P (v @ d # w) = Some (length v)"
  by (induction v) auto

lemma find_char_Some_append:
  "find_char P v = Some k \<Longrightarrow> find_char P (v @ w) = Some k"
  by (induction v arbitrary: k) (auto split: if_splits)

lemma find_char_takeWhile:
  "find_char P v = Some k \<Longrightarrow> take k v = takeWhile (\<lambda>c. \<not> P c) v"
  by (induction v arbitrary: k) (auto split: if_splits)

section \<open>Numbers and text\<close>

definition digit_char :: "nat \<Rightarrow> char" where
  "digit_char d = char_of (48 + d)"

fun nat_to_string :: "nat \<Rightarrow> string" where
  "nat_to_string n =
     (if n < 10 then [digit_char n] else nat_to_string (n div 10) @ [digit_char (n mod 10)])"

declare nat_to_string.simps [simp del]

text \<open>\<open>std::to_string(int)\<close>.\<close>

definition int_to_string :: "int \<Rightarrow> string" where
  "int_to_string i =
     (if i < 0 then CHR ''-'' # nat_to_string (nat (- i)) else nat_to_string (nat i))"

definition digit_val :: "char \<Rightarrow> nat" where
  "digit_val c = byte c - 48"

definition digits_val :: "string \<Rightarrow> nat" where
  "digits_val s = foldl (\<lambda>n c. n * 10 + digit_val c) 0 s"

lemma byte_digit_char: "d < 10 \<Longrightarrow> byte (digit_char d) = 48 + d"
  by (simp add: digit_char_def)

lemma isdigit_digit_char [simp]: "d < 10 \<Longrightarrow> isdigit (digit_char d)"
  by (simp add: isdigit_def byte_digit_char)

lemma digit_val_digit_char [simp]: "d < 10 \<Longrightarrow> digit_val (digit_char d) = d"
  by (simp add: digit_val_def byte_digit_char)

lemma nat_to_string_digits: "c \<in> set (nat_to_string n) \<Longrightarrow> isdigit c"
proof (induction n rule: nat_to_string.induct)
  case (1 n)
  then show ?case by (subst (asm) nat_to_string.simps) (auto split: if_splits)
qed

lemma nat_to_string_nonempty [simp]: "nat_to_string n \<noteq> []"
  by (subst nat_to_string.simps) simp

lemma digits_val_snoc: "digits_val (s @ [c]) = digits_val s * 10 + digit_val c"
  by (simp add: digits_val_def)

lemma digits_val_nat_to_string [simp]: "digits_val (nat_to_string n) = n"
proof (induction n rule: nat_to_string.induct)
  case (1 n)
  show ?case
  proof (cases "n < 10")
    case True
    then show ?thesis by (subst nat_to_string.simps) (simp add: digits_val_def)
  next
    case False
    with 1 show ?thesis by (subst nat_to_string.simps) (simp add: digits_val_snoc)
  qed
qed

text \<open>
  \<open>std::stoul\<close>: leading white space, an optional sign, decimal digits; no digit is
  \<open>invalid_argument\<close>, a magnitude above \<open>2^64 - 1\<close> is \<open>out_of_range\<close>, and a minus sign
  negates modulo \<open>2^64\<close>.
\<close>

definition strip_sign :: "string \<Rightarrow> bool \<times> string" where
  "strip_sign s =
     (case s of
        [] \<Rightarrow> (False, [])
      | c # r \<Rightarrow> if c = CHR ''-'' then (True, r) else if c = CHR ''+'' then (False, r) else (False, s))"

definition stoul :: "string \<Rightarrow> nat res" where
  "stoul s =
     (let (neg, r) = strip_sign (dropWhile isspace s);
          ds = takeWhile isdigit r;
          n = digits_val ds
      in if ds = [] then Inl (Raised Invalid_argument)
         else if 2 ^ 64 \<le> n then Inl (Raised Out_of_range)
         else Inr (if neg then (2 ^ 64 - n) mod 2 ^ 64 else n))"

definition stoi :: "string \<Rightarrow> int res" where
  "stoi s =
     (let (neg, r) = strip_sign (dropWhile isspace s);
          ds = takeWhile isdigit r;
          n = (if neg then - int (digits_val ds) else int (digits_val ds))
      in if ds = [] then Inl (Raised Invalid_argument)
         else if n < - (2 ^ 31) \<or> 2 ^ 31 \<le> n then Inl (Raised Out_of_range)
         else Inr n)"

lemma takeWhile_isdigit_nat_to_string [simp]:
  "takeWhile isdigit (nat_to_string n) = nat_to_string n"
  by (simp add: takeWhile_eq_all_conv nat_to_string_digits)

lemma dropWhile_isspace_digit:
  "s \<noteq> [] \<Longrightarrow> isdigit (hd s) \<Longrightarrow> dropWhile isspace s = s"
  by (cases s) (auto simp: isspace_def isdigit_def)

lemma strip_sign_digit: "s \<noteq> [] \<Longrightarrow> isdigit (hd s) \<Longrightarrow> strip_sign s = (False, s)"
  by (cases s) (auto simp: strip_sign_def isdigit_def)

lemma stoul_nat_to_string: "n < 2 ^ 64 \<Longrightarrow> stoul (nat_to_string n) = Inr n"
proof -
  assume n: "n < 2 ^ 64"
  have h: "isdigit (hd (nat_to_string n))"
    using nat_to_string_digits [of "hd (nat_to_string n)" n] by simp
  show ?thesis
    using n by (simp add: stoul_def dropWhile_isspace_digit [OF _ h] strip_sign_digit [OF _ h])
qed

text \<open>C strings: \<open>strncmp\<close> and \<open>strncasecmp\<close> being zero, with the terminating NUL read as 0.\<close>

fun cstrn_eq :: "(char \<Rightarrow> char) \<Rightarrow> nat \<Rightarrow> string \<Rightarrow> string \<Rightarrow> bool" where
  "cstrn_eq f 0 a b = True"
| "cstrn_eq f (Suc n) a b =
     (let x = (case a of [] \<Rightarrow> NUL | c # _ \<Rightarrow> c);
          y = (case b of [] \<Rightarrow> NUL | c # _ \<Rightarrow> c)
      in f x = f y \<and> (x = NUL \<or> cstrn_eq f n (tl a) (tl b)))"

end
