(* ===== verification/BaseUtil.thy ===== *)
theory BaseUtil
  imports Prelude "HOL-Library.Word"
begin

text \<open>
  \<open>haha_web/base/util.cpp\<close> and \<open>haha_web/base/EncodeUtil.cpp\<close>: hexadecimal digits and
  numbers, letter case, URL decoding and encoding, and the MurmurHash2 variant that turns a
  session id into a timer id.
\<close>

section \<open>util.cpp\<close>

definition hex2dec :: "char \<Rightarrow> nat" where
  "hex2dec c =
     (if 48 \<le> byte c \<and> byte c \<le> 57 then byte c - 48
      else if 97 \<le> byte c \<and> byte c \<le> 122 then byte c - 97 + 10
      else if 65 \<le> byte c \<and> byte c \<le> 90 then byte c - 65 + 10
      else byte c)"

definition dec2hex :: "char \<Rightarrow> char" where
  "dec2hex c =
     (if 0 \<le> schar c \<and> schar c \<le> 9 then char_of (byte c + 48)
      else if 10 \<le> schar c \<and> schar c \<le> 15 then char_of (byte c - 10 + 65)
      else c)"

text \<open>
  \<open>hexString2Int\<close>: the accumulator is a 32-bit \<open>int\<close>. It is multiplied by 10, not by 16.
  A value above \<open>2^31 - 1\<close> overflows a signed \<open>int\<close>, which is undefined behaviour; the test
  \<open>res < 0\<close> comes after it.
\<close>

fun hexString2Int_loop :: "int \<Rightarrow> string \<Rightarrow> int res" where
  "hexString2Int_loop res [] = Inr res"
| "hexString2Int_loop res (c # cs) =
     (if \<not> isxdigit c then Inr (- 1)
      else let r = res * 10 + int (hex2dec c)
           in if 2 ^ 31 \<le> r then Inl Undefined
              else if r < 0 then Inr (- 1)
              else hexString2Int_loop r cs)"

definition hexString2Int :: "string \<Rightarrow> int res" where
  "hexString2Int s = hexString2Int_loop 0 s"

text \<open>
  \<open>int2HexString\<close>: \<open>%\<close> and \<open>/\<close> on \<open>int\<close> truncate towards zero, so the remainder of a negative
  number is negative; it is passed as a \<open>char\<close>. The digits are produced least significant first
  and reversed.
\<close>

function int2HexString_loop :: "int \<Rightarrow> string" where
  "int2HexString_loop d =
     (if d = 0 then []
      else dec2hex (char_of (nat ((sgn d * (\<bar>d\<bar> mod 10)) mod 256)))
             # int2HexString_loop (sgn d * (\<bar>d\<bar> div 10)))"
  by auto
termination
proof (relation "measure (\<lambda>d. nat \<bar>d\<bar>)")
  fix d :: int
  assume "d \<noteq> 0"
  then show "(sgn d * (\<bar>d\<bar> div 10), d) \<in> measure (\<lambda>d. nat \<bar>d\<bar>)"
    by (simp add: abs_mult)
qed simp

declare int2HexString_loop.simps [simp del]

definition int2HexString :: "int \<Rightarrow> string" where
  "int2HexString d = rev (int2HexString_loop d)"

definition toLowers :: "string \<Rightarrow> string" where
  "toLowers s = map (\<lambda>c. if isupper c then tolower c else c) s"

definition toUppers :: "string \<Rightarrow> string" where
  "toUppers s = map (\<lambda>c. if islower c then toupper c else c) s"

definition stringCaseCmp :: "string \<Rightarrow> string \<Rightarrow> bool" where
  "stringCaseCmp a b \<longleftrightarrow> toLowers a = toLowers b"

lemma toLowers_tolower: "toLowers s = map tolower s"
  by (simp add: toLowers_def tolower_def)

lemma toLowers_idem [simp]: "toLowers (toLowers s) = toLowers s"
  by (simp add: toLowers_tolower)

lemma length_toLowers [simp]: "length (toLowers s) = length s"
  by (simp add: toLowers_def)

subsection \<open>Reading and printing chunk sizes\<close>

lemma hex2dec_digit: "isdigit c \<Longrightarrow> hex2dec c = digit_val c"
  by (auto simp: hex2dec_def isdigit_def digit_val_def)

lemma hex2dec_less_16: "isxdigit c \<Longrightarrow> hex2dec c < 16"
  by (auto simp: hex2dec_def isxdigit_def isdigit_def)

text \<open>The value the loop computes, without the width of \<open>int\<close>.\<close>

definition base10_hex :: "string \<Rightarrow> nat" where
  "base10_hex s = foldl (\<lambda>n c. n * 10 + hex2dec c) 0 s"

lemma foldl_base10_mono: "n \<le> foldl (\<lambda>n c. n * 10 + hex2dec c) n s"
proof (induction s arbitrary: n)
  case (Cons c s)
  have "n \<le> n * 10 + hex2dec c" by simp
  also have "\<dots> \<le> foldl (\<lambda>n c. n * 10 + hex2dec c) (n * 10 + hex2dec c) s" by (rule Cons.IH)
  finally show ?case by simp
qed simp

lemma hexString2Int_loop_value:
  "\<forall>c \<in> set s. isxdigit c \<Longrightarrow> foldl (\<lambda>n c. n * 10 + hex2dec c) n s < 2 ^ 31 \<Longrightarrow>
   hexString2Int_loop (int n) s = Inr (int (foldl (\<lambda>n c. n * 10 + hex2dec c) n s))"
proof (induction s arbitrary: n)
  case (Cons c s)
  let ?m = "n * 10 + hex2dec c"
  have lt: "?m < 2 ^ 31"
    using foldl_base10_mono [of ?m s] Cons.prems(2) by simp
  show ?case
    using Cons.IH [of ?m] Cons.prems lt by (simp add: Let_def)
qed simp

lemma hexString2Int_value:
  "\<forall>c \<in> set s. isxdigit c \<Longrightarrow> base10_hex s < 2 ^ 31 \<Longrightarrow>
   hexString2Int s = Inr (int (base10_hex s))"
  using hexString2Int_loop_value [of s 0] by (simp add: hexString2Int_def base10_hex_def)

lemma foldl_base10_bound:
  "\<forall>c \<in> set s. isxdigit c \<Longrightarrow>
   foldl (\<lambda>n c. n * 10 + hex2dec c) n s + 2 \<le> (n + 2) * 10 ^ length s"
proof (induction s arbitrary: n)
  case (Cons c s)
  let ?m = "n * 10 + hex2dec c"
  have "hex2dec c < 16" using Cons.prems by (simp add: hex2dec_less_16)
  then have m: "?m + 2 \<le> (n + 2) * 10" by simp
  have "foldl (\<lambda>n c. n * 10 + hex2dec c) ?m s + 2 \<le> (?m + 2) * 10 ^ length s"
    using Cons by simp
  also have "\<dots> \<le> ((n + 2) * 10) * 10 ^ length s"
    by (rule mult_le_mono1 [OF m])
  finally show ?case by (simp add: algebra_simps)
qed simp

lemma ten_power_le: "k \<le> 8 \<Longrightarrow> (10 :: nat) ^ k \<le> 100000000"
  using power_increasing [of k 8 "10 :: nat"] by simp

text \<open>Up to eight hexadecimal digits the conversion neither overflows nor fails.\<close>

lemma hexString2Int_short:
  assumes "\<forall>c \<in> set s. isxdigit c" and "length s \<le> 8"
  shows "hexString2Int s = Inr (int (base10_hex s))"
proof (rule hexString2Int_value [OF assms(1)])
  have "base10_hex s + 2 \<le> 2 * 10 ^ length s"
    using foldl_base10_bound [OF assms(1), of 0] by (simp add: base10_hex_def)
  with ten_power_le [OF assms(2)] show "base10_hex s < 2 ^ 31" by simp
qed

lemma hexString2Int_bad:
  "\<exists>c \<in> set s. \<not> isxdigit c \<Longrightarrow> length s \<le> 8 \<Longrightarrow> hexString2Int s = Inr (- 1)"
proof -
  assume bad: "\<exists>c \<in> set s. \<not> isxdigit c" and len: "length s \<le> 8"
  have gen: "hexString2Int_loop (int n) s = Inr (- 1)"
    if "\<exists>c \<in> set s. \<not> isxdigit c" "(n + 2) * 10 ^ length s < 2 ^ 31" for n s
    using that
  proof (induction s arbitrary: n)
    case (Cons c s)
    show ?case
    proof (cases "isxdigit c")
      case True
      let ?m = "n * 10 + hex2dec c"
      have h: "hex2dec c < 16" using True by (rule hex2dec_less_16)
      have step: "(?m + 2) * 10 ^ length s \<le> (n + 2) * 10 ^ length (c # s)"
        using h by (simp add: algebra_simps)
      have "?m + 2 \<le> (?m + 2) * 10 ^ length s"
        using mult_le_mono2 [of 1 "10 ^ length s" "?m + 2"] by simp
      with step Cons.prems(2) have lt: "?m < 2 ^ 31" by linarith
      have "hexString2Int_loop (int ?m) s = Inr (- 1)"
      proof (rule Cons.IH)
        show "\<exists>c \<in> set s. \<not> isxdigit c" using True Cons.prems(1) by simp
        show "(?m + 2) * 10 ^ length s < 2 ^ 31"
          using step Cons.prems(2) by (rule le_less_trans)
      qed
      with True lt show ?thesis by (simp add: Let_def)
    qed simp
  qed simp
  have "(0 + 2 :: nat) * 10 ^ length s < 2 ^ 31"
    using ten_power_le [OF len] by simp
  with gen [of s 0] bad show ?thesis by (simp add: hexString2Int_def)
qed

lemma dec2hex_digit: "d < 10 \<Longrightarrow> dec2hex (char_of d) = digit_char d"
  by (simp add: dec2hex_def schar_def digit_char_def add.commute)

lemma int2HexString_step:
  assumes "0 < d"
  shows "int2HexString (int d) = int2HexString (int (d div 10)) @ [digit_char (d mod 10)]"
proof -
  have a: "\<bar>int d\<bar> div 10 = int (d div 10)" by (simp add: zdiv_int)
  have "\<bar>int d\<bar> mod 10 mod 256 = \<bar>int d\<bar> mod 10"
    by (rule mod_pos_pos_trivial) (use pos_mod_bound [of 10 "\<bar>int d\<bar>"] in simp_all)
  then have "nat (\<bar>int d\<bar> mod 10 mod 256) = d mod 10"
    by (simp add: nat_mod_distrib)
  with a assms show ?thesis
    unfolding int2HexString_def by (subst int2HexString_loop.simps) (simp add: dec2hex_digit)
qed

lemma int2HexString_0 [simp]: "int2HexString 0 = []"
  by (simp add: int2HexString_def int2HexString_loop.simps)

lemma int2HexString_digits: "c \<in> set (int2HexString (int d)) \<Longrightarrow> isdigit c"
proof (induction d rule: less_induct)
  case (less d)
  show ?case
  proof (cases "d = 0")
    case False
    with less.prems less.IH [of "d div 10"] show ?thesis
      by (auto simp: int2HexString_step)
  qed (use less.prems in simp)
qed

lemma base10_hex_int2HexString: "base10_hex (int2HexString (int d)) = d"
proof (induction d rule: less_induct)
  case (less d)
  show ?case
  proof (cases "d = 0")
    case False
    have "base10_hex (int2HexString (int (d div 10))) = d div 10"
      using False by (intro less.IH) simp
    with False show ?thesis
      by (simp add: int2HexString_step base10_hex_def hex2dec_digit)
  qed (simp add: base10_hex_def)
qed

section \<open>EncodeUtil.cpp: URL coding\<close>

text \<open>
  The loop over \<open>value\<close>, with \<open>escaped\<close> as accumulator. A \<open>%\<close> that two hexadecimal digits
  do not follow makes the whole result the empty string.
\<close>

fun urlDecode_loop :: "string \<Rightarrow> string \<Rightarrow> string" where
  "urlDecode_loop escaped [] = escaped"
| "urlDecode_loop escaped (c # cs) =
     (if c = CHR ''%'' then
        (case cs of
           a # b # r \<Rightarrow>
             if isxdigit a \<and> isxdigit b
             then urlDecode_loop (escaped @ [char_of (or (push_bit 4 (hex2dec a)) (hex2dec b))]) r
             else []
         | _ \<Rightarrow> [])
      else if c = CHR ''+'' then urlDecode_loop (escaped @ '' '') cs
      else urlDecode_loop (escaped @ [c]) cs)"

definition urlDecode :: "string \<Rightarrow> string" where
  "urlDecode s = urlDecode_loop [] s"

definition url_unreserved :: "char \<Rightarrow> bool" where
  "url_unreserved c \<longleftrightarrow> isalnum c \<or> c = CHR ''-'' \<or> c = CHR ''_'' \<or> c = CHR ''.'' \<or> c = CHR ''~''"

definition urlEncode_char :: "char \<Rightarrow> string" where
  "urlEncode_char c =
     (if url_unreserved c then [c]
      else [CHR ''%'', toupper (dec2hex (char_of (drop_bit 4 (byte c)))),
            toupper (dec2hex (char_of (and (byte c) 15)))])"

definition urlEncode :: "string \<Rightarrow> string" where
  "urlEncode s = concat (map urlEncode_char s)"

lemma nibble_hex:
  assumes "d < 16"
  shows "isxdigit (toupper (dec2hex (char_of d)))" "hex2dec (toupper (dec2hex (char_of d))) = d"
proof -
  have "isxdigit (toupper (dec2hex (char_of d))) \<and>
      hex2dec (toupper (dec2hex (char_of d))) = d"
  proof (cases "d < 10")
    case True
    then show ?thesis
      by (simp add: dec2hex_digit toupper_def islower_def byte_digit_char isxdigit_def
          isdigit_def hex2dec_def)
  next
    case False
    with assms show ?thesis
      by (simp add: dec2hex_def schar_def toupper_def islower_def isxdigit_def hex2dec_def)
  qed
  then show "isxdigit (toupper (dec2hex (char_of d)))"
    and "hex2dec (toupper (dec2hex (char_of d))) = d" by simp_all
qed

lemma nibbles_join: "or (push_bit 4 (drop_bit 4 n)) (and n 15) = (n :: nat)"
proof -
  have m: "(15 :: nat) = mask 4" by (simp add: mask_eq_exp_minus_1)
  show ?thesis
    unfolding m take_bit_eq_mask [symmetric]
    by (rule bit_eqI) (auto simp: bit_or_iff bit_push_bit_iff bit_drop_bit_eq bit_take_bit_iff)
qed

lemma unreserved_plain: "url_unreserved c \<Longrightarrow> c \<noteq> CHR ''%'' \<and> c \<noteq> CHR ''+''"
  by (auto simp: url_unreserved_def ctype_defs)

lemma urlDecode_loop_encode_char:
  "urlDecode_loop acc (urlEncode_char c @ r) = urlDecode_loop (acc @ [c]) r"
proof (cases "url_unreserved c")
  case True
  with unreserved_plain [OF True] show ?thesis by (simp add: urlEncode_char_def)
next
  case False
  have hi: "drop_bit 4 (byte c) < 16"
    using byte_less [of c] by (simp add: drop_bit_eq_div less_mult_imp_div_less)
  have "and (byte c) 15 = byte c mod 16"
    using take_bit_eq_mask [of 4 "byte c"]
    by (simp add: mask_eq_exp_minus_1 take_bit_eq_mod)
  then have lo: "and (byte c) 15 < 16" by simp
  from False show ?thesis
    by (simp add: urlEncode_char_def nibble_hex [OF hi] nibble_hex [OF lo] nibbles_join)
qed

lemma urlDecode_loop_urlEncode: "urlDecode_loop acc (urlEncode s @ r) = urlDecode_loop (acc @ s) r"
  by (induction s arbitrary: acc) (simp_all add: urlEncode_def urlDecode_loop_encode_char)

lemma length_urlDecode_loop: "length (urlDecode_loop acc s) \<le> length acc + length s"
proof (induction acc s rule: urlDecode_loop.induct)
  case (2 escaped c cs)
  show ?case
  proof (cases "c = CHR ''%'' \<and> (\<exists>a b r. cs = a # b # r \<and> isxdigit a \<and> isxdigit b)")
    case True
    then obtain a b r where "c = CHR ''%''" "cs = a # b # r" "isxdigit a" "isxdigit b" by blast
    with 2(1) [of a "b # r" b r] show ?thesis by simp
  next
    case False
    with 2(2,3) show ?thesis by (auto split: list.split)
  qed
qed simp

lemma urlDecode_plain:
  "CHR ''%'' \<notin> set s \<Longrightarrow> CHR ''+'' \<notin> set s \<Longrightarrow> urlDecode s = s"
proof -
  have "urlDecode_loop acc s = acc @ s" if "CHR ''%'' \<notin> set s" "CHR ''+'' \<notin> set s" for acc
    using that by (induction s arbitrary: acc) auto
  then show "CHR ''%'' \<notin> set s \<Longrightarrow> CHR ''+'' \<notin> set s \<Longrightarrow> urlDecode s = s"
    by (simp add: urlDecode_def)
qed

text \<open>C40: \<open>EncodeUtil::urlDecode\<close> undoes \<open>EncodeUtil::urlEncode\<close> on every byte string, control
  bytes, \<open>%\<close>, \<open>+\<close> and bytes above 127 included.\<close>

theorem urlDecode_urlEncode: "urlDecode (urlEncode s) = s"
  using urlDecode_loop_urlEncode [of "[]" s "[]"] by (simp add: urlDecode_def)

text \<open>Printing a non-negative \<open>int\<close> with \<open>int2HexString\<close> and reading it back with
  \<open>hexString2Int\<close> gives the number, without overflow. Both work in base 10: the two are inverse to
  each other although neither uses the hexadecimal notation.\<close>

theorem hexString2Int_int2HexString:
  assumes "n < 2 ^ 31"
  shows "hexString2Int (int2HexString (int n)) = Inr (int n)"
proof -
  have "\<forall>c \<in> set (int2HexString (int n)). isxdigit c"
    using int2HexString_digits by (auto simp: isxdigit_def)
  with assms show ?thesis
    by (simp add: hexString2Int_value base10_hex_int2HexString)
qed

theorem hexString2Int_int2HexString_witness:
  "hexString2Int (int2HexString 255) = Inr 255 \<and> int2HexString 255 = ''255''"
proof -
  have "int2HexString 255 = ''255''" by code_simp
  with hexString2Int_int2HexString [of 255] show ?thesis by simp
qed

section \<open>EncodeUtil.cpp: MurmurHash2\<close>

text \<open>
  The hash is computed on 32-bit words. \<open>le32\<close> is the load \<open>*(unsigned int *)data\<close> on a
  little-endian machine.
\<close>

definition byte_word :: "char \<Rightarrow> 32 word" where
  "byte_word c = word_of_nat (byte c)"

definition le32 :: "char \<Rightarrow> char \<Rightarrow> char \<Rightarrow> char \<Rightarrow> 32 word" where
  "le32 a b c d =
     or (byte_word a) (or (push_bit 8 (byte_word b))
       (or (push_bit 16 (byte_word c)) (push_bit 24 (byte_word d))))"

definition murmur_m :: "32 word" where
  "murmur_m = 0x5bd1e995"

fun murmur_loop :: "32 word \<Rightarrow> string \<Rightarrow> 32 word \<times> string" where
  "murmur_loop h (a # b # c # d # data) =
     (let k = le32 a b c d * murmur_m;
          k = xor k (drop_bit 24 k);
          k = k * murmur_m
      in murmur_loop (xor (h * murmur_m) k) data)"
| "murmur_loop h data = (h, data)"

text \<open>The \<open>switch (len)\<close> falls through from 3 to 2 to 1.\<close>

definition murmur_tail :: "32 word \<Rightarrow> string \<Rightarrow> 32 word" where
  "murmur_tail h data =
     (let h = (if length data = 3 then xor h (push_bit 16 (byte_word (data ! 2))) else h);
          h = (if length data \<in> {2, 3} then xor h (push_bit 8 (byte_word (data ! 1))) else h)
      in if length data \<in> {1, 2, 3} then xor h (byte_word (data ! 0)) * murmur_m else h)"

definition murmurHash2 :: "string \<Rightarrow> 32 word" where
  "murmurHash2 s =
     (let (h, rest) = murmur_loop (xor 0xEE6B27EB (word_of_nat (length s))) s;
          h = murmur_tail h rest;
          h = xor h (drop_bit 13 h);
          h = h * murmur_m
      in xor h (drop_bit 15 h))"

end
