(* ===== verification/ByteBuffer.thy ===== *)
theory ByteBuffer
  imports Prelude
begin

text \<open>
  \<open>haha_web/base/Buffer.{h,cpp}\<close>: the growing byte buffer between a socket and the protocol
  code. The vector and the two indices are kept as the class has them; what the kernel (or
  OpenSSL) answers to a read or write is an argument. The locale \<open>byte_queue\<close> states what the
  HTTP code relies on, and is interpreted on the class's operations.
\<close>

section \<open>State and operations\<close>

text \<open>A difference of two \<open>size_t\<close> values wraps around.\<close>

definition size_sub :: "nat \<Rightarrow> nat \<Rightarrow> nat" where
  "size_sub a b = (if b \<le> a then a - b else a + 2 ^ 64 - b)"

lemma size_sub_le [simp]: "b \<le> a \<Longrightarrow> size_sub a b = a - b"
  by (simp add: size_sub_def)

record buffer =
  buf_vec :: "char list"
  readPos :: nat
  writePos :: nat

definition new_buffer :: "nat \<Rightarrow> buffer" where
  "new_buffer initialSize = \<lparr>buf_vec = replicate initialSize NUL, readPos = 0, writePos = 0\<rparr>"

definition kInitialSize :: nat where
  "kInitialSize = 1024"

definition ReadableBytes :: "buffer \<Rightarrow> nat" where
  "ReadableBytes b = size_sub (writePos b) (readPos b)"

definition WritableBytes :: "buffer \<Rightarrow> nat" where
  "WritableBytes b = size_sub (length (buf_vec b)) (writePos b)"

definition PrependableBytes :: "buffer \<Rightarrow> nat" where
  "PrependableBytes b = readPos b"

text \<open>The bytes from \<open>Peek()\<close> on, \<open>ReadableBytes()\<close> of them.\<close>

definition readable :: "buffer \<Rightarrow> string" where
  "readable b = take (ReadableBytes b) (drop (readPos b) (buf_vec b))"

definition RetrieveAll :: "buffer \<Rightarrow> buffer" where
  "RetrieveAll b = b\<lparr>readPos := 0, writePos := 0\<rparr>"

definition Retrieve :: "nat \<Rightarrow> buffer \<Rightarrow> buffer res" where
  "Retrieve len b =
     (if \<not> len \<le> ReadableBytes b then Inl Assertion
      else if len < ReadableBytes b then Inr (b\<lparr>readPos := readPos b + len\<rparr>)
      else Inr (RetrieveAll b))"

text \<open>\<open>end\<close> is given by its offset in the vector.\<close>

definition RetrieveUntil :: "nat \<Rightarrow> buffer \<Rightarrow> buffer res" where
  "RetrieveUntil end_pos b =
     (if \<not> readPos b \<le> end_pos then Inl Assertion
      else if \<not> end_pos \<le> writePos b then Inl Assertion
      else Retrieve (end_pos - readPos b) b)"

definition RetrieveAllToStr :: "buffer \<Rightarrow> string \<times> buffer" where
  "RetrieveAllToStr b = (readable b, RetrieveAll b)"

definition HasWritten :: "nat \<Rightarrow> buffer \<Rightarrow> buffer" where
  "HasWritten len b = b\<lparr>writePos := writePos b + len\<rparr>"

definition MakeSpace :: "nat \<Rightarrow> buffer \<Rightarrow> buffer res" where
  "MakeSpace len b =
     (if WritableBytes b + PrependableBytes b < len
      then let n = writePos b + len + 1
           in Inr (b\<lparr>buf_vec := take n (buf_vec b) @ replicate (n - length (buf_vec b)) NUL\<rparr>)
      else let rd = ReadableBytes b;
               b' = b\<lparr>buf_vec := readable b @ drop (length (readable b)) (buf_vec b),
                      readPos := 0, writePos := rd\<rparr>
           in if rd = ReadableBytes b' then Inr b' else Inl Assertion)"

definition EnsureWriteable :: "nat \<Rightarrow> buffer \<Rightarrow> buffer res" where
  "EnsureWriteable len b =
     rbind (if WritableBytes b < len then MakeSpace len b else Inr b)
       (\<lambda>b'. if len \<le> WritableBytes b' then Inr b' else Inl Assertion)"

text \<open>\<open>std::copy\<close> of \<open>s\<close> to \<open>BeginWrite()\<close>.\<close>

definition write_at :: "string \<Rightarrow> nat \<Rightarrow> char list \<Rightarrow> char list" where
  "write_at s pos v = take pos v @ s @ drop (pos + length s) v"

definition Append :: "string \<Rightarrow> buffer \<Rightarrow> buffer res" where
  "Append s b =
     rbind (EnsureWriteable (length s) b)
       (\<lambda>b'. Inr (HasWritten (length s) (b'\<lparr>buf_vec := write_at s (writePos b') (buf_vec b')\<rparr>)))"

definition AppendBuffer :: "buffer \<Rightarrow> buffer \<Rightarrow> buffer res" where
  "AppendBuffer other b = Append (readable other) b"

section \<open>Kernel input and output\<close>

text \<open>
  The answer of a read system call (or \<open>SSL_read\<close>): an error with its \<open>errno\<close>, or the bytes
  it stored. The answer of a write: an error, or the number of bytes taken.
\<close>

datatype read_answer = Read_error nat | Read_bytes string
datatype write_answer = Write_error nat | Written nat

definition extra_size :: nat where
  "extra_size = 65535"

text \<open>
  \<open>ReadFd\<close>: scatter read into the writable part and a stack buffer; the second part is
  appended. The result is the length read (\<open>-1\<close> on error), the errno saved, and the buffer.
\<close>

definition ReadFd :: "read_answer \<Rightarrow> buffer \<Rightarrow> (int \<times> nat option \<times> buffer) res" where
  "ReadFd ans b =
     (case ans of
        Read_error e \<Rightarrow> Inr (- 1, Some e, b)
      | Read_bytes s \<Rightarrow>
          let writable = WritableBytes b;
              b1 = b\<lparr>buf_vec := write_at (take writable s) (writePos b) (buf_vec b)\<rparr>
          in if length s \<le> writable
             then Inr (int (length s), None, b1\<lparr>writePos := writePos b1 + length s\<rparr>)
             else rbind (Append (drop writable s) (b1\<lparr>writePos := length (buf_vec b1)\<rparr>))
                    (\<lambda>b2. Inr (int (length s), None, b2)))"

definition WriteFd :: "write_answer \<Rightarrow> buffer \<Rightarrow> int \<times> nat option \<times> buffer" where
  "WriteFd ans b =
     (case ans of
        Write_error e \<Rightarrow> (- 1, Some e, b)
      | Written n \<Rightarrow> (int n, None, b\<lparr>readPos := readPos b + n\<rparr>))"

definition ReadSsl :: "read_answer \<Rightarrow> buffer \<Rightarrow> (int \<times> nat option \<times> buffer) res" where
  "ReadSsl ans b =
     (case ans of
        Read_error e \<Rightarrow> Inr (- 1, Some e, b)
      | Read_bytes s \<Rightarrow> rbind (Append s b) (\<lambda>b'. Inr (int (length s), None, b')))"

definition WriteSsl :: "write_answer \<Rightarrow> buffer \<Rightarrow> int \<times> nat option \<times> buffer" where
  "WriteSsl ans b =
     (case ans of
        Write_error e \<Rightarrow> (- 1, Some e, b)
      | Written n \<Rightarrow> (int n, None, b\<lparr>readPos := readPos b + n\<rparr>))"

section \<open>Invariant and behaviour\<close>

text \<open>The picture of the header file: \<open>0 <= readerIndex <= writerIndex <= size\<close>.\<close>

definition buf_ok :: "buffer \<Rightarrow> bool" where
  "buf_ok b \<longleftrightarrow> readPos b \<le> writePos b \<and> writePos b \<le> length (buf_vec b)"

lemma buf_ok_new [simp]: "buf_ok (new_buffer n)" "readable (new_buffer n) = []"
  by (simp_all add: buf_ok_def new_buffer_def readable_def ReadableBytes_def)

lemma length_readable [simp]: "buf_ok b \<Longrightarrow> length (readable b) = ReadableBytes b"
  by (auto simp: buf_ok_def readable_def ReadableBytes_def)

lemma RetrieveAll_ok [simp]: "buf_ok (RetrieveAll b)" "readable (RetrieveAll b) = []"
  by (simp_all add: RetrieveAll_def buf_ok_def readable_def ReadableBytes_def)

lemma Retrieve_cases:
  assumes "buf_ok b" and "n \<le> length (readable b)"
  shows "\<exists>b'. Retrieve n b = Inr b' \<and> buf_ok b' \<and> readable b' = drop n (readable b)"
proof (cases "n < ReadableBytes b")
  case True
  then have n: "readPos b + n \<le> writePos b"
    using assms(1) by (auto simp: buf_ok_def ReadableBytes_def)
  have "readable (b\<lparr>readPos := readPos b + n\<rparr>) = drop n (readable b)"
    using assms(1) n by (simp add: readable_def ReadableBytes_def buf_ok_def drop_take add.commute)
  moreover have "buf_ok (b\<lparr>readPos := readPos b + n\<rparr>)"
    using assms(1) n by (simp add: buf_ok_def)
  ultimately show ?thesis using True by (simp add: Retrieve_def)
next
  case False
  with assms show ?thesis by (simp add: Retrieve_def)
qed

lemma Retrieve_too_much:
  "buf_ok b \<Longrightarrow> length (readable b) < n \<Longrightarrow> Retrieve n b = Inl Assertion"
  by (simp add: Retrieve_def)

lemma MakeSpace_ok:
  assumes "buf_ok b"
  shows "\<exists>b'. MakeSpace n b = Inr b' \<and> buf_ok b' \<and> readable b' = readable b \<and> n \<le> WritableBytes b'"
proof (cases "WritableBytes b + PrependableBytes b < n")
  case True
  let ?m = "writePos b + n + 1"
  let ?b = "b\<lparr>buf_vec := take ?m (buf_vec b) @ replicate (?m - length (buf_vec b)) NUL\<rparr>"
  have short: "length (buf_vec b) < ?m"
    using True assms by (auto simp: WritableBytes_def buf_ok_def)
  have "buf_ok ?b" "n \<le> WritableBytes ?b"
    using assms short by (auto simp: buf_ok_def WritableBytes_def)
  moreover have "readable ?b = readable b"
    using assms short by (simp add: readable_def ReadableBytes_def buf_ok_def)
  ultimately show ?thesis using True by (simp add: MakeSpace_def Let_def)
next
  case False
  let ?b = "b\<lparr>buf_vec := readable b @ drop (length (readable b)) (buf_vec b),
              readPos := 0, writePos := ReadableBytes b\<rparr>"
  have len: "length (readable b) \<le> length (buf_vec b)"
    using assms by (simp add: readable_def)
  have "buf_ok ?b" using assms len by (simp add: buf_ok_def)
  moreover have "readable ?b = readable b"
  proof -
    have "readable ?b = take (ReadableBytes b) (readable b @ drop (length (readable b)) (buf_vec b))"
      by (simp add: readable_def ReadableBytes_def)
    also have "\<dots> = readable b" using assms by simp
    finally show ?thesis .
  qed
  moreover have "ReadableBytes ?b = ReadableBytes b" by (simp add: ReadableBytes_def [of ?b])
  moreover have "n \<le> WritableBytes ?b"
    using False assms by (auto simp: WritableBytes_def PrependableBytes_def buf_ok_def ReadableBytes_def)
  ultimately show ?thesis using False by (simp add: MakeSpace_def Let_def del: length_readable)
qed

lemma EnsureWriteable_ok:
  assumes "buf_ok b"
  shows "\<exists>b'. EnsureWriteable n b = Inr b' \<and> buf_ok b' \<and> readable b' = readable b \<and> n \<le> WritableBytes b'"
  using MakeSpace_ok [OF assms, of n] assms
  by (auto simp: EnsureWriteable_def)

lemma write_at_ok:
  assumes "buf_ok b" and "length s \<le> WritableBytes b"
  shows "buf_ok (HasWritten (length s) (b\<lparr>buf_vec := write_at s (writePos b) (buf_vec b)\<rparr>))"
    and "readable (HasWritten (length s) (b\<lparr>buf_vec := write_at s (writePos b) (buf_vec b)\<rparr>)) = readable b @ s"
proof -
  let ?b = "HasWritten (length s) (b\<lparr>buf_vec := write_at s (writePos b) (buf_vec b)\<rparr>)"
  have w: "writePos b + length s \<le> length (buf_vec b)"
    using assms by (auto simp: WritableBytes_def buf_ok_def)
  show "buf_ok ?b" using assms w by (simp add: buf_ok_def HasWritten_def write_at_def)
  show "readable ?b = readable b @ s"
    using assms(1) w
    by (simp add: readable_def ReadableBytes_def buf_ok_def HasWritten_def write_at_def drop_take take_append)
qed

lemma Append_ok:
  assumes "buf_ok b"
  shows "\<exists>b'. Append s b = Inr b' \<and> buf_ok b' \<and> readable b' = readable b @ s"
proof -
  obtain b1 where b1: "EnsureWriteable (length s) b = Inr b1" "buf_ok b1"
      "readable b1 = readable b" "length s \<le> WritableBytes b1"
    using EnsureWriteable_ok [OF assms] by blast
  show ?thesis using b1 write_at_ok [OF b1(2,4)] by (simp add: Append_def)
qed

lemma ReadFd_ok:
  assumes "buf_ok b"
  shows "\<exists>b'. ReadFd (Read_bytes s) b = Inr (int (length s), None, b') \<and> buf_ok b' \<and>
              readable b' = readable b @ s"
proof (cases "length s \<le> WritableBytes b")
  case True
  show ?thesis
    using write_at_ok [OF assms True] True by (simp add: ReadFd_def Let_def HasWritten_def)
next
  case False
  let ?w = "WritableBytes b"
  let ?b1 = "b\<lparr>buf_vec := write_at (take ?w s) (writePos b) (buf_vec b)\<rparr>"
  let ?b2 = "?b1\<lparr>writePos := length (buf_vec ?b1)\<rparr>"
  have len: "length (take ?w s) = ?w" using False by simp
  have "length (buf_vec ?b1) = writePos b + ?w"
    using assms False by (auto simp: write_at_def buf_ok_def WritableBytes_def)
  then have eq: "?b2 = HasWritten (length (take ?w s)) ?b1" using len by (simp add: HasWritten_def)
  have ok: "buf_ok ?b2" "readable ?b2 = readable b @ take ?w s"
    unfolding eq using write_at_ok [OF assms, of "take ?w s"] len by simp_all
  obtain b3 where "Append (drop ?w s) ?b2 = Inr b3" "buf_ok b3"
      "readable b3 = readable ?b2 @ drop ?w s"
    using Append_ok [OF ok(1)] by blast
  with ok False show ?thesis by (simp add: ReadFd_def Let_def)
qed

lemma WriteFd_ok:
  assumes "buf_ok b" and "n \<le> length (readable b)"
  shows "WriteFd (Written n) b = (int n, None, b\<lparr>readPos := readPos b + n\<rparr>)"
    and "buf_ok (b\<lparr>readPos := readPos b + n\<rparr>)"
    and "readable (b\<lparr>readPos := readPos b + n\<rparr>) = drop n (readable b)"
  using assms
  by (auto simp: WriteFd_def buf_ok_def readable_def ReadableBytes_def drop_take add.commute)

section \<open>The contract: a queue of bytes\<close>

datatype buf_op = Put string | Get nat

fun bq_run :: "(string \<Rightarrow> 'b \<Rightarrow> 'b res) \<Rightarrow> (nat \<Rightarrow> 'b \<Rightarrow> 'b res) \<Rightarrow> buf_op list \<Rightarrow> 'b \<Rightarrow> 'b res" where
  "bq_run put get [] b = Inr b"
| "bq_run put get (Put s # ops) b = rbind (put s b) (bq_run put get ops)"
| "bq_run put get (Get n # ops) b = rbind (get n b) (bq_run put get ops)"

text \<open>The abstract queue: a string, appended at the end, taken from the front.\<close>

fun bq_spec :: "buf_op list \<Rightarrow> string \<Rightarrow> string res" where
  "bq_spec [] q = Inr q"
| "bq_spec (Put s # ops) q = bq_spec ops (q @ s)"
| "bq_spec (Get n # ops) q = (if n \<le> length q then bq_spec ops (drop n q) else Inl Assertion)"

locale byte_queue =
  fixes inv :: "'b \<Rightarrow> bool"
    and content :: "'b \<Rightarrow> string"
    and put :: "string \<Rightarrow> 'b \<Rightarrow> 'b res"
    and get :: "nat \<Rightarrow> 'b \<Rightarrow> 'b res"
  assumes put_ok: "inv b \<Longrightarrow> \<exists>b'. put s b = Inr b' \<and> inv b' \<and> content b' = content b @ s"
    and get_ok: "inv b \<Longrightarrow> n \<le> length (content b) \<Longrightarrow>
      \<exists>b'. get n b = Inr b' \<and> inv b' \<and> content b' = drop n (content b)"
    and get_fail: "inv b \<Longrightarrow> length (content b) < n \<Longrightarrow> get n b = Inl Assertion"
begin

lemma put_Inr: "inv b \<Longrightarrow> put s b = Inr b' \<Longrightarrow> inv b' \<and> content b' = content b @ s"
  using put_ok [of b s] by auto

lemma get_Inr: "inv b \<Longrightarrow> get n b = Inr b' \<Longrightarrow>
    n \<le> length (content b) \<and> inv b' \<and> content b' = drop n (content b)"
  using get_ok [of b n] get_fail [of b n] by (cases "n \<le> length (content b)") auto

lemma get_Inl: "inv b \<Longrightarrow> get n b = Inl e \<Longrightarrow> e = Assertion \<and> length (content b) < n"
  using get_ok [of b n] get_fail [of b n] by (cases "n \<le> length (content b)") auto

lemma run_refines:
  "inv b \<Longrightarrow>
   map_sum id content (bq_run put get ops b) = bq_spec ops (content b) \<and>
   (\<forall>b'. bq_run put get ops b = Inr b' \<longrightarrow> inv b')"
proof (induction ops arbitrary: b)
  case (Cons op ops)
  show ?case
  proof (cases op)
    case (Put s)
    obtain b' where "put s b = Inr b'" "inv b'" "content b' = content b @ s"
      using put_ok Cons.prems by blast
    with Cons.IH [of b'] Put show ?thesis by simp
  next
    case (Get n)
    show ?thesis
    proof (cases "n \<le> length (content b)")
      case True
      then obtain b' where "get n b = Inr b'" "inv b'" "content b' = drop n (content b)"
        using get_ok Cons.prems by blast
      with Cons.IH [of b'] Get True show ?thesis by simp
    next
      case False
      with Cons.prems Get show ?thesis by (simp add: get_fail)
    qed
  qed
qed simp

end

interpretation rbuf: byte_queue buf_ok readable Append Retrieve
  by unfold_locales (simp_all add: Append_ok Retrieve_cases Retrieve_too_much)

text \<open>C12: Every sequence of appends and retrievals on a buffer in a valid state behaves as on a
  plain string: it fails an assertion exactly when more bytes are retrieved than are there,
  and otherwise leaves exactly the bytes of the abstract queue. Growing and compacting the
  vector is never visible.
\<close>

theorem buffer_refines_byte_queue:
  assumes "buf_ok b"
  shows "map_sum id readable (bq_run Append Retrieve ops b) = bq_spec ops (readable b)"
  using rbuf.run_refines [OF assms] by simp

theorem buffer_refines_byte_queue_witness:
  "buf_ok (new_buffer 4) \<and>
   map_sum id readable (bq_run Append Retrieve [Put ''GET /'', Get 4] (new_buffer 4)) = Inr ''/''"
  using buffer_refines_byte_queue [of "new_buffer 4" "[Put ''GET /'', Get 4]"] by simp

text \<open>A buffer that holds exactly a string, for examples.\<close>

definition full_buffer :: "string \<Rightarrow> buffer" where
  "full_buffer s = \<lparr>buf_vec = s, readPos = 0, writePos = length s\<rparr>"

lemma full_buffer_simps [simp]: "buf_ok (full_buffer s)" "readable (full_buffer s) = s"
  by (simp_all add: full_buffer_def buf_ok_def readable_def ReadableBytes_def)

end
