(* ===== verification/HttpMaps.thy ===== *)
theory HttpMaps
  imports BaseUtil "HOL-Library.AList"
begin

text \<open>
  \<open>haha_web/http/HttpMap.h\<close>, \<open>HttpHeader.h\<close> and the key/value part of \<open>HttpUtil.cpp\<close>.
  A \<open>std::unordered_map\<close> is an association list with distinct keys; its order stands for
  the (unspecified) iteration order. The locale \<open>keyed_store\<close> is the contract of \<open>add\<close>,
  \<open>del\<close> and \<open>get\<close> the parsers rely on; the three maps of the program interpret it.
\<close>

section \<open>HttpBaseMap\<close>

datatype case_sensitive = YES | NO

type_synonym 'v umap = "(string \<times> 'v) list"

definition norm_key :: "case_sensitive \<Rightarrow> string \<Rightarrow> string" where
  "norm_key c k = (if c = YES then k else toLowers k)"

definition map_add_kv :: "case_sensitive \<Rightarrow> string \<Rightarrow> 'v \<Rightarrow> 'v umap \<Rightarrow> 'v umap" where
  "map_add_kv c k v m = AList.update (if c = YES then k else toLowers k) v m"

definition map_del :: "case_sensitive \<Rightarrow> string \<Rightarrow> 'v umap \<Rightarrow> 'v umap" where
  "map_del c k m =
     (let key = (if c = YES then k else toLowers k)
      in case map_of m key of None \<Rightarrow> m | Some _ \<Rightarrow> AList.delete key m)"

definition map_contains :: "case_sensitive \<Rightarrow> string \<Rightarrow> 'v umap \<Rightarrow> bool" where
  "map_contains c k m \<longleftrightarrow> map_of m (if c = YES then k else toLowers k) \<noteq> None"

text \<open>\<open>RetOption\<close>: \<open>None\<close> where \<open>exist()\<close> is false.\<close>

definition map_get :: "case_sensitive \<Rightarrow> string \<Rightarrow> 'v umap \<Rightarrow> 'v option" where
  "map_get c k m = map_of m (if c = YES then k else toLowers k)"

section \<open>HttpHeader\<close>

record http_header =
  hmap :: "string umap"
  hlength :: nat

definition new_header :: http_header where
  "new_header = \<lparr>hmap = [], hlength = 0\<rparr>"

definition header_add :: "string \<Rightarrow> string \<Rightarrow> http_header \<Rightarrow> http_header" where
  "header_add k v h =
     h\<lparr>hmap := AList.update (toLowers k) v (hmap h), hlength := hlength h + (length k + length v)\<rparr>"

text \<open>The subtraction is on \<open>size_t\<close>.\<close>

definition header_del :: "string \<Rightarrow> http_header \<Rightarrow> http_header" where
  "header_del k h =
     (case map_of (hmap h) (toLowers k) of
        None \<Rightarrow> h
      | Some v \<Rightarrow>
          h\<lparr>hlength := (hlength h + 2 ^ 64 - (length k + length v)) mod 2 ^ 64,
            hmap := AList.delete (toLowers k) (hmap h)\<rparr>)"

definition header_get :: "string \<Rightarrow> http_header \<Rightarrow> string option" where
  "header_get k h = map_of (hmap h) (toLowers k)"

definition header_size :: "http_header \<Rightarrow> nat" where
  "header_size h = hlength h"

definition header_keyCount :: "http_header \<Rightarrow> nat" where
  "header_keyCount h = length (hmap h)"

text \<open>As written: true when the header is not empty.\<close>

definition header_empty :: "http_header \<Rightarrow> bool" where
  "header_empty h \<longleftrightarrow> hlength h > 0"

section \<open>The contract of a keyed store\<close>

locale keyed_store =
  fixes norm :: "string \<Rightarrow> string"
    and add :: "string \<Rightarrow> 'v \<Rightarrow> 'm \<Rightarrow> 'm"
    and del :: "string \<Rightarrow> 'm \<Rightarrow> 'm"
    and get :: "string \<Rightarrow> 'm \<Rightarrow> 'v option"
    and inv :: "'m \<Rightarrow> bool"
  assumes add_inv: "inv m \<Longrightarrow> inv (add k v m)"
    and del_inv: "inv m \<Longrightarrow> inv (del k m)"
    and get_add: "get k' (add k v m) = (if norm k' = norm k then Some v else get k' m)"
    and get_del: "inv m \<Longrightarrow> get k' (del k m) = (if norm k' = norm k then None else get k' m)"
    and get_norm: "norm k = norm k' \<Longrightarrow> get k m = get k' m"
begin

text \<open>Adding a list of pairs: the last value under a key wins.\<close>

lemma get_fold_add:
  "get k (foldl (\<lambda>m (k, v). add k v m) m kvs) =
   (case map_of (rev (map (\<lambda>(k, v). (norm k, v)) kvs)) (norm k) of None \<Rightarrow> get k m | Some v \<Rightarrow> Some v)"
proof (induction kvs arbitrary: m)
  case (Cons kv kvs)
  obtain k' v where kv: "kv = (k', v)" by (cases kv)
  show ?case
    by (simp add: kv Cons.IH get_add map_add_def split: option.split)
qed simp

lemma fold_add_inv: "inv m \<Longrightarrow> inv (foldl (\<lambda>m (k, v). add k v m) m kvs)"
  by (induction kvs arbitrary: m) (auto simp: add_inv)

lemma get_add_del: "inv m \<Longrightarrow> get k (del k (add k v m)) = None"
  by (simp add: get_del add_inv)

end

interpretation ymap: keyed_store "\<lambda>k. k" "map_add_kv YES" "map_del YES" "map_get YES" "\<lambda>m. distinct (map fst m)"
  by unfold_locales
     (auto simp: map_add_kv_def map_del_def map_get_def update_conv' delete_conv' Let_def distinct_update
        distinct_delete split: option.split)

interpretation nmap: keyed_store toLowers "map_add_kv NO" "map_del NO" "map_get NO" "\<lambda>m. distinct (map fst m)"
  by unfold_locales
     (auto simp: map_add_kv_def map_del_def map_get_def update_conv' delete_conv' Let_def distinct_update
        distinct_delete split: option.split)

interpretation hdr: keyed_store toLowers header_add header_del header_get "\<lambda>h. distinct (map fst (hmap h))"
  by unfold_locales
     (auto simp: header_add_def header_del_def header_get_def update_conv' delete_conv' distinct_update
        distinct_delete split: option.split)

section \<open>HttpUtil.cpp: parseKeyValue\<close>

text \<open>
  The loop of \<open>parseKeyValue\<close>. A missing \<open>join\<close> ends the parse. An iteration that removes
  nothing from the view (both separators empty) would repeat forever.
\<close>

function parseKeyValue_loop ::
  "string \<Rightarrow> string \<Rightarrow> string \<Rightarrow> string umap \<Rightarrow> string umap res" where
  "parseKeyValue_loop join split view m =
     (if view = [] then Inr m
      else
        let pos = find_sub split view;
            kv = (case pos of None \<Rightarrow> view | Some p \<Rightarrow> take p view)
        in case find_sub join kv of
             None \<Rightarrow> Inr m
           | Some pos1 \<Rightarrow>
               let k = take pos1 kv;
                   v = drop (pos1 + length join) kv;
                   m' = map_add_kv YES k v m
               in case pos of
                    None \<Rightarrow> Inr m'
                  | Some p \<Rightarrow>
                      let rest = dropWhile (\<lambda>c. c = CHR '' '') (drop (p + length split) view)
                      in if length rest < length view then parseKeyValue_loop join split rest m'
                         else Inl Diverges)"
  by pat_completeness auto
termination
  by (relation "measure (\<lambda>(join, split, view, m). length view)") auto

declare parseKeyValue_loop.simps [simp del]

definition parseKeyValue ::
  "string \<Rightarrow> string \<Rightarrow> string \<Rightarrow> string umap \<Rightarrow> bool \<Rightarrow> string umap res" where
  "parseKeyValue src join split m urldecode =
     parseKeyValue_loop join split (if urldecode then urlDecode src else src) m"

text \<open>A form body: pairs joined by \<open>=\<close> and separated by \<open>&\<close>.\<close>

definition form_pair :: "(string \<times> string) \<Rightarrow> string" where
  "form_pair kv = fst kv @ ''='' @ snd kv"

fun form_string :: "(string \<times> string) list \<Rightarrow> string" where
  "form_string [] = []"
| "form_string [kv] = form_pair kv"
| "form_string (kv # kvs) = form_pair kv @ ''&'' @ form_string kvs"

definition form_ok :: "(string \<times> string) \<Rightarrow> bool" where
  "form_ok kv \<longleftrightarrow> CHR ''='' \<notin> set (fst kv) \<and> CHR ''&'' \<notin> set (fst kv) \<and> CHR ''&'' \<notin> set (snd kv) \<and>
     (fst kv = [] \<or> hd (fst kv) \<noteq> CHR '' '')"

lemma find_sub_single: "find_sub [c] v = find_char (\<lambda>d. d = c) v"
  by (induction v) auto

lemma form_pair_nonempty [simp]: "form_pair kv \<noteq> []"
  by (simp add: form_pair_def)

lemma find_join_form_pair:
  "CHR ''='' \<notin> set (fst kv) \<Longrightarrow> find_sub ''='' (form_pair kv) = Some (length (fst kv))"
  unfolding find_sub_single form_pair_def
  using find_char_append [of "fst kv" "\<lambda>d. d = CHR ''=''" "CHR ''=''" "snd kv"] by auto

lemma find_split_form_pair:
  "form_ok kv \<Longrightarrow> find_sub ''&'' (form_pair kv) = None"
  "form_ok kv \<Longrightarrow> find_sub ''&'' (form_pair kv @ ''&'' @ r) = Some (length (form_pair kv))"
proof -
  assume ok: "form_ok kv"
  have free: "\<forall>c \<in> set (form_pair kv). c \<noteq> CHR ''&''"
    using ok by (auto simp: form_pair_def form_ok_def)
  then show "find_sub ''&'' (form_pair kv) = None"
    unfolding find_sub_single by (simp add: find_char_None_iff)
  show "find_sub ''&'' (form_pair kv @ ''&'' @ r) = Some (length (form_pair kv))"
    unfolding find_sub_single
    using find_char_append [of "form_pair kv" "\<lambda>d. d = CHR ''&''" "CHR ''&''" r] free by auto
qed

lemma form_pair_head: "form_ok kv \<Longrightarrow> \<exists>c r. form_pair kv = c # r \<and> c \<noteq> CHR '' ''"
  by (cases "fst kv") (auto simp: form_pair_def form_ok_def)

lemma form_string_Cons: "\<exists>r. form_string (kv # kvs) = form_pair kv @ r"
  by (cases kvs) auto

lemma form_string_head:
  assumes "form_ok kv"
  shows "dropWhile (\<lambda>c. c = CHR '' '') (form_string (kv # kvs)) = form_string (kv # kvs)"
proof -
  obtain c r r' where "form_pair kv = c # r" "c \<noteq> CHR '' ''" "form_string (kv # kvs) = form_pair kv @ r'"
    using form_pair_head [OF assms] form_string_Cons by metis
  then show ?thesis by simp
qed

lemma parseKeyValue_form:
  "\<forall>kv \<in> set kvs. form_ok kv \<Longrightarrow>
   parseKeyValue_loop ''='' ''&'' (form_string kvs) m = Inr (foldl (\<lambda>m (k, v). map_add_kv YES k v m) m kvs)"
proof (induction kvs arbitrary: m rule: form_string.induct)
  case 1
  show ?case by (simp add: parseKeyValue_loop.simps)
next
  case (2 kv)
  then have ok: "form_ok kv" and eq: "CHR ''='' \<notin> set (fst kv)" by (auto simp: form_ok_def)
  show ?case
    by (subst parseKeyValue_loop.simps)
       (simp add: find_split_form_pair(1) [OF ok] find_join_form_pair [OF eq] Let_def,
        simp add: form_pair_def split: prod.split)
next
  case (3 kv kv' kvs)
  then have ok: "form_ok kv" and eq: "CHR ''='' \<notin> set (fst kv)" by (auto simp: form_ok_def)
  have head: "dropWhile (\<lambda>c. c = CHR '' '') (form_string (kv' # kvs)) = form_string (kv' # kvs)"
    using 3 by (intro form_string_head) auto
  have IH: "parseKeyValue_loop ''='' ''&'' (form_string (kv' # kvs)) m' =
      Inr (foldl (\<lambda>m (k, v). map_add_kv YES k v m) m' (kv' # kvs))" for m'
    using 3 by simp
  show ?case
    by (subst parseKeyValue_loop.simps)
       (simp add: find_split_form_pair(2) [OF ok, simplified] find_join_form_pair [OF eq] Let_def head IH
          del: foldl_Cons,
        simp add: form_pair_def split: prod.split)
qed

lemma urlDecode_loop_form_pair:
  "urlDecode_loop acc (form_pair (urlEncode k, urlEncode v) @ r) = urlDecode_loop (acc @ form_pair (k, v)) r"
  by (simp add: form_pair_def urlDecode_loop_urlEncode append_assoc [symmetric] del: append_assoc)
     (simp add: urlDecode_loop_urlEncode)

lemma urlDecode_loop_form_string:
  "urlDecode_loop acc (form_string (map (\<lambda>(k, v). (urlEncode k, urlEncode v)) kvs)) = acc @ form_string kvs"
proof (induction kvs arbitrary: acc rule: form_string.induct)
  case (2 kv)
  show ?case
    using urlDecode_loop_form_pair [of acc "fst kv" "snd kv" "[]"] by (simp add: split_beta)
next
  case (3 kv kv' kvs)
  show ?case
    using 3 urlDecode_loop_form_pair [of acc "fst kv" "snd kv"] by (simp add: split_beta)
qed simp

section \<open>Properties\<close>



text \<open>The body is decoded before it is split, so an encoded separator inside a value is not
  protected: the one pair \<open>a\<close> with value \<open>v&k=w\<close>, correctly encoded, is stored as the two
  pairs \<open>a\<close>, \<open>v\<close> and \<open>k\<close>, \<open>w\<close>.
\<close>

theorem encoded_separator_splits_value:
  assumes "form_ok (a, v)" and "form_ok (k, w)"
  shows "parseKeyValue (form_pair (urlEncode a, urlEncode (v @ ''&'' @ form_pair (k, w)))) ''='' ''&'' m True =
     Inr (map_add_kv YES k w (map_add_kv YES a v m))"
proof -
  have "form_pair (a, v @ ''&'' @ form_pair (k, w)) = form_string [(a, v), (k, w)]"
    by (simp add: form_pair_def)
  moreover have "urlDecode (form_pair (urlEncode a, urlEncode (v @ ''&'' @ form_pair (k, w)))) =
      form_pair (a, v @ ''&'' @ form_pair (k, w))"
    using urlDecode_loop_form_pair [of "[]" a "v @ ''&'' @ form_pair (k, w)" "[]"]
    by (simp add: urlDecode_def)
  ultimately show ?thesis
    using parseKeyValue_form [of "[(a, v), (k, w)]" m] assms by (simp add: parseKeyValue_def)
qed

theorem encoded_separator_splits_value_witness:
  "parseKeyValue (form_pair (urlEncode ''q'', urlEncode (''rock'' @ ''&'' @ form_pair (''admin'', ''1'')))) ''='' ''&'' [] True =
     Inr [(''q'', ''rock''), (''admin'', ''1'')]"
  by (subst encoded_separator_splits_value) (simp_all add: form_ok_def map_add_kv_def)

text \<open>C34: The request header is a case-insensitive map in which the last line with a name wins, and
  its \<open>size()\<close>, which the parser compares with the header limit, counts the bytes of every
  line added, repeated names included.
\<close>

theorem header_lines_lookup:
  "header_get k (foldl (\<lambda>h (k, v). header_add k v h) new_header kvs) =
     map_of (rev (map (\<lambda>(k, v). (toLowers k, v)) kvs)) (toLowers k) \<and>
   header_size (foldl (\<lambda>h (k, v). header_add k v h) new_header kvs) =
     sum_list (map (\<lambda>(k, v). length k + length v) kvs)"
proof -
  have size: "hlength (foldl (\<lambda>h (k, v). header_add k v h) h kvs) =
      hlength h + sum_list (map (\<lambda>(k, v). length k + length v) kvs)" for h
    by (induction kvs arbitrary: h) (auto simp: header_add_def)
  have "header_get k new_header = None" by (simp add: header_get_def new_header_def)
  then show ?thesis
    using hdr.get_fold_add [of k new_header kvs]
    by (simp add: header_size_def size new_header_def split: option.split)
qed

lemma set_update_subset: "set (AList.update k v m) \<subseteq> insert (k, v) (set m)"
  by (induction m) auto

end
