(* ===== verification/HttpTables.thy ===== *)
theory HttpTables
  imports HttpMaps
begin

text \<open>
  The enumerations and tables of \<open>haha_web/http/HttpUtil.h\<close>: status codes, content types, file
  extensions, methods and versions. The tables that the sources compute from another table do so
  by iterating over an unordered map; the iteration order is an argument.
\<close>

section \<open>Enumerations\<close>

datatype http_status =
    CONTINUE
  | OK
  | PARTIAL_CONTENT
  | MOVED_PERMANENTLY
  | FOUND
  | NOT_MODIFIED
  | TEMPORARY_REDIRECT
  | BAD_REQUEST
  | UNAUTHORIZED
  | FORBIDDEN
  | NOT_FOUND
  | METHOD_NOT_ALLOWED
  | RANGE_NOT_SATISFIABLE
  | INTERNAL_SERVER_ERROR
  | SERVICE_UNAVAILABLE
  | HTTP_VERSION_NOT_SUPPORTED

fun status_code :: "http_status \<Rightarrow> int" where
  "status_code CONTINUE = 100"
| "status_code OK = 200"
| "status_code PARTIAL_CONTENT = 206"
| "status_code MOVED_PERMANENTLY = 301"
| "status_code FOUND = 302"
| "status_code NOT_MODIFIED = 304"
| "status_code TEMPORARY_REDIRECT = 307"
| "status_code BAD_REQUEST = 400"
| "status_code UNAUTHORIZED = 401"
| "status_code FORBIDDEN = 403"
| "status_code NOT_FOUND = 404"
| "status_code METHOD_NOT_ALLOWED = 405"
| "status_code RANGE_NOT_SATISFIABLE = 416"
| "status_code INTERNAL_SERVER_ERROR = 500"
| "status_code SERVICE_UNAVAILABLE = 503"
| "status_code HTTP_VERSION_NOT_SUPPORTED = 505"

datatype http_chunked_state = NO_LEN | NO_DATA | DONE | BAD

datatype http_content_type =
    URLENCODED
  | MULTIPART
  | JSON
  | PLAIN
  | HTML
  | JPG
  | JPEG
  | PNG
  | BMP
  | AVI
  | MP4
  | WEBM
  | UNKNOW

datatype http_method = GET | POST | HEAD

datatype http_version = HTTP_1_0 | HTTP_1_1 | HTTP_2_0

section \<open>Tables\<close>

text \<open>A map literal: the first entry of a key counts.\<close>

definition HttpStatus2Str :: "(int \<times> string) list" where
  "HttpStatus2Str =
    [(status_code CONTINUE, ''Continue''),
     (status_code OK, ''OK''),
     (status_code PARTIAL_CONTENT, ''Partial Content''),
     (status_code MOVED_PERMANENTLY, ''Moved Permanently''),
     (status_code FOUND, ''Found''),
     (status_code NOT_MODIFIED, ''Not Modified''),
     (status_code TEMPORARY_REDIRECT, ''Temporary Redirect''),
     (status_code BAD_REQUEST, ''Bad Request''),
     (status_code UNAUTHORIZED, ''Unauthorized''),
     (status_code FORBIDDEN, ''Forbidden''),
     (status_code NOT_FOUND, ''Not Found''),
     (status_code METHOD_NOT_ALLOWED, ''Method Not Allowed''),
     (status_code RANGE_NOT_SATISFIABLE, ''Range Not Satisfiable''),
     (status_code INTERNAL_SERVER_ERROR, ''Internal Server Error''),
     (status_code SERVICE_UNAVAILABLE, ''Service Unavailable''),
     (status_code HTTP_VERSION_NOT_SUPPORTED, ''HTTP Version Not Suppported'')]"

definition HttpContentType2Name :: "(http_content_type \<times> string) list" where
  "HttpContentType2Name =
    [(URLENCODED, ''application/x-www-form-urlencoded''),
     (MULTIPART, ''multipart/form-data''),
     (PLAIN, ''text/plain''),
     (HTML, ''text/html''),
     (JSON, ''application/json''),
     (JPEG, ''image/jpeg''),
     (JPG, ''image/jpg''),
     (PNG, ''image/png''),
     (BMP, ''image/bmp''),
     (AVI, ''video/x-msvideo''),
     (MP4, ''video/mp4''),
     (WEBM, ''video/webm''),
     (JSON, ''application/json'')]"

text \<open>
  \<open>Name2HttpContentType\<close>: filled in the order \<open>order\<close> in which the iteration delivers the entries.
\<close>

definition Name2HttpContentType :: "(http_content_type \<times> string) list \<Rightarrow> http_content_type umap" where
  "Name2HttpContentType order = fold (\<lambda>(k, v) m. map_add_kv YES v k m) order []"

definition Ext2HttpContentTypeName :: "string umap" where
  "Ext2HttpContentTypeName =
    [(''.html'', ''text/html''),
     (''.htm'', ''text/html''),
     (''.css'', ''text/css''),
     (''.csv'', ''text/csv''),
     (''.txt'', ''text/plain''),
     (''.woff'', ''font/woff''),
     (''.woff2'', ''font/woff2''),
     (''.ttf'', ''font/ttf''),
     (''.otf'', ''font/otf''),
     (''.bmp'', ''image/x-ms-bmp''),
     (''.svg'', ''image/svg+xml''),
     (''.svgz'', ''image/svg+xml''),
     (''.gif'', ''image/gif''),
     (''.jpg'', ''image/jpeg''),
     (''.jpeg'', ''image/jpeg''),
     (''.webp'', ''image/webp''),
     (''.png'', ''image/png''),
     (''.ico'', ''image/x-icon''),
     (''.wav'', ''audio/wav''),
     (''.weba'', ''audio/webm''),
     (''.mp3'', ''audio/mpeg''),
     (''.oga'', ''audio/ogg''),
     (''.ogv'', ''video/ogg''),
     (''.mpeg'', ''video/mpeg''),
     (''.mp4'', ''video/mp4''),
     (''.avi'', ''video/x-msvideo''),
     (''.wmv'', ''video/x-ms-wmv''),
     (''.webm'', ''video/webm''),
     (''.flv'', ''video/x-flv''),
     (''.m4v'', ''video/x-m4v''),
     (''.7z'', ''application/x-7z-compressed''),
     (''.rar'', ''application/x-rar-compressed''),
     (''.sh'', ''application/x-sh''),
     (''.rss'', ''application/rss+xml''),
     (''.tar'', ''application/x-tar''),
     (''.jar'', ''application/java-archive''),
     (''.gz'', ''application/gzip''),
     (''.zip'', ''application/zip''),
     (''.xhtml'', ''application/xhtml+xml''),
     (''.xml'', ''application/xml''),
     (''.js'', ''application/javascript''),
     (''.pdf'', ''application/pdf''),
     (''.doc'', ''application/msword''),
     (''.xls'', ''application/vnd.ms-excel''),
     (''.ppt'', ''application/vnd.ms-powerpoint''),
     (''.eot'', ''application/vnd.ms-fontobject''),
     (''.json'', ''application/json''),
     (''.bin'', ''application/octet-stream''),
     (''.exe'', ''application/octet-stream''),
     (''.dll'', ''application/octet-stream''),
     (''.deb'', ''application/octet-stream''),
     (''.iso'', ''application/octet-stream''),
     (''.img'', ''application/octet-stream''),
     (''.dmg'', ''application/octet-stream''),
     (''.docx'', ''application/vnd.openxmlformats-officedocument.wordprocessingml.document''),
     (''.xlsx'', ''application/vnd.openxmlformats-officedocument.spreadsheetml.sheet''),
     (''.pptx'', ''application/vnd.openxmlformats-officedocument.presentationml.presentation'')]"

definition Ext2HttpContentType ::
  "http_content_type umap \<Rightarrow> string umap \<Rightarrow> http_content_type umap" where
  "Ext2HttpContentType names order =
     fold (\<lambda>(k, v) m. case map_of names v of
                          None \<Rightarrow> m
                        | Some t \<Rightarrow> map_add_kv YES k t m) order []"

definition HttpContentType2Ext ::
  "http_content_type umap \<Rightarrow> (http_content_type \<times> string) list" where
  "HttpContentType2Ext order =
     AList.update HTML ''html'' (fold (\<lambda>(k, v) m. AList.update v k m) order [])"

definition HttpMethod2Str :: "(http_method \<times> string) list" where
  "HttpMethod2Str = [(GET, ''GET''), (POST, ''POST''), (HEAD, ''HEAD'')]"

definition HttpVersion2Str :: "(http_version \<times> string) list" where
  "HttpVersion2Str =
    [(HTTP_1_0, ''HTTP/1.0''), (HTTP_1_1, ''HTTP/1.1''), (HTTP_2_0, ''HTTP/2.0'')]"

end
