(* ===== verification/HttpCookie.thy ===== *)
theory HttpCookie
  imports HttpMaps
begin

text \<open>
  \<open>haha_web/http/HttpCookie.{h,cpp}\<close>: the cookie class, its parser and its serialiser. The
  member \<open>maxAge_\<close> has no initialiser, so it is \<open>None\<close> until a \<open>max-age\<close> attribute or a
  setter gives it a value, and reading it before is undefined.
\<close>

section \<open>State and operations\<close>

record cookie =
  cmap :: "string umap"
  expires :: string
  domain :: string
  cpath :: string
  sessionId :: string
  maxAge :: "int option"
  secure :: bool
  httpOnly :: bool

definition empty_cookie :: cookie where
  "empty_cookie = \<lparr>cmap = [], expires = [], domain = [], cpath = [], sessionId = [],
     maxAge = None, secure = False, httpOnly = False\<rparr>"

definition cookie_add :: "string \<Rightarrow> string \<Rightarrow> cookie \<Rightarrow> cookie" where
  "cookie_add k v c = c\<lparr>cmap := map_add_kv NO k v (cmap c)\<rparr>"

text \<open>What the parser does with one finished field (\<open>key\<close> empty: an attribute without a value).\<close>

definition cookie_field :: "string \<Rightarrow> string \<Rightarrow> cookie \<Rightarrow> cookie res" where
  "cookie_field key val c =
     (if key = [] then
        (let attr = toLowers val
         in Inr (if attr = ''secure'' then c\<lparr>secure := True\<rparr>
                 else if attr = ''httponly'' then c\<lparr>httpOnly := True\<rparr>
                 else c))
      else
        (let attr = toLowers key
         in if attr = ''domain'' then Inr (c\<lparr>domain := val\<rparr>)
            else if attr = ''path'' then Inr (c\<lparr>cpath := val\<rparr>)
            else if attr = ''expires'' then Inr (c\<lparr>expires := val\<rparr>)
            else if attr = ''max-age'' then rbind (stoi val) (\<lambda>n. Inr (c\<lparr>maxAge := Some n\<rparr>))
            else if attr = ''sessionid'' then Inr (c\<lparr>sessionId := val\<rparr>)
            else Inr (cookie_add key val c)))"

definition skip_spaces :: "string \<Rightarrow> nat \<Rightarrow> nat" where
  "skip_spaces s i = i + length (takeWhile (\<lambda>c. c = CHR '' '') (drop i s))"

text \<open>The scanning loop, with the indices \<open>i\<close>, \<open>j\<close> and the pending \<open>key\<close> of the source.\<close>

function cookie_loop :: "string \<Rightarrow> nat \<Rightarrow> nat \<Rightarrow> string \<Rightarrow> cookie \<Rightarrow> cookie res" where
  "cookie_loop s i j key c =
     (if i < length s then
        if i = length s - 1 \<or> s ! i = CHR '';'' then
          let i' = (if s ! i = CHR '';'' then i else i + 1);
              i'' = skip_spaces s (i' + 1)
          in rbind (cookie_field key (substr j (i' - j) s) c) (\<lambda>c'. cookie_loop s i'' i'' [] c')
        else if s ! i = CHR ''='' then cookie_loop s (i + 1) (i + 1) (substr j (i - j) s) c
        else cookie_loop s (i + 1) j key c
      else Inr c)"
  by pat_completeness auto
termination
  by (relation "measure (\<lambda>(s, i, j, key, c). length s - i)") (auto simp: skip_spaces_def)

declare cookie_loop.simps [simp del]

definition parse_cookie :: "string \<Rightarrow> cookie res" where
  "parse_cookie str = cookie_loop (urlDecode str) 0 0 [] empty_cookie"

text \<open>\<open>toString\<close>; the pairs come in the iteration order of the map.\<close>

fun cookie_pairs_string :: "string umap \<Rightarrow> string" where
  "cookie_pairs_string [] = []"
| "cookie_pairs_string [(k, v)] = k @ ''='' @ v"
| "cookie_pairs_string ((k, v) # m) = k @ ''='' @ v @ ''; '' @ cookie_pairs_string m"

definition cookie_toString :: "cookie \<Rightarrow> string res" where
  "cookie_toString c =
     (case maxAge c of
        None \<Rightarrow> Inl Undefined
      | Some age \<Rightarrow> Inr
          (cookie_pairs_string (cmap c) @
           (if expires c \<noteq> [] then ''; Expires='' @ expires c else []) @
           (if domain c \<noteq> [] then ''; Domain='' @ domain c else []) @
           (if cpath c \<noteq> [] then ''; Path='' @ cpath c else []) @
           (if age > 0 then ''; Max-Age='' @ int_to_string age else []) @
           (if secure c then ''; Secure'' else []) @
           (if httpOnly c then ''; HttpOnly'' else [])))"

section \<open>Reading a list of pairs\<close>

definition plain_in :: "string \<Rightarrow> char set \<Rightarrow> bool" where
  "plain_in s bad \<longleftrightarrow> (\<forall>c \<in> set s. c \<notin> bad)"

lemma plain_in_simps [simp]:
  "plain_in [] bad"
  "plain_in (c # s) bad \<longleftrightarrow> c \<notin> bad \<and> plain_in s bad"
  "plain_in (s @ t) bad \<longleftrightarrow> plain_in s bad \<and> plain_in t bad"
  by (auto simp: plain_in_def)

text \<open>A cookie pair as a browser sends it.\<close>

definition cookie_pair_ok :: "(string \<times> string) \<Rightarrow> bool" where
  "cookie_pair_ok kv \<longleftrightarrow> fst kv \<noteq> [] \<and> snd kv \<noteq> [] \<and> hd (fst kv) \<noteq> CHR '' '' \<and>
     plain_in (fst kv) {CHR ''='', CHR '';'', CHR ''%'', CHR ''+''} \<and>
     plain_in (snd kv) {CHR ''='', CHR '';'', CHR ''%'', CHR ''+''}"

text \<open>Scanning over characters that mean nothing to the loop.\<close>

lemma cookie_loop_skip:
  assumes "\<forall>c \<in> set w. c \<noteq> CHR '';'' \<and> c \<noteq> CHR ''=''" and "r \<noteq> []"
  shows "cookie_loop (pre @ w @ r) (length pre) j key c = cookie_loop (pre @ w @ r) (length pre + length w) j key c"
  using assms(1)
proof (induction w arbitrary: pre)
  case (Cons a w)
  have "cookie_loop (pre @ (a # w) @ r) (length pre) j key c =
      cookie_loop (pre @ (a # w) @ r) (length pre + 1) j key c"
    using Cons.prems assms(2) by (subst cookie_loop.simps) (simp add: nth_append)
  also have "\<dots> = cookie_loop ((pre @ [a]) @ w @ r) (length (pre @ [a])) j key c" by simp
  also have "\<dots> = cookie_loop ((pre @ [a]) @ w @ r) (length (pre @ [a]) + length w) j key c"
    using Cons.prems by (intro Cons.IH) simp
  finally show ?case by simp
qed simp

text \<open>One pair followed by a separator and at least one more character.\<close>

lemma cookie_loop_pair_more:
  assumes ok: "cookie_pair_ok (k, v)" and r: "r \<noteq> []" "hd r \<noteq> CHR '' ''"
  shows "cookie_loop (pre @ k @ ''='' @ v @ ''; '' @ r) (length pre) (length pre) [] c =
     rbind (cookie_field k v c)
       (\<lambda>c'. cookie_loop (pre @ k @ ''='' @ v @ ''; '' @ r) (length (pre @ k @ ''='' @ v @ ''; ''))
          (length (pre @ k @ ''='' @ v @ ''; '')) [] c')"
proof -
  let ?s = "pre @ k @ ''='' @ v @ ''; '' @ r"
  let ?i = "length pre + length k"
  let ?l = "?i + 1 + length v"
  have plain: "\<forall>c \<in> set k. c \<noteq> CHR '';'' \<and> c \<noteq> CHR ''=''" "\<forall>c \<in> set v. c \<noteq> CHR '';'' \<and> c \<noteq> CHR ''=''"
    using ok by (auto simp: cookie_pair_ok_def plain_in_def)
  have "cookie_loop ?s (length pre) (length pre) [] c = cookie_loop ?s ?i (length pre) [] c"
    using cookie_loop_skip [OF plain(1), of "''='' @ v @ ''; '' @ r" pre] by simp
  also have "\<dots> = cookie_loop ?s (?i + 1) (?i + 1) k c"
    by (subst cookie_loop.simps) (simp add: nth_append substr_def)
  also have "\<dots> = cookie_loop ?s ?l (?i + 1) k c"
    using cookie_loop_skip [OF plain(2), of "''; '' @ r" "pre @ k @ ''=''" "?i + 1" k c] by simp
  also have "\<dots> = rbind (cookie_field k v c) (\<lambda>c'. cookie_loop ?s (?l + 2) (?l + 2) [] c')"
  proof -
    have skip: "skip_spaces ?s (?l + 1) = ?l + 2"
      using r by (cases r) (auto simp: skip_spaces_def)
    show ?thesis
      by (subst cookie_loop.simps) (simp add: nth_append substr_def skip [simplified])
  qed
  finally show ?thesis by (simp add: add.assoc)
qed

text \<open>The last pair ends with the string.\<close>

lemma cookie_loop_pair_last:
  assumes ok: "cookie_pair_ok (k, v)"
  shows "cookie_loop (pre @ k @ ''='' @ v) (length pre) (length pre) [] c = cookie_field k v c"
proof -
  let ?s = "pre @ k @ ''='' @ v"
  let ?i = "length pre + length k"
  obtain v' d where v: "v = v' @ [d]"
    using ok by (cases v rule: rev_cases) (auto simp: cookie_pair_ok_def)
  have plain: "\<forall>c \<in> set k. c \<noteq> CHR '';'' \<and> c \<noteq> CHR ''=''" "\<forall>c \<in> set v'. c \<noteq> CHR '';'' \<and> c \<noteq> CHR ''=''"
    and d: "d \<noteq> CHR '';''"
    using ok v by (auto simp: cookie_pair_ok_def plain_in_def)
  have "cookie_loop ?s (length pre) (length pre) [] c = cookie_loop ?s ?i (length pre) [] c"
    using cookie_loop_skip [OF plain(1), of "''='' @ v" pre] by simp
  also have "\<dots> = cookie_loop ?s (?i + 1) (?i + 1) k c"
    by (subst cookie_loop.simps) (simp add: v nth_append substr_def)
  also have "\<dots> = cookie_loop ?s (?i + 1 + length v') (?i + 1) k c"
    using cookie_loop_skip [OF plain(2), of "[d]" "pre @ k @ ''=''" "?i + 1" k c] by (simp add: v)
  also have "\<dots> = rbind (cookie_field k v c)
      (\<lambda>c'. cookie_loop ?s (length ?s + 1) (length ?s + 1) [] c')"
    using d by (subst cookie_loop.simps) (simp add: v nth_append substr_def skip_spaces_def add.assoc)
  also have "\<dots> = cookie_field k v c"
    by (cases "cookie_field k v c") (simp_all add: cookie_loop.simps)
  finally show ?thesis .
qed

fun cookie_fields :: "(string \<times> string) list \<Rightarrow> cookie \<Rightarrow> cookie res" where
  "cookie_fields [] c = Inr c"
| "cookie_fields ((k, v) # kvs) c = rbind (cookie_field k v c) (cookie_fields kvs)"

lemma cookie_pairs_string_Cons: "\<exists>r. cookie_pairs_string ((k, v) # kvs) = k @ ''='' @ r"
  by (cases kvs) auto

lemma cookie_pairs_string_head:
  assumes "cookie_pair_ok kv"
  shows "cookie_pairs_string (kv # kvs) \<noteq> []" "hd (cookie_pairs_string (kv # kvs)) \<noteq> CHR '' ''"
proof -
  obtain a w v where kv: "kv = (a # w, v)" "a \<noteq> CHR '' ''"
    using assms by (cases kv; cases "fst kv") (auto simp: cookie_pair_ok_def)
  obtain r where "cookie_pairs_string (kv # kvs) = (a # w) @ ''='' @ r"
    using cookie_pairs_string_Cons [of "a # w" v kvs] kv(1) by blast
  with kv(2) show "cookie_pairs_string (kv # kvs) \<noteq> []" "hd (cookie_pairs_string (kv # kvs)) \<noteq> CHR '' ''"
    by simp_all
qed

lemma cookie_loop_pairs:
  "\<forall>kv \<in> set kvs. cookie_pair_ok kv \<Longrightarrow>
   cookie_loop (pre @ cookie_pairs_string kvs) (length pre) (length pre) [] c = cookie_fields kvs c"
proof (induction kvs arbitrary: pre c rule: cookie_pairs_string.induct)
  case 1
  show ?case by (simp add: cookie_loop.simps)
next
  case (2 k v)
  then show ?case using cookie_loop_pair_last [of k v pre c] by (simp add: rbind_def split: sum.split)
next
  case (3 k v kv m)
  let ?r = "cookie_pairs_string (kv # m)"
  have head: "?r \<noteq> []" "hd ?r \<noteq> CHR '' ''"
    using cookie_pairs_string_head [of kv m] 3(2) by auto
  have ok: "cookie_pair_ok (k, v)" using 3(2) by simp
  have IH: "cookie_loop ((pre @ k @ ''='' @ v @ ''; '') @ ?r) (length (pre @ k @ ''='' @ v @ ''; ''))
      (length (pre @ k @ ''='' @ v @ ''; '')) [] c' = cookie_fields (kv # m) c'" for c'
    using 3(2) by (intro 3(1)) auto
  show ?case
    using cookie_loop_pair_more [OF ok head, of pre c] IH by simp
qed

lemma cookie_pair_plain:
  "cookie_pair_ok (k, v) \<Longrightarrow> plain_in k {CHR ''%'', CHR ''+''} \<and> plain_in v {CHR ''%'', CHR ''+''}"
  by (simp add: cookie_pair_ok_def plain_in_def)

lemma cookie_pairs_string_plain:
  "\<forall>kv \<in> set kvs. cookie_pair_ok kv \<Longrightarrow> plain_in (cookie_pairs_string kvs) {CHR ''%'', CHR ''+''}"
proof (induction kvs rule: cookie_pairs_string.induct)
  case (2 k v)
  with cookie_pair_plain [of k v] show ?case by simp
next
  case (3 k v kv m)
  with cookie_pair_plain [of k v] show ?case by simp
qed simp

definition reserved_attr :: "string \<Rightarrow> bool" where
  "reserved_attr k \<longleftrightarrow> toLowers k \<in> {''domain'', ''path'', ''expires'', ''max-age'', ''sessionid''}"

lemma cookie_field_plain:
  "k \<noteq> [] \<Longrightarrow> \<not> reserved_attr k \<Longrightarrow> cookie_field k v c = Inr (cookie_add k v c)"
  by (simp add: cookie_field_def reserved_attr_def Let_def)

lemma cookie_fields_plain:
  "\<forall>kv \<in> set kvs. cookie_pair_ok kv \<and> \<not> reserved_attr (fst kv) \<Longrightarrow>
   cookie_fields kvs c = Inr (c\<lparr>cmap := foldl (\<lambda>m (k, v). map_add_kv NO k v m) (cmap c) kvs\<rparr>)"
  by (induction kvs arbitrary: c)
     (auto simp: cookie_pair_ok_def cookie_field_plain cookie_add_def)

section \<open>Properties\<close>



lemma cookie_field_maxAge:
  "cookie_field key val c = Inr c' \<Longrightarrow> toLowers key \<noteq> ''max-age'' \<Longrightarrow> maxAge c' = maxAge c"
  by (auto simp: cookie_field_def Let_def cookie_add_def split: if_splits)

text \<open>A cookie built without a \<open>max-age\<close> cannot be serialised: whatever pairs are added to a
  fresh cookie, \<open>toString\<close> reads the uninitialised \<open>maxAge_\<close>.
\<close>

theorem fresh_cookie_toString_undefined:
  "cookie_toString (foldl (\<lambda>c (k, v). cookie_add k v c) empty_cookie kvs) = Inl Undefined"
proof -
  have "maxAge (foldl (\<lambda>c (k, v). cookie_add k v c) c kvs) = maxAge c" for c
    by (induction kvs arbitrary: c) (auto simp: cookie_add_def)
  then show ?thesis by (simp add: cookie_toString_def empty_cookie_def)
qed

end
