(* ===== verification/HttpUrl.thy ===== *)
theory HttpUrl
  imports HttpMaps
begin

text \<open>
  \<open>haha_web/http/HttpUrl.{h,cpp}\<close>: the request URL, absolute (\<open>http://host:port/path?query\<close>)
  or host-less (\<open>/path?query\<close>). \<open>scheme_\<close> is left uninitialised (\<open>None\<close>) by a host-less
  URL.
\<close>

section \<open>State and operations\<close>

datatype url_state = PARSE_SUCCESS | PARSE_FAIL

datatype url_scheme = HTTP | HTTPS

record http_url =
  url_state :: url_state
  url_text :: string
  url_scheme :: "url_scheme option"
  url_host :: string
  url_hostName :: string
  url_port :: string
  url_path :: string
  url_query :: "string umap"

definition blank_url :: "string \<Rightarrow> http_url" where
  "blank_url u = \<lparr>url_state = PARSE_FAIL, url_text = u, url_scheme = None, url_host = [],
     url_hostName = [], url_port = [], url_path = [], url_query = []\<rparr>"

definition getScheme :: "http_url \<Rightarrow> string res" where
  "getScheme u = (case url_scheme u of
       None \<Rightarrow> Inl Undefined
     | Some HTTP \<Rightarrow> Inr ''HTTP''
     | Some HTTPS \<Rightarrow> Inr ''HTTPS'')"

text \<open>The loop over the query: the remaining indices, \<open>j\<close>, the pending \<open>key\<close>.\<close>

function query_loop :: "string \<Rightarrow> nat \<Rightarrow> nat \<Rightarrow> string \<Rightarrow> string umap \<Rightarrow> string umap" where
  "query_loop q i j key m =
     (if i < length q then
        if q ! i = CHR ''='' then query_loop q (i + 1) (i + 1) (substr j (i - j) q) m
        else if q ! i = CHR ''&'' then
          query_loop q (i + 1) (i + 1) [] (AList.update key (substr j (i - j) q) m)
        else query_loop q (i + 1) j key m
      else if key \<noteq> [] then AList.update key (substr j (i - j) q) m
      else m)"
  by pat_completeness auto
termination
  by (relation "measure (\<lambda>(q, i, j, key, m). length q - i)") auto

declare query_loop.simps [simp del]

text \<open>The path and query of what is left of the URL (it starts with \<open>/\<close> in the host-less case).\<close>

definition parse_path_query :: "string \<Rightarrow> http_url \<Rightarrow> http_url" where
  "parse_path_query view u =
     (case find_char (\<lambda>c. c = CHR ''?'') view of
        None \<Rightarrow> u\<lparr>url_path := view, url_state := PARSE_SUCCESS\<rparr>
      | Some pos \<Rightarrow>
          u\<lparr>url_path := take pos view,
            url_query := query_loop (drop (pos + 1) view) 0 0 [] (url_query u),
            url_state := PARSE_SUCCESS\<rparr>)"

definition parse_host :: "string \<Rightarrow> http_url \<Rightarrow> http_url" where
  "parse_host host u =
     (case find_char (\<lambda>c. c = CHR '':'') host of
        Some pos1 \<Rightarrow> u\<lparr>url_host := host, url_hostName := take pos1 host, url_port := drop (pos1 + 1) host\<rparr>
      | None \<Rightarrow> u\<lparr>url_host := host, url_hostName := host\<rparr>)"

definition parseFromUrl :: "http_url \<Rightarrow> http_url" where
  "parseFromUrl u =
     (let view = url_text u; fail = u\<lparr>url_state := PARSE_FAIL\<rparr>
      in if compare_prefix 4 ''http'' view then
           case find_sub ''://'' view of
             None \<Rightarrow> fail
           | Some pos \<Rightarrow>
               let sch = take pos view
               in if sch \<noteq> ''http'' \<and> sch \<noteq> ''https'' then fail
                  else
                    let u1 = u\<lparr>url_scheme := Some (if sch = ''http'' then HTTP else HTTPS)\<rparr>;
                        view1 = drop (pos + 3) view
                    in if length view1 < 2 then u1\<lparr>url_state := PARSE_FAIL\<rparr>
                       else case find_char (\<lambda>c. c = CHR ''/'') view1 of
                              None \<Rightarrow> u1\<lparr>url_host := view1, url_hostName := view1, url_path := ''/'',
                                        url_state := PARSE_SUCCESS\<rparr>
                            | Some pos' \<Rightarrow>
                                parse_path_query (drop pos' view1) (parse_host (take pos' view1) u1)
         else if \<not> compare_prefix 1 ''/'' view then fail
         else parse_path_query view u)"

definition new_url :: "string \<Rightarrow> bool \<Rightarrow> http_url" where
  "new_url url decode =
     (let u = blank_url (if decode then urlDecode url else [])
      in if url \<noteq> [] \<and> url_text u = [] then u\<lparr>url_state := PARSE_FAIL\<rparr>
         else parseFromUrl u)"

section \<open>Reading a query\<close>

definition query_pair_ok :: "(string \<times> string) \<Rightarrow> bool" where
  "query_pair_ok kv \<longleftrightarrow> fst kv \<noteq> [] \<and>
     (\<forall>c \<in> set (fst kv). c \<noteq> CHR ''='' \<and> c \<noteq> CHR ''&'') \<and>
     (\<forall>c \<in> set (snd kv). c \<noteq> CHR ''='' \<and> c \<noteq> CHR ''&'')"

lemma query_loop_skip:
  "\<forall>c \<in> set w. c \<noteq> CHR ''&'' \<and> c \<noteq> CHR ''='' \<Longrightarrow>
   query_loop (pre @ w @ r) (length pre) j key m = query_loop (pre @ w @ r) (length pre + length w) j key m"
proof (induction w arbitrary: pre)
  case (Cons a w)
  have "query_loop (pre @ (a # w) @ r) (length pre) j key m =
      query_loop ((pre @ [a]) @ w @ r) (length (pre @ [a])) j key m"
    using Cons.prems by (subst query_loop.simps) (simp add: nth_append)
  also have "\<dots> = query_loop ((pre @ [a]) @ w @ r) (length (pre @ [a]) + length w) j key m"
    using Cons.prems by (intro Cons.IH) simp
  finally show ?case by simp
qed simp

lemma query_loop_name:
  assumes "\<forall>c \<in> set k. c \<noteq> CHR ''&'' \<and> c \<noteq> CHR ''=''"
  shows "query_loop (pre @ k @ ''='' @ r) (length pre) (length pre) [] m =
     query_loop ((pre @ k @ ''='') @ r) (length (pre @ k @ ''='')) (length (pre @ k @ ''='')) k m"
  using query_loop_skip [OF assms, of pre "''='' @ r" "length pre" "[]" m]
  by (subst (asm) (2) query_loop.simps) (simp add: nth_append substr_def)

lemma query_loop_value:
  assumes "\<forall>c \<in> set v. c \<noteq> CHR ''&'' \<and> c \<noteq> CHR ''=''"
  shows "query_loop (pre @ v @ ''&'' @ r) (length pre) (length pre) k m =
     query_loop ((pre @ v @ ''&'') @ r) (length (pre @ v @ ''&'')) (length (pre @ v @ ''&'')) [] (AList.update k v m)"
    and "k \<noteq> [] \<Longrightarrow> query_loop (pre @ v) (length pre) (length pre) k m = AList.update k v m"
proof -
  show "query_loop (pre @ v @ ''&'' @ r) (length pre) (length pre) k m =
     query_loop ((pre @ v @ ''&'') @ r) (length (pre @ v @ ''&'')) (length (pre @ v @ ''&'')) [] (AList.update k v m)"
    using query_loop_skip [OF assms, of pre "''&'' @ r" "length pre" k m]
    by (subst (asm) (2) query_loop.simps) (simp add: nth_append substr_def)
  show "query_loop (pre @ v) (length pre) (length pre) k m = AList.update k v m" if "k \<noteq> []"
    using query_loop_skip [OF assms, of pre "[]" "length pre" k m] that
    by (subst (asm) (2) query_loop.simps) (simp add: substr_def)
qed

lemma query_loop_pairs:
  "\<forall>kv \<in> set kvs. query_pair_ok kv \<Longrightarrow>
   query_loop (pre @ form_string kvs) (length pre) (length pre) [] m =
     foldl (\<lambda>m (k, v). AList.update k v m) m kvs"
proof (induction kvs arbitrary: pre m rule: form_string.induct)
  case 1
  show ?case by (simp add: query_loop.simps)
next
  case (2 kv)
  obtain k v where kv: "kv = (k, v)" by (cases kv)
  have k: "k \<noteq> []" "\<forall>c \<in> set k. c \<noteq> CHR ''&'' \<and> c \<noteq> CHR ''=''"
    and v: "\<forall>c \<in> set v. c \<noteq> CHR ''&'' \<and> c \<noteq> CHR ''=''"
    using 2 kv by (auto simp: query_pair_ok_def)
  show ?case
    using query_loop_name [OF k(2), of pre v m] query_loop_value(2) [OF v k(1), of "pre @ k @ ''=''" m]
    by (simp add: kv form_pair_def)
next
  case (3 kv kv' kvs)
  obtain k v where kv: "kv = (k, v)" by (cases kv)
  have k: "\<forall>c \<in> set k. c \<noteq> CHR ''&'' \<and> c \<noteq> CHR ''=''"
    and v: "\<forall>c \<in> set v. c \<noteq> CHR ''&'' \<and> c \<noteq> CHR ''=''"
    using 3(2) kv by (auto simp: query_pair_ok_def)
  have IH: "query_loop ((pre @ k @ ''='' @ v @ ''&'') @ form_string (kv' # kvs))
      (length (pre @ k @ ''='' @ v @ ''&'')) (length (pre @ k @ ''='' @ v @ ''&'')) [] m' =
      foldl (\<lambda>m (k, v). AList.update k v m) m' (kv' # kvs)" for m'
    using 3(2) by (intro 3(1)) auto
  show ?case
    using query_loop_name [OF k, of pre "v @ ''&'' @ form_string (kv' # kvs)" m]
      query_loop_value(1) [OF v, of "pre @ k @ ''=''" "form_string (kv' # kvs)" k m] IH
    by (simp add: kv form_pair_def)
qed

lemma find_char_prefix:
  "c \<notin> set p \<Longrightarrow> find_char (\<lambda>d. d = c) (p @ c # r) = Some (length p)"
  using find_char_append [of p "\<lambda>d. d = c" c r] by blast

lemma find_char_eq_None: "c \<notin> set p \<Longrightarrow> find_char (\<lambda>d. d = c) p = None"
  by (auto simp: find_char_None_iff)

section \<open>Properties\<close>

definition query_suffix :: "(string \<times> string) list \<Rightarrow> string" where
  "query_suffix kvs = (if kvs = [] then [] else ''?'' @ form_string kvs)"

lemma parse_path_query_pairs:
  assumes "CHR ''?'' \<notin> set path" and "\<forall>kv \<in> set kvs. query_pair_ok kv"
  shows "parse_path_query (path @ query_suffix kvs) u =
     u\<lparr>url_path := path, url_query := foldl (\<lambda>m (k, v). AList.update k v m) (url_query u) kvs,
       url_state := PARSE_SUCCESS\<rparr>"
  using find_char_prefix [OF assms(1), of "form_string kvs"] find_char_eq_None [OF assms(1)]
    query_loop_pairs [OF assms(2), of "[]"]
  by (simp add: parse_path_query_def query_suffix_def)

text \<open>An absolute URL is taken apart into the parts it was made of: scheme, host with name and
  port, path, and the query as a map in which the last value of a name wins.
\<close>

theorem absolute_url_parsed:
  assumes host: "CHR '':'' \<notin> set name" "CHR ''/'' \<notin> set name" "CHR ''/'' \<notin> set port"
    and path: "CHR ''?'' \<notin> set path"
    and kvs: "\<forall>kv \<in> set kvs. query_pair_ok kv"
    and enc: "urlDecode raw = ''http://'' @ name @ '':'' @ port @ ''/'' @ path @ query_suffix kvs"
  shows "\<exists>u. new_url raw True = u \<and> url_state u = PARSE_SUCCESS \<and> url_scheme u = Some HTTP \<and>
     url_hostName u = name \<and> url_port u = port \<and> url_path u = ''/'' @ path \<and>
     (\<forall>k. map_of (url_query u) k = map_of (rev kvs) k)"
proof -
  let ?h = "name @ '':'' @ port"
  let ?r = "''/'' @ path @ query_suffix kvs"
  let ?u = "(blank_url (urlDecode raw))\<lparr>url_scheme := Some HTTP\<rparr>"
  let ?m = "foldl (\<lambda>m (k, v). AList.update k v m) [] kvs"
  have slash: "find_char (\<lambda>c. c = CHR ''/'') (?h @ ?r) = Some (length ?h)"
    using find_char_prefix [of "CHR ''/''" ?h "path @ query_suffix kvs"] host by simp
  have colon: "find_char (\<lambda>c. c = CHR '':'') ?h = Some (length name)"
    using find_char_prefix [OF host(1), of port] by simp
  have q: "CHR ''?'' \<notin> set (''/'' @ path)" using path by simp
  have "find_sub ''://'' (''http://'' @ ?h @ ?r) = Some 4" by simp
  then have "new_url raw True = parse_path_query ?r (parse_host ?h ?u)"
    using slash by (simp add: new_url_def parseFromUrl_def enc compare_prefix_def blank_url_def Let_def)
  also have "\<dots> = (parse_host ?h ?u)\<lparr>url_path := ''/'' @ path, url_query := ?m, url_state := PARSE_SUCCESS\<rparr>"
    using parse_path_query_pairs [OF q kvs] colon by (simp add: parse_host_def blank_url_def)
  finally have eq: "new_url raw True =
      (parse_host ?h ?u)\<lparr>url_path := ''/'' @ path, url_query := ?m, url_state := PARSE_SUCCESS\<rparr>" .
  have "map_of ?m k = map_of (rev kvs) k" for k
    using ymap.get_fold_add [of k "[]" kvs]
    by (simp add: map_get_def map_add_kv_def case_prod_eta split: option.splits)
  with eq colon show ?thesis by (simp add: parse_host_def)
qed

theorem absolute_url_parsed_witness:
  "\<exists>u. new_url ''http://www.baidu.com:8080/s?wd=a%20b'' True = u \<and> url_state u = PARSE_SUCCESS \<and>
     url_scheme u = Some HTTP \<and> url_hostName u = ''www.baidu.com'' \<and> url_port u = ''8080'' \<and>
     url_path u = ''/'' @ ''s'' \<and> (\<forall>k. map_of (url_query u) k = map_of (rev [(''wd'', ''a b'')]) k)"
proof (rule absolute_url_parsed)
  show "urlDecode ''http://www.baidu.com:8080/s?wd=a%20b'' =
      ''http://'' @ ''www.baidu.com'' @ '':'' @ ''8080'' @ ''/'' @ ''s'' @ query_suffix [(''wd'', ''a b'')]"
    by code_simp
qed (simp_all add: query_pair_ok_def)

text \<open>A host-less URL must start with a slash: what does not start with \<open>http\<close> or \<open>/\<close> after
  decoding is rejected, and so is a URL whose decoding fails.
\<close>

theorem url_rejected:
  assumes "raw \<noteq> []" and "take 1 (urlDecode raw) \<noteq> ''/''" and "take 4 (urlDecode raw) \<noteq> ''http''"
  shows "url_state (new_url raw decode) = PARSE_FAIL"
  using assms by (simp add: new_url_def parseFromUrl_def compare_prefix_def blank_url_def Let_def)

theorem url_rejected_witness:
  "url_state (new_url ''ftp://x/%zz'' True) = PARSE_FAIL"
proof (rule url_rejected)
  show "take 1 (urlDecode ''ftp://x/%zz'') \<noteq> ''/''" "take 4 (urlDecode ''ftp://x/%zz'') \<noteq> ''http''"
    by code_simp+
qed simp

end
