(* ===== verification/HttpMultiPart.thy ===== *)
theory HttpMultiPart
  imports HttpMaps
begin

text \<open>
  \<open>haha_web/http/HttpMultiPart.{h,cpp}\<close>: the \<open>multipart/form-data\<close> parser. The body is a
  \<open>string_view\<close>; the model keeps the unread rest \<open>body[i..]\<close> instead of the index \<open>i\<close>, and
  \<open>mem\<close>, the bytes of memory after the view, which \<open>strncmp\<close> may read. One turn of the outer loop
  is \<open>mp_step\<close>; the loop itself may run forever, which is the value \<open>None\<close> of \<open>mp_run\<close>.
\<close>

section \<open>State\<close>

record part =
  part_name :: string
  part_file_name :: string
  part_file_type :: string
  part_data :: string

datatype mp_state =
    start_body
  | start_boundary
  | end_boundary
  | start_content_disposition
  | end_content_disposition
  | start_content_type
  | end_content_type
  | start_content_data
  | end_content_data
  | end_body

record multipart =
  bd :: string
  form :: "string umap"
  files :: "part list umap"

definition new_multipart :: multipart where
  "new_multipart = \<lparr>bd = [], form = [], files = []\<rparr>"

definition setBoundary :: "string \<Rightarrow> multipart \<Rightarrow> multipart" where
  "setBoundary b m = m\<lparr>bd := b\<rparr>"

definition getValue :: "string \<Rightarrow> multipart \<Rightarrow> string option" where
  "getValue name m = map_get YES name (form m)"

text \<open>
  \<open>getFile\<close> answers a pointer into a copy that dies on return: \<open>None\<close> is the null pointer,
  dereferencing any other answer is undefined behaviour. The model gives the part the pointer
  was meant to show.
\<close>

definition getFile :: "string \<Rightarrow> nat \<Rightarrow> multipart \<Rightarrow> part option" where
  "getFile name index m =
     (case map_get YES name (files m) of
        None \<Rightarrow> None
      | Some ps \<Rightarrow> if length ps \<le> index then None else Some (ps ! index))"

text \<open>The local variables of \<open>parse\<close>.\<close>

record mp_locals =
  mp_rest :: string
  mp_st :: mp_state
  mp_name :: string
  mp_filename :: string
  mp_type :: string
  mp_data :: string
  file_mark :: bool

section \<open>The parser\<close>

text \<open>
  \<open>strncmp(a, b, n) == 0\<close> (\<open>strncasecmp\<close> with \<open>f\<close> the lower case function) where \<open>a\<close> is raw
  memory: reading beyond its end is undefined.
\<close>

fun mem_eq :: "(char \<Rightarrow> char) \<Rightarrow> nat \<Rightarrow> string \<Rightarrow> string \<Rightarrow> bool res" where
  "mem_eq f 0 a b = Inr True"
| "mem_eq f (Suc n) [] b = Inl Undefined"
| "mem_eq f (Suc n) (x # a) b =
     (let y = (case b of [] \<Rightarrow> NUL | c # _ \<Rightarrow> c)
      in if f x \<noteq> f y then Inr False
         else if x = NUL then Inr True
         else mem_eq f n a (tl b))"

definition at_crlf :: "string \<Rightarrow> bool" where
  "at_crlf v \<longleftrightarrow> take 2 v = CRLF"

text \<open>The loop of \<open>start_content_disposition\<close>: the rest, the next state, name and file name.\<close>

function disposition_loop ::
  "string \<Rightarrow> bool \<Rightarrow> bool \<Rightarrow> string \<Rightarrow> string \<Rightarrow> string \<times> mp_state \<times> string \<times> string" where
  "disposition_loop v start_nf is_name name fname =
     (if v = [] then (v, start_content_disposition, name, fname)
      else if at_crlf v then (drop 2 v, end_content_disposition, name, fname)
      else if take 2 v = [CHR ''='', DQUOTE] then disposition_loop (drop 2 v) True is_name name fname
      else if hd v = DQUOTE then disposition_loop (tl v) False (\<not> is_name) name fname
      else if start_nf
           then if is_name then disposition_loop (tl v) start_nf is_name (name @ [hd v]) fname
                else disposition_loop (tl v) start_nf is_name name (fname @ [hd v])
      else disposition_loop (tl v) start_nf is_name name fname)"
  by auto
termination by (relation "measure (\<lambda>(v, _). length v)") (auto simp: length_greater_0_conv [symmetric] simp del: length_greater_0_conv)

fun content_type_loop :: "string \<Rightarrow> string \<Rightarrow> string \<times> mp_state \<times> string" where
  "content_type_loop [] ty = ([], start_content_type, ty)"
| "content_type_loop (c # v) ty =
     (if at_crlf (c # v) then (drop 2 (c # v), end_content_type, ty)
      else content_type_loop v (ty @ [c]))"

definition buf_size :: nat where
  "buf_size = 4096"

text \<open>
  The loop of \<open>start_content_data\<close>: \<open>data\<close> is \<open>form_file_data\<close>, \<open>buf\<close> the first \<open>k\<close> bytes of
  \<open>buffer\<close>, \<open>n\<close> is \<open>i - pi\<close>.
\<close>

fun content_data_loop ::
  "string \<Rightarrow> string \<Rightarrow> string \<Rightarrow> string \<Rightarrow> string \<Rightarrow> nat \<Rightarrow> (string \<times> mp_state \<times> string) res" where
  "content_data_loop mem b [] data buf n = Inr ([], start_content_data, data)"
| "content_data_loop mem b (c # v) data buf n =
     rbind (if 4 < length (c # v) \<and> take 4 (c # v) = CRLF @ ''--''
            then mem_eq (\<lambda>x. x) (length b) (drop 4 (c # v) @ mem) b else Inr False)
       (\<lambda>found.
          if found
          then let data' = data @ buf
               in Inr (drop 2 (c # v), end_content_data,
                       take n data' @ replicate (n - length data') NUL)
          else if buf_size \<le> length (buf @ [c])
               then content_data_loop mem b v (data @ buf @ [c]) [] (n + 1)
               else content_data_loop mem b v data (buf @ [c]) (n + 1))"

text \<open>
  \<open>end_content_data\<close>: \<open>files_.get(name)\<close> answers a copy, so a second file under a name is added
  to the copy and lost.
\<close>

definition add_part :: "bool \<Rightarrow> part \<Rightarrow> multipart \<Rightarrow> multipart" where
  "add_part is_file p m =
     (if \<not> is_file then m\<lparr>form := map_add_kv YES (part_name p) (part_data p) (form m)\<rparr>
      else case map_get YES (part_name p) (files m) of
             Some ps \<Rightarrow> m
           | None \<Rightarrow> m\<lparr>files := map_add_kv YES (part_name p) [p] (files m)\<rparr>)"

definition mp_step :: "string \<Rightarrow> mp_locals \<times> multipart \<Rightarrow> (mp_locals \<times> multipart) res" where
  "mp_step mem x =
     (let s = fst x; m = snd x; v = mp_rest s
      in case mp_st s of
        start_body \<Rightarrow>
          if take 2 v = ''--''
          then Inr (s\<lparr>mp_rest := drop 2 v, mp_st := start_boundary\<rparr>, m)
          else Inr (s, m)
      | start_boundary \<Rightarrow>
          rbind (mem_eq (\<lambda>x. x) (length (bd m)) (v @ mem) (bd m)) (\<lambda>same.
            if same
            then let v' = drop (length (bd m)) v
                 in if at_crlf v'
                    then Inr (s\<lparr>mp_rest := drop 2 v', mp_st := end_boundary\<rparr>, m)
                    else if take 2 v' = ''--''
                    then Inr (s\<lparr>mp_rest := drop 2 v', mp_st := end_body\<rparr>, m)
                    else Inr (s\<lparr>mp_rest := v'\<rparr>, m)
            else Inr (s, m))
      | end_boundary \<Rightarrow>
          rbind (mem_eq tolower 19 (v @ mem) ''Content-Disposition'') (\<lambda>same.
            if same
            then Inr (s\<lparr>mp_rest := drop 19 v, mp_st := start_content_disposition\<rparr>, m)
            else Inr (s, m))
      | start_content_disposition \<Rightarrow>
          let (v', st, nm, fn) = disposition_loop (drop 13 v) False True (mp_name s) (mp_filename s)
          in Inr (s\<lparr>mp_rest := v', mp_st := st, mp_name := nm, mp_filename := fn\<rparr>, m)
      | end_content_disposition \<Rightarrow>
          if at_crlf v
          then Inr (s\<lparr>mp_rest := drop 2 v, file_mark := False, mp_st := start_content_data\<rparr>, m)
          else rbind (mem_eq tolower 12 (v @ mem) ''Content-Type'') (\<lambda>same.
            if same
            then Inr (s\<lparr>mp_rest := drop 14 v, file_mark := True, mp_st := start_content_type\<rparr>, m)
            else Inr (s, m))
      | start_content_type \<Rightarrow>
          let (v', st, ty) = content_type_loop v (mp_type s)
          in Inr (s\<lparr>mp_rest := v', mp_st := st, mp_type := ty\<rparr>, m)
      | end_content_type \<Rightarrow>
          if at_crlf v
          then Inr (s\<lparr>mp_rest := drop 2 v, mp_st := start_content_data\<rparr>, m)
          else Inr (s, m)
      | start_content_data \<Rightarrow>
          rbind (content_data_loop mem (bd m) v (mp_data s) [] 0) (\<lambda>(v', st, d).
            Inr (s\<lparr>mp_rest := v', mp_st := st, mp_data := d\<rparr>, m))
      | end_content_data \<Rightarrow>
          Inr (s\<lparr>mp_name := [], mp_filename := [], mp_type := [], mp_data := [],
                 file_mark := False, mp_st := start_body\<rparr>,
               add_part (file_mark s)
                 \<lparr>part_name = mp_name s, part_file_name = mp_filename s,
                  part_file_type = mp_type s, part_data = mp_data s\<rparr> m)
      | end_body \<Rightarrow> Inr (s\<lparr>mp_rest := drop 2 v\<rparr>, m))"

partial_function (option) mp_run :: "string \<Rightarrow> mp_locals \<times> multipart \<Rightarrow> multipart res option" where
  "mp_run mem x =
     (if mp_rest (fst x) = [] then Some (Inr (snd x))
      else case mp_step mem x of
             Inl e \<Rightarrow> Some (Inl e)
           | Inr y \<Rightarrow> mp_run mem y)"

definition mp_start :: "string \<Rightarrow> mp_locals" where
  "mp_start body =
     \<lparr>mp_rest = body, mp_st = start_body, mp_name = [], mp_filename = [], mp_type = [],
      mp_data = [], file_mark = False\<rparr>"

definition mp_parse :: "string \<Rightarrow> string \<Rightarrow> multipart \<Rightarrow> multipart res option" where
  "mp_parse mem body m = mp_run mem (mp_start body, m)"

declare disposition_loop.simps [simp del]

section \<open>The steps on well-formed input\<close>

lemma mem_eq_exact:
  "length b = n \<Longrightarrow> n \<le> length a \<Longrightarrow> NUL \<notin> set b \<Longrightarrow> mem_eq (\<lambda>x. x) n a b = Inr (take n a = b)"
proof (induction n arbitrary: a b)
  case (Suc n)
  then obtain x a' y b' where "a = x # a'" "b = y # b'"
    by (metis Suc_le_length_iff length_Suc_conv)
  with Suc show ?case by (auto simp: Let_def)
qed simp

lemma mp_run_step:
  "mp_rest (fst x) \<noteq> [] \<Longrightarrow> mp_step mem x = Inr y \<Longrightarrow> mp_run mem x = mp_run mem y"
  by (subst mp_run.simps) simp

lemma mp_run_done: "mp_rest (fst x) = [] \<Longrightarrow> mp_run mem x = Some (Inr (snd x))"
  by (subst mp_run.simps) simp

text \<open>A turn that changes nothing repeats forever.\<close>

lemma mp_run_stuck:
  assumes "mp_rest (fst x) \<noteq> []" "mp_step mem x = Inr x"
  shows "mp_run mem x = None"
proof -
  have "\<not> (mp_rest (fst x) \<noteq> [] \<and> mp_step mem x = Inr x)" if r: "mp_run mem x = Some y" for y
  proof (rule mp_run.raw_induct
      [where xa = "(mem, x)" and y = y and
        P = "\<lambda>mem x y. \<not> (mp_rest (fst x) \<noteq> [] \<and> mp_step mem x = Inr x)",
        unfolded prod.case, OF _ r])
    fix run mem x y
    assume IH: "\<And>mem x y. run mem x = Some y \<Longrightarrow>
        \<not> (mp_rest (fst x) \<noteq> [] \<and> mp_step mem x = Inr x)"
      and body: "(if mp_rest (fst x) = [] then Some (Inr (snd x))
        else case mp_step mem x of Inl e \<Rightarrow> Some (Inl e) | Inr y \<Rightarrow> run mem y) = Some y"
    show "\<not> (mp_rest (fst x) \<noteq> [] \<and> mp_step mem x = Inr x)"
    proof
      assume stuck: "mp_rest (fst x) \<noteq> [] \<and> mp_step mem x = Inr x"
      with body have "run mem x = Some y" by simp
      from IH [OF this] stuck show False by blast
    qed
  qed
  with assms show ?thesis by (cases "mp_run mem x") auto
qed

lemma disposition_skip:
  "c \<noteq> CR \<Longrightarrow> c \<noteq> DQUOTE \<Longrightarrow> c \<noteq> CHR ''='' \<Longrightarrow>
   disposition_loop (c # v) False isn nm fn = disposition_loop v False isn nm fn"
  by (subst disposition_loop.simps) (auto simp: at_crlf_def)

lemma disposition_open:
  "disposition_loop (CHR ''='' # DQUOTE # v) st isn nm fn = disposition_loop v True isn nm fn"
  by (subst disposition_loop.simps) (simp add: at_crlf_def)

lemma disposition_end:
  "disposition_loop (CR # LF # v) st isn nm fn = (v, end_content_disposition, nm, fn)"
  by (subst disposition_loop.simps) (simp add: at_crlf_def)

definition quotable :: "string \<Rightarrow> bool" where
  "quotable s \<longleftrightarrow> DQUOTE \<notin> set s \<and> CR \<notin> set s \<and> (s = [] \<or> last s \<noteq> CHR ''='')"

lemma disposition_char:
  "c \<noteq> CR \<Longrightarrow> c \<noteq> DQUOTE \<Longrightarrow> take 2 (c # v) \<noteq> [CHR ''='', DQUOTE] \<Longrightarrow>
   disposition_loop (c # v) True isn nm fn =
   disposition_loop v True isn (if isn then nm @ [c] else nm) (if isn then fn else fn @ [c])"
  by (subst disposition_loop.simps) (auto simp: at_crlf_def)

lemma disposition_quoted:
  "quotable s \<Longrightarrow>
   disposition_loop (s @ DQUOTE # v) True isn nm fn =
   disposition_loop v False (\<not> isn) (if isn then nm @ s else nm) (if isn then fn else fn @ s)"
proof (induction s arbitrary: nm fn)
  case Nil
  show ?case by (subst append_Nil, subst disposition_loop.simps) (simp add: at_crlf_def)
next
  case (Cons c s)
  have ne: "take 2 (c # s @ DQUOTE # v) \<noteq> [CHR ''='', DQUOTE]"
    using Cons.prems by (cases s) (auto simp: quotable_def)
  have c: "c \<noteq> CR" "c \<noteq> DQUOTE" and "quotable s"
    using Cons.prems by (auto simp: quotable_def split: if_splits)
  note IH = Cons.IH [OF this(3)]
  show ?case
    by (simp only: append_Cons disposition_char [OF c ne] IH) simp
qed

lemma content_type_line:
  "CR \<notin> set ty \<Longrightarrow> content_type_loop (ty @ CR # LF # v) acc = (v, end_content_type, acc @ ty)"
  by (induction ty arbitrary: acc) (auto simp: at_crlf_def)

text \<open>
  The data of a part: the buffered copy returns exactly the bytes before the first delimiter.
\<close>

definition delimiter :: "string \<Rightarrow> string" where
  "delimiter b = CRLF @ ''--'' @ b"

definition data_ok :: "string \<Rightarrow> string \<Rightarrow> bool" where
  "data_ok b d \<longleftrightarrow> find_sub (delimiter b) (d @ delimiter b) = Some (length d)"

lemma data_ok_Cons:
  assumes "data_ok b (c # d)"
  shows "data_ok b d" "take (length (delimiter b)) (c # d @ delimiter b) \<noteq> delimiter b"
  using assms by (auto simp: data_ok_def split: if_splits)

lemma content_data_exact:
  assumes "NUL \<notin> set b" and "data_ok b d" and "t \<noteq> []" and "length (data @ buf) = n"
  shows "content_data_loop mem b (d @ delimiter b @ t) data buf n =
         Inr (''--'' @ b @ t, end_content_data, data @ buf @ d)"
  using assms(2,4)
proof (induction d arbitrary: data buf n)
  case Nil
  have "mem_eq (\<lambda>x. x) (length b) (b @ t @ mem) b = Inr True"
    using assms(1) by (simp add: mem_eq_exact)
  with Nil assms(3) show ?case
    by (simp add: delimiter_def)
next
  case (Cons c d)
  let ?v = "c # d @ delimiter b @ t"
  have len: "length (delimiter b) = length b + 4" by (simp add: delimiter_def)
  have found: "(if 4 < length ?v \<and> take 4 ?v = CRLF @ ''--''
            then mem_eq (\<lambda>x. x) (length b) (drop 4 ?v @ mem) b else Inr False) = Inr False"
  proof (cases "4 < length ?v \<and> take 4 ?v = CRLF @ ''--''")
    case True
    have "take (length (delimiter b)) ((c # d @ delimiter b) @ t) =
        take (length (delimiter b)) (c # d @ delimiter b)"
      by (subst take_append) simp
    with data_ok_Cons(2) [OF Cons.prems(1)]
    have "take (length (delimiter b)) ?v \<noteq> delimiter b" by simp
    moreover have "take (length (delimiter b)) ?v = take 4 ?v @ take (length b) (drop 4 ?v)"
      by (simp only: len add.commute [of "length b"] take_add)
    ultimately have ne: "take (length b) (drop 4 ?v) \<noteq> b"
      using True by (auto simp: delimiter_def)
    have "length b \<le> length (drop 4 ?v)" by (simp add: len)
    moreover from this have "take (length b) (drop 4 ?v @ mem) = take (length b) (drop 4 ?v)"
      by simp
    ultimately have "mem_eq (\<lambda>x. x) (length b) (drop 4 ?v @ mem) b = Inr False"
      using ne assms(1) by (subst mem_eq_exact) (simp_all del: drop_append take_append)
    with True show ?thesis by simp
  next
    case False
    then show ?thesis by (simp only: if_False)
  qed
  have step: "content_data_loop mem b ?v data buf n =
      (if buf_size \<le> length (buf @ [c])
       then content_data_loop mem b (d @ delimiter b @ t) (data @ buf @ [c]) [] (n + 1)
       else content_data_loop mem b (d @ delimiter b @ t) data (buf @ [c]) (n + 1))"
    by (simp only: content_data_loop.simps found rbind_simps if_False)
  show ?case
    using Cons.IH [OF data_ok_Cons(1) [OF Cons.prems(1)], of "data @ buf @ [c]" "[]" "n + 1"]
      Cons.IH [OF data_ok_Cons(1) [OF Cons.prems(1)], of data "buf @ [c]" "n + 1"] Cons.prems(2)
    by (simp only: append_Cons step) simp
qed

section \<open>Reading a well-formed body\<close>

text \<open>A part as a client writes it: the flag says whether it is a file.\<close>

definition part_head :: "bool \<Rightarrow> part \<Rightarrow> string" where
  "part_head is_file p =
     ''Content-Disposition: form-data; name='' @ DQUOTE # part_name p @ DQUOTE #
     (if is_file
      then ''; filename='' @ DQUOTE # part_file_name p @ DQUOTE # CR # LF #
           ''Content-Type: '' @ part_file_type p @ CR # LF # CR # LF # []
      else CR # LF # CR # LF # [])"

fun parts_text :: "string \<Rightarrow> (bool \<times> part) list \<Rightarrow> string" where
  "parts_text b [] = ''--'' @ CRLF"
| "parts_text b ((is_file, p) # ps) =
     CR # LF # part_head is_file p @ part_data p @ delimiter b @ parts_text b ps"

definition multipart_body :: "string \<Rightarrow> (bool \<times> part) list \<Rightarrow> string" where
  "multipart_body b ps = ''--'' @ b @ parts_text b ps"

text \<open>A form field has neither a file name nor a type.\<close>

definition part_ok :: "string \<Rightarrow> bool \<times> part \<Rightarrow> bool" where
  "part_ok b fp \<longleftrightarrow>
     quotable (part_name (snd fp)) \<and> data_ok b (part_data (snd fp)) \<and>
     (if fst fp then quotable (part_file_name (snd fp)) \<and> CR \<notin> set (part_file_type (snd fp))
      else part_file_name (snd fp) = [] \<and> part_file_type (snd fp) = [])"

lemma parts_text_nonempty [simp]: "parts_text b ps \<noteq> []"
  by (cases ps) auto

definition at_boundary :: "string \<Rightarrow> mp_locals" where
  "at_boundary v =
     \<lparr>mp_rest = v, mp_st = start_boundary, mp_name = [], mp_filename = [], mp_type = [],
      mp_data = [], file_mark = False\<rparr>"

lemmas mp_step_simps = mp_step_def at_boundary_def at_crlf_def

lemma run_open:
  assumes "NUL \<notin> set b" "bd m = b"
  shows "mp_run mem (at_boundary (b @ CR # LF # v), m) =
     mp_run mem ((at_boundary v)\<lparr>mp_st := end_boundary\<rparr>, m)"
  using assms by (intro mp_run_step) (simp_all add: mp_step_simps mem_eq_exact)

lemma mem_eq_disposition: "mem_eq tolower 19 (''Content-Disposition'' @ v) ''Content-Disposition'' = Inr True"
  by (simp add: eval_nat_numeral)

lemma mem_eq_type: "mem_eq tolower 12 (''Content-Type'' @ v) ''Content-Type'' = Inr True"
  by (simp add: eval_nat_numeral)

lemma run_disposition:
  "mp_run mem ((at_boundary (''Content-Disposition'' @ v))\<lparr>mp_st := end_boundary\<rparr>, m) =
   mp_run mem ((at_boundary v)\<lparr>mp_st := start_content_disposition\<rparr>, m)"
  using mem_eq_disposition [of "v @ mem"]
  by (intro mp_run_step) (simp_all add: mp_step_simps)

lemma loop_name:
  "quotable nm \<Longrightarrow>
   disposition_loop (''name='' @ DQUOTE # nm @ DQUOTE # CR # LF # v) False True [] [] =
   (v, end_content_disposition, nm, [])"
  by (simp add: disposition_skip disposition_open disposition_quoted disposition_end)

lemma loop_name_file:
  "quotable nm \<Longrightarrow> quotable fn \<Longrightarrow>
   disposition_loop (''name='' @ DQUOTE # nm @ DQUOTE # ''; filename='' @ DQUOTE # fn @ DQUOTE #
      CR # LF # v) False True [] [] =
   (v, end_content_disposition, nm, fn)"
  by (simp add: disposition_skip disposition_open disposition_quoted disposition_end)

lemma run_data:
  assumes "NUL \<notin> set b" "bd m = b" "data_ok b d" "t \<noteq> []"
  shows "mp_run mem
      (\<lparr>mp_rest = d @ delimiter b @ t, mp_st = start_content_data, mp_name = nm,
        mp_filename = fn, mp_type = ty, mp_data = [], file_mark = f\<rparr>, m) =
    mp_run mem (at_boundary (b @ t), add_part f
      \<lparr>part_name = nm, part_file_name = fn, part_file_type = ty, part_data = d\<rparr> m)"
  (is "mp_run mem (?s, m) = _")
proof -
  have "mp_run mem (?s, m) =
      mp_run mem (?s\<lparr>mp_rest := ''--'' @ b @ t, mp_st := end_content_data, mp_data := d\<rparr>, m)"
  proof (rule mp_run_step)
    show "mp_rest (fst (?s, m)) \<noteq> []" by (simp add: delimiter_def)
    show "mp_step mem (?s, m) =
        Inr (?s\<lparr>mp_rest := ''--'' @ b @ t, mp_st := end_content_data, mp_data := d\<rparr>, m)"
      using content_data_exact [OF assms(1,3,4), of "[]" "[]" 0 mem] assms(2)
      by (simp add: mp_step_def)
  qed
  also have "\<dots> = mp_run mem ((at_boundary (''--'' @ b @ t))\<lparr>mp_st := start_body\<rparr>, add_part f
      \<lparr>part_name = nm, part_file_name = fn, part_file_type = ty, part_data = d\<rparr> m)"
    by (rule mp_run_step) (simp_all add: mp_step_simps)
  also have "\<dots> = mp_run mem (at_boundary (b @ t), add_part f
      \<lparr>part_name = nm, part_file_name = fn, part_file_type = ty, part_data = d\<rparr> m)"
    by (rule mp_run_step) (simp_all add: mp_step_simps)
  finally show ?thesis .
qed

lemma run_part:
  assumes "NUL \<notin> set b" "bd m = b" "part_ok b (f, p)" "t \<noteq> []"
  shows "mp_run mem (at_boundary (b @ CR # LF # part_head f p @ part_data p @ delimiter b @ t), m) =
     mp_run mem (at_boundary (b @ t), add_part f p m)"
proof -
  let ?tail = "part_data p @ delimiter b @ t"
  obtain h where h: "part_head f p = ''Content-Disposition'' @ '': form-data; '' @ h"
    and h': "h = ''name='' @ DQUOTE # part_name p @ DQUOTE #
      (if f
       then ''; filename='' @ DQUOTE # part_file_name p @ DQUOTE # CR # LF #
           ''Content-Type: '' @ part_file_type p @ CR # LF # CR # LF # []
       else CR # LF # CR # LF # [])"
    by (simp add: part_head_def)
  have "mp_run mem (at_boundary (b @ CR # LF # part_head f p @ ?tail), m) =
      mp_run mem ((at_boundary ('': form-data; '' @ h @ ?tail))
        \<lparr>mp_st := start_content_disposition\<rparr>, m)"
    using run_disposition [of mem "'': form-data; '' @ h @ ?tail" m]
    by (simp only: run_open [OF assms(1,2)] h append_assoc)
  also have "\<dots> = mp_run mem
      ((at_boundary (if f then ''Content-Type: '' @ part_file_type p @ CR # LF # CR # LF # ?tail
                     else CR # LF # ?tail))
        \<lparr>mp_st := end_content_disposition, mp_name := part_name p,
         mp_filename := part_file_name p\<rparr>, m)"
    using assms(3) loop_name [of "part_name p"] loop_name_file [of "part_name p" "part_file_name p"]
    by (cases f; intro mp_run_step) (simp_all add: mp_step_simps h' part_ok_def)
  also have "\<dots> = mp_run mem
      (\<lparr>mp_rest = ?tail, mp_st = start_content_data, mp_name = part_name p,
        mp_filename = part_file_name p, mp_type = part_file_type p, mp_data = [],
        file_mark = f\<rparr>, m)"
  proof (cases f)
    case True
    let ?ty = "part_file_type p @ CR # LF # CR # LF # ?tail"
    let ?at = "\<lambda>v st ty. \<lparr>mp_rest = v, mp_st = st, mp_name = part_name p,
        mp_filename = part_file_name p, mp_type = ty, mp_data = [], file_mark = True\<rparr>"
    have "mp_run mem
      ((at_boundary (''Content-Type: '' @ ?ty))
        \<lparr>mp_st := end_content_disposition, mp_name := part_name p,
         mp_filename := part_file_name p\<rparr>, m) = mp_run mem (?at ?ty start_content_type [], m)"
      using mem_eq_type [of "'': '' @ ?ty @ mem"]
      by (intro mp_run_step) (simp_all add: mp_step_simps)
    also have "\<dots> = mp_run mem (?at (CR # LF # ?tail) end_content_type (part_file_type p), m)"
      using assms(3) True content_type_line [of "part_file_type p" "CR # LF # ?tail" "[]"]
      by (intro mp_run_step) (simp_all add: mp_step_simps part_ok_def)
    also have "\<dots> = mp_run mem (?at ?tail start_content_data (part_file_type p), m)"
      by (intro mp_run_step) (simp_all add: mp_step_simps)
    finally show ?thesis using True by simp
  next
    case False
    with assms(3) show ?thesis
      by (intro mp_run_step) (simp_all add: mp_step_simps part_ok_def)
  qed
  also have "\<dots> = mp_run mem (at_boundary (b @ t), add_part f p m)"
    using run_data [OF assms(1,2) _ assms(4)] assms(3) by (cases p) (simp add: part_ok_def)
  finally show ?thesis .
qed

lemma bd_add_part [simp]: "bd (add_part f p m) = bd m"
  by (simp add: add_part_def split: option.split)

lemma run_parts:
  "NUL \<notin> set b \<Longrightarrow> bd m = b \<Longrightarrow> \<forall>fp \<in> set ps. part_ok b fp \<Longrightarrow>
   mp_run mem (at_boundary (b @ parts_text b ps), m) =
   Some (Inr (fold (\<lambda>(f, p). add_part f p) ps m))"
proof (induction ps arbitrary: m)
  case Nil
  have "mp_run mem (at_boundary (b @ parts_text b []), m) =
      mp_run mem ((at_boundary CRLF)\<lparr>mp_st := end_body\<rparr>, m)"
    using Nil by (intro mp_run_step) (simp_all add: mp_step_simps mem_eq_exact)
  also have "\<dots> = mp_run mem ((at_boundary [])\<lparr>mp_st := end_body\<rparr>, m)"
    by (intro mp_run_step) (simp_all add: mp_step_simps)
  also have "\<dots> = Some (Inr m)"
    by (rule mp_run_done [THEN trans]) (simp_all add: at_boundary_def)
  finally show ?case by simp
next
  case (Cons fp ps)
  obtain f p where fp: "fp = (f, p)" by (cases fp)
  show ?case
    using run_part [of b m f p "parts_text b ps" mem] Cons.IH [of "add_part f p m"] Cons.prems fp
    by simp
qed



text \<open>A body that does not begin with \<open>--\<close> is never rejected: the parser turns forever without
  advancing, so one such request occupies the thread for good.
\<close>

theorem multipart_bad_body_diverges:
  assumes "body \<noteq> []" and "take 2 body \<noteq> ''--''"
  shows "mp_parse mem body m = None"
  unfolding mp_parse_def using assms
  by (intro mp_run_stuck) (simp_all add: mp_start_def mp_step_def)

theorem multipart_bad_body_diverges_witness:
  "mp_parse [] ''x'' new_multipart = None"
  by (rule multipart_bad_body_diverges) simp_all

end
