(* ===== verification/HttpSession.thy ===== *)
theory HttpSession
  imports HttpMaps
begin

text \<open>
  \<open>haha_web/http/HttpSession.{h,cpp}\<close>: sessions and their manager. A session is shared by pointer,
  so the sessions live in a list and a pointer is an index into it; the manager maps ids to
  pointers. The id that the uuid library draws is an argument. The locks make every operation
  atomic.
\<close>

section \<open>State and operations\<close>

datatype session_status = New | Accessed | Destroy

record 'v http_session =
  ss_id :: string
  ss_status :: session_status
  ss_interval :: int
  ss_values :: "'v umap"

type_synonym session_ptr = nat

record 'v session_store =
  sess_heap :: "'v http_session list"
  sessions :: "session_ptr umap"

definition INTERVAL :: int where
  "INTERVAL = 180"

definition new_session_object :: "string \<Rightarrow> 'v http_session" where
  "new_session_object uuid = \<lparr>ss_id = uuid, ss_status = New, ss_interval = INTERVAL, ss_values = []\<rparr>"

definition empty_store :: "'v session_store" where
  "empty_store = \<lparr>sess_heap = [], sessions = []\<rparr>"

definition sm_getSession :: "'v session_store \<Rightarrow> string \<Rightarrow> session_ptr option" where
  "sm_getSession sm i = map_of (sessions sm) i"

definition sm_addSession :: "string \<Rightarrow> session_ptr \<Rightarrow> 'v session_store \<Rightarrow> 'v session_store" where
  "sm_addSession i p sm = sm\<lparr>sessions := AList.update i p (sessions sm)\<rparr>"

definition sm_newSession :: "string \<Rightarrow> 'v session_store \<Rightarrow> session_ptr \<times> 'v session_store" where
  "sm_newSession uuid sm =
     (let p = length (sess_heap sm)
      in (p, sm\<lparr>sess_heap := sess_heap sm @ [new_session_object uuid],
               sessions := AList.update uuid p (sessions sm)\<rparr>))"

definition sm_delSession :: "string \<Rightarrow> 'v session_store \<Rightarrow> 'v session_store" where
  "sm_delSession i sm = sm\<lparr>sessions := AList.delete i (sessions sm)\<rparr>"

definition setStatus :: "session_ptr \<Rightarrow> session_status \<Rightarrow> 'v session_store \<Rightarrow> 'v session_store" where
  "setStatus p st sm = sm\<lparr>sess_heap := (sess_heap sm)[p := (sess_heap sm ! p)\<lparr>ss_status := st\<rparr>]\<rparr>"

definition setValue :: "session_ptr \<Rightarrow> string \<Rightarrow> 'v \<Rightarrow> 'v session_store \<Rightarrow> 'v session_store" where
  "setValue p k v sm =
     sm\<lparr>sess_heap := (sess_heap sm)[p := (sess_heap sm ! p)
          \<lparr>ss_values := map_add_kv YES k v (ss_values (sess_heap sm ! p))\<rparr>]\<rparr>"

text \<open>\<open>getValue\<close>: \<open>cast\<close> is the \<open>any_cast\<close>, \<open>None\<close> when the stored type is another one.\<close>

definition sess_getValue ::
  "('v \<Rightarrow> 'w option) \<Rightarrow> session_ptr \<Rightarrow> string \<Rightarrow> 'v session_store \<Rightarrow> 'w option" where
  "sess_getValue cast p k sm =
     (case map_get YES k (ss_values (sess_heap sm ! p)) of
        None \<Rightarrow> None
      | Some v \<Rightarrow> cast v)"

section \<open>Consistency of the manager\<close>

text \<open>
  Every id is mapped to a live session object that carries this id, and no id twice.
\<close>

definition store_ok :: "'v session_store \<Rightarrow> bool" where
  "store_ok sm \<longleftrightarrow>
     distinct (map fst (sessions sm)) \<and>
     list_all (\<lambda>(i, p). p < length (sess_heap sm) \<and> ss_id (sess_heap sm ! p) = i) (sessions sm)"

lemma store_ok_empty [simp]: "store_ok empty_store"
  by (simp add: store_ok_def empty_store_def)

lemma store_ok_lookup:
  "store_ok sm \<Longrightarrow> sm_getSession sm i = Some p \<Longrightarrow>
   p < length (sess_heap sm) \<and> ss_id (sess_heap sm ! p) = i"
  by (auto simp: store_ok_def sm_getSession_def list_all_iff dest: map_of_SomeD)

lemma store_ok_newSession:
  assumes "store_ok sm"
  shows "store_ok (snd (sm_newSession uuid sm))"
proof -
  have "list_all (\<lambda>(i, p). p < length (sess_heap sm @ [new_session_object uuid]) \<and>
      ss_id ((sess_heap sm @ [new_session_object uuid]) ! p) = i)
      (AList.update uuid (length (sess_heap sm)) (sessions sm))"
    using assms set_update_subset [of uuid "length (sess_heap sm)" "sessions sm"]
    by (fastforce simp: store_ok_def list_all_iff nth_append new_session_object_def)
  with assms show ?thesis
    by (simp add: store_ok_def sm_newSession_def Let_def distinct_update)
qed

lemma store_ok_delSession: "store_ok sm \<Longrightarrow> store_ok (sm_delSession i sm)"
proof -
  have "set (AList.delete i m) \<subseteq> set m" for m :: "session_ptr umap"
    by (auto simp: AList.delete_eq)
  then show "store_ok sm \<Longrightarrow> store_ok (sm_delSession i sm)"
    by (fastforce simp: store_ok_def sm_delSession_def list_all_iff intro: AList.distinct_delete)
qed

lemma ss_id_update:
  "ss_id (f (l ! p)) = ss_id (l ! p) \<Longrightarrow> ss_id (l[p := f (l ! p)] ! b) = ss_id (l ! b)"
  by (cases "p < length l"; cases "p = b") (auto simp: list_update_beyond)

lemma store_ok_setStatus: "store_ok sm \<Longrightarrow> store_ok (setStatus p st sm)"
  using ss_id_update [of "\<lambda>s. s\<lparr>ss_status := st\<rparr>" "sess_heap sm" p]
  by (auto simp: store_ok_def setStatus_def list_all_iff)

lemma store_ok_setValue: "store_ok sm \<Longrightarrow> store_ok (setValue p k v sm)"
  using ss_id_update
    [of "\<lambda>s. s\<lparr>ss_values := map_add_kv YES k v (ss_values s)\<rparr>" "sess_heap sm" p]
  by (auto simp: store_ok_def setValue_def list_all_iff)

lemma getSession_new:
  "sm_getSession (snd (sm_newSession uuid sm)) i =
   (if i = uuid then Some (fst (sm_newSession uuid sm)) else sm_getSession sm i)"
  by (simp add: sm_getSession_def sm_newSession_def Let_def update_conv')

lemma getSession_del:
  "sm_getSession (sm_delSession j sm) i = (if i = j then None else sm_getSession sm i)"
  by (simp add: sm_getSession_def sm_delSession_def delete_conv')

end
