(* ===== verification/HttpRequest.thy ===== *)
theory HttpRequest
  imports BaseUtil ByteBuffer HttpTables HttpCookie HttpUrl HttpMultiPart HttpSession
begin

text \<open>
  \<open>haha_web/http/HttpRequest.{h,cpp}\<close>: the incremental request parser. Its state is the request
  record and the connection's receive buffer \<open>data_\<close>, passed side by side because the connection
  shares the buffer. Every parse function takes the view of the readable bytes when it starts and
  then retrieves from the buffer as it goes, as the code does. A member the constructor leaves
  uninitialised is an \<open>option\<close>. The JSON parser and the session lookup are arguments.
\<close>

section \<open>State\<close>

datatype check_state = CHECK_REQUESTLINE | CHECK_HEADER | CHECK_CONTENT | CHECK_DONE

datatype ret_state = OK_REQUEST | AGAIN_REQUEST | BAD_REQUEST

record 'j http_request =
  r_state :: check_state
  r_retState :: "ret_state option"
  r_method :: "http_method option"
  r_url :: http_url
  r_version :: http_version
  r_header :: http_header
  r_cookie :: cookie
  r_multipart :: multipart
  r_body :: string
  r_form :: "string umap"
  r_json :: "'j option"
  r_session :: "session_ptr option"
  r_contentType :: "http_content_type option"
  r_contentLength :: "nat option"
  r_acceptEncoding :: string
  r_transferEncoding :: string
  r_chunked :: bool
  r_chunkedState :: http_chunked_state
  r_chunk_size :: int
  r_keepAlive :: bool
  r_compressed :: bool
  r_hasContentType :: bool
  r_hasContentLength :: bool
  r_hasCookies :: bool
  r_hasTransferEncoding :: bool

definition max_requestLine_len :: nat where
  "max_requestLine_len = 2048"

definition max_requestHeader_len :: nat where
  "max_requestHeader_len = 8192"

definition chunk_size_str_limit :: nat where
  "chunk_size_str_limit = 5"

definition new_request :: "'j http_request" where
  "new_request =
     \<lparr>r_state = CHECK_REQUESTLINE, r_retState = None, r_method = None,
      r_url = new_url [] True, r_version = HTTP_1_0, r_header = new_header,
      r_cookie = empty_cookie, r_multipart = new_multipart, r_body = [], r_form = [],
      r_json = None, r_session = None, r_contentType = None, r_contentLength = None,
      r_acceptEncoding = [], r_transferEncoding = [], r_chunked = False,
      r_chunkedState = NO_LEN, r_chunk_size = 0, r_keepAlive = False, r_compressed = False,
      r_hasContentType = False, r_hasContentLength = False, r_hasCookies = False,
      r_hasTransferEncoding = False\<rparr>"

section \<open>The request line\<close>

text \<open>The method and the number of bytes its name and the space take.\<close>

definition line_method :: "string \<Rightarrow> (http_method \<times> nat) option" where
  "line_method line =
     (if compare_prefix 3 ''GET'' line then Some (GET, 4)
      else if compare_prefix 4 ''POST'' line then Some (POST, 5)
      else if compare_prefix 4 ''HEAD'' line then Some (HEAD, 5)
      else None)"

definition line_version :: "string \<Rightarrow> http_version option" where
  "line_version line =
     (if line = ''HTTP/1.0'' then Some HTTP_1_0
      else if line = ''HTTP/1.1'' then Some HTTP_1_1
      else if line = ''HTTP/2.0'' then Some HTTP_2_0
      else None)"

text \<open>
  The line up to the line end: \<open>None\<close> for a bad line, otherwise the number of bytes to retrieve;
  and the request with the members set so far.
\<close>

definition request_line :: "string \<Rightarrow> 'j http_request \<Rightarrow> (nat option \<times> 'j http_request) res" where
  "request_line line r =
     (case line_method line of
        None \<Rightarrow> Inr (None, r)
      | Some (m, i) \<Rightarrow>
          let r1 = r\<lparr>r_method := Some m\<rparr>
          in rbind (remove_prefix i line) (\<lambda>line1.
               case find_char (\<lambda>c. c = CHR '' '') line1 of
                 None \<Rightarrow> Inr (None, r1)
               | Some pos \<Rightarrow>
                   let r2 = r1\<lparr>r_url := new_url (take pos line1) True\<rparr>
                   in if url_state (r_url r2) = PARSE_FAIL then Inr (None, r2)
                      else rbind (remove_prefix (pos + 1) line1) (\<lambda>line2.
                        case line_version line2 of
                          None \<Rightarrow> Inr (None, r2)
                        | Some ver \<Rightarrow> Inr (Some (i + (pos + 1) + 10), r2\<lparr>r_version := ver\<rparr>))))"

definition parseRequestLine ::
  "buffer \<Rightarrow> 'j http_request \<Rightarrow> (ret_state \<times> buffer \<times> 'j http_request) res" where
  "parseRequestLine b r =
     (if max_requestLine_len < ReadableBytes b then Inr (BAD_REQUEST, b, r)
      else let view = readable b
      in case find_sub CRLF view of
           None \<Rightarrow>
             if view \<noteq> [] \<and> hd view \<noteq> CHR ''G'' \<and> hd view \<noteq> CHR ''P'' \<and> hd view \<noteq> CHR ''H''
             then Inr (BAD_REQUEST, b, r)
             else Inr (AGAIN_REQUEST, b, r)
         | Some end_pos \<Rightarrow>
             rbind (request_line (substr 0 end_pos view) r) (\<lambda>(n, r').
               case n of
                 None \<Rightarrow> Inr (BAD_REQUEST, b, r')
               | Some i \<Rightarrow> rbind (Retrieve i b) (\<lambda>b'. Inr (OK_REQUEST, b', r'))))"

section \<open>The header\<close>

definition parseKeepAlive :: "'j http_request \<Rightarrow> 'j http_request" where
  "parseKeepAlive r =
     (let r1 = (if r_version r \<noteq> HTTP_1_0 then r\<lparr>r_keepAlive := True\<rparr> else r)
      in case header_get ''Connection'' (r_header r1) of
           None \<Rightarrow> r1
         | Some v \<Rightarrow>
             let val = toLowers v
             in if val = ''keep-alive'' then r1\<lparr>r_keepAlive := True\<rparr>
                else if val = ''close'' then r1\<lparr>r_keepAlive := False\<rparr>
                else r1\<lparr>r_keepAlive := False\<rparr>)"

definition content_type_of :: "string \<Rightarrow> http_content_type" where
  "content_type_of val =
     (if compare_prefix 33 ''application/x-www-form-urlencoded'' val then URLENCODED
      else if compare_prefix 19 ''multipart/form-data'' val then MULTIPART
      else if compare_prefix 10 ''text/plain'' val then PLAIN
      else if compare_prefix 9 ''text/html'' val then HTML
      else if compare_prefix 16 ''application/json'' val then JSON
      else UNKNOW)"

definition parseContentType :: "'j http_request \<Rightarrow> 'j http_request" where
  "parseContentType r =
     (case header_get ''Content-Type'' (r_header r) of
        None \<Rightarrow> r
      | Some v \<Rightarrow> r\<lparr>r_hasContentType := True, r_contentType := Some (content_type_of (toLowers v))\<rparr>)"

definition parseAcceptEncoding :: "'j http_request \<Rightarrow> 'j http_request" where
  "parseAcceptEncoding r =
     (case header_get ''Accept-Encoding'' (r_header r) of
        None \<Rightarrow> r
      | Some v \<Rightarrow> r\<lparr>r_acceptEncoding := v, r_compressed := (find_sub ''gzip'' v \<noteq> None)\<rparr>)"

definition parseCookies :: "'j http_request \<Rightarrow> 'j http_request res" where
  "parseCookies r =
     (case header_get ''Cookie'' (r_header r) of
        None \<Rightarrow> Inr r
      | Some v \<Rightarrow>
          rbind (parse_cookie v) (\<lambda>ck. Inr (r\<lparr>r_hasCookies := True, r_cookie := ck\<rparr>)))"

text \<open>\<open>stoul\<close> throws on a value that is not a number; nothing on the way up catches it.\<close>

definition parseContentLength :: "'j http_request \<Rightarrow> 'j http_request res" where
  "parseContentLength r =
     (case header_get ''Content-Length'' (r_header r) of
        None \<Rightarrow> Inr r
      | Some v \<Rightarrow>
          rbind (stoul v) (\<lambda>n. Inr (r\<lparr>r_hasContentLength := True, r_contentLength := Some n\<rparr>)))"

definition parseTransferEncoding :: "'j http_request \<Rightarrow> 'j http_request" where
  "parseTransferEncoding r =
     (case header_get ''Transfer-Encoding'' (r_header r) of
        None \<Rightarrow> r
      | Some v \<Rightarrow>
          let r1 = r\<lparr>r_hasTransferEncoding := True, r_transferEncoding := toLowers v\<rparr>
          in if r_transferEncoding r1 = ''chunked'' then r1\<lparr>r_chunked := True\<rparr> else r1)"

definition parseSession :: "(string \<Rightarrow> session_ptr option) \<Rightarrow> 'j http_request \<Rightarrow> 'j http_request" where
  "parseSession lookup r =
     (let ssid = sessionId (r_cookie r)
      in if ssid \<noteq> []
         then (case lookup ssid of
                 Some s \<Rightarrow> r\<lparr>r_session := Some s\<rparr>
               | None \<Rightarrow> r\<lparr>r_session := None\<rparr>)
         else r\<lparr>r_session := None\<rparr>)"

definition header_done ::
  "(string \<Rightarrow> session_ptr option) \<Rightarrow> 'j http_request \<Rightarrow> 'j http_request res" where
  "header_done lookup r =
     rbind (parseCookies (parseContentType (parseAcceptEncoding (parseKeepAlive r)))) (\<lambda>r1.
       rbind (parseContentLength r1) (\<lambda>r2. Inr (parseSession lookup (parseTransferEncoding r2))))"

text \<open>Key and value of a header line; \<open>None\<close> without a colon.\<close>

definition header_value :: "nat \<Rightarrow> string \<Rightarrow> string" where
  "header_value pos2 line =
     (let pos3 = (case find_char_from (\<lambda>c. c = CHR '' '') pos2 line of
                    None \<Rightarrow> pos2 + 1
                  | Some p \<Rightarrow> p)
      in case find_char_from (\<lambda>c. c \<noteq> CHR '' '') pos3 line of
           None \<Rightarrow> []
         | Some pos4 \<Rightarrow> drop pos4 line)"

definition header_line :: "string \<Rightarrow> (string \<times> string) option" where
  "header_line line =
     (case find_char (\<lambda>c. c = CHR '':'') line of
        None \<Rightarrow> None
      | Some pos2 \<Rightarrow> Some (take pos2 line, header_value pos2 line))"

function header_loop ::
  "(string \<Rightarrow> session_ptr option) \<Rightarrow> string \<Rightarrow> buffer \<Rightarrow> 'j http_request \<Rightarrow>
   (ret_state \<times> buffer \<times> 'j http_request) res" where
  "header_loop lookup header b r =
     (if header = [] then Inr (AGAIN_REQUEST, b, r)
      else if 2 \<le> length header \<and> take 2 header = CRLF
      then rbind (Retrieve 2 b) (\<lambda>b'.
             rbind (header_done lookup r) (\<lambda>r'. Inr (OK_REQUEST, b', r')))
      else if max_requestHeader_len < header_size (r_header r) then Inr (BAD_REQUEST, b, r)
      else case find_sub CRLF header of
             None \<Rightarrow> Inr (AGAIN_REQUEST, b, r)
           | Some crlf_pos \<Rightarrow>
               (case header_line (take crlf_pos header) of
                  None \<Rightarrow> Inr (BAD_REQUEST, b, r)
                | Some (k, v) \<Rightarrow>
                    rbind (remove_prefix (crlf_pos + 2) header) (\<lambda>header'.
                      rbind (Retrieve (crlf_pos + 2) b) (\<lambda>b'.
                        header_loop lookup header' b'
                          (r\<lparr>r_header := header_add k v (r_header r)\<rparr>)))))"
  by pat_completeness auto
termination
  by (relation "measure (\<lambda>(lookup, header, b, r). length header)")
    (auto simp: remove_prefix_def split: if_splits)

declare header_loop.simps [simp del]

definition parseRequestHeader ::
  "(string \<Rightarrow> session_ptr option) \<Rightarrow> buffer \<Rightarrow> 'j http_request \<Rightarrow>
   (ret_state \<times> buffer \<times> 'j http_request) res" where
  "parseRequestHeader lookup b r = header_loop lookup (readable b) b r"

section \<open>The body\<close>

text \<open>The \<open>n\<close> bytes from \<open>Peek()\<close> on.\<close>

definition peek_bytes :: "nat \<Rightarrow> buffer \<Rightarrow> string" where
  "peek_bytes n b = take n (drop (readPos b) (buf_vec b))"

text \<open>The conversion of a \<open>size_t\<close> to \<open>int\<close>.\<close>

definition to_int32 :: "nat \<Rightarrow> int" where
  "to_int32 n = (int n + 2 ^ 31) mod 2 ^ 32 - 2 ^ 31"

lemma to_int32_small [simp]: "n < 2 ^ 31 \<Longrightarrow> to_int32 n = int n"
  by (simp add: to_int32_def)

text \<open>
  \<open>parseChunked\<close>, over the view and the buffer side by side. In \<open>DONE\<close> the loop returns; in
  \<open>BAD\<close>, a state it never enters, it would turn forever. A negative chunk size would index the
  view out of range.
\<close>

function chunked_loop ::
  "string \<Rightarrow> buffer \<Rightarrow> 'j http_request \<Rightarrow> (ret_state \<times> buffer \<times> 'j http_request) res" where
  "chunked_loop view b r =
     (case r_chunkedState r of
        NO_LEN \<Rightarrow>
          (case find_sub CRLF (take (chunk_size_str_limit + 2) view) of
             None \<Rightarrow> Inr (AGAIN_REQUEST, b, r)
           | Some pos \<Rightarrow>
               if chunk_size_str_limit < pos then Inr (BAD_REQUEST, b, r)
               else rbind (hexString2Int (take pos view)) (\<lambda>n.
                 let r1 = r\<lparr>r_chunk_size := n\<rparr>
                 in if n = 0
                    then rbind (Retrieve (pos + 2) b) (\<lambda>b'.
                           rbind (remove_prefix (pos + 2) view) (\<lambda>view'.
                             chunked_loop view' b' (r1\<lparr>r_chunkedState := DONE\<rparr>)))
                    else if n = - 1 then Inr (BAD_REQUEST, b, r1)
                    else rbind (Retrieve (pos + 2) b) (\<lambda>b'.
                           rbind (remove_prefix (pos + 2) view) (\<lambda>view'.
                             chunked_loop view' b' (r1\<lparr>r_chunkedState := NO_DATA\<rparr>)))))
      | NO_DATA \<Rightarrow>
          if to_int32 (length view) < r_chunk_size r + 2 then Inr (AGAIN_REQUEST, b, r)
          else if r_chunk_size r < 0 then Inl Undefined
          else let n = nat (r_chunk_size r)
               in if substr n 2 view = CRLF
                  then rbind (Retrieve (n + 2) b) (\<lambda>b'.
                         rbind (remove_prefix (n + 2) view) (\<lambda>view'.
                           chunked_loop view' b'
                             (r\<lparr>r_body := r_body r @ peek_bytes n b, r_chunkedState := NO_LEN\<rparr>)))
                  else Inr (BAD_REQUEST, b, r)
      | DONE \<Rightarrow>
          if length view < 2 then Inr (AGAIN_REQUEST, b, r)
          else if take 2 view = CRLF
          then rbind (Retrieve 2 b) (\<lambda>b'. Inr (OK_REQUEST, b', r))
          else Inr (BAD_REQUEST, b, r)
      | BAD \<Rightarrow> Inl Diverges)"
  by pat_completeness auto
termination
proof (relation "measure (\<lambda>(view, b, r). length view)", goal_cases)
  case (4 view b r x)
  then show ?case
    by (cases view) (auto simp: remove_prefix_def substr_def split: if_splits)
qed (auto simp: remove_prefix_def split: if_splits dest!: find_sub_Some_bound)

declare chunked_loop.simps [simp del]

definition parseChunked ::
  "buffer \<Rightarrow> 'j http_request \<Rightarrow> (ret_state \<times> buffer \<times> 'j http_request) res" where
  "parseChunked b r = chunked_loop (readable b) b r"

text \<open>
  The end of \<open>parseRequestContent\<close>: the body is interpreted by its content type. The bytes after a
  \<open>std::string\<close> start with a NUL.
\<close>

definition multipart_eob :: "'j http_request \<Rightarrow> string" where
  "multipart_eob r = ''--'' @ bd (r_multipart r) @ ''--'' @ CRLF"

definition ends_with :: "string \<Rightarrow> string \<Rightarrow> bool" where
  "ends_with t s \<longleftrightarrow> drop (length s - length t) s = t"

definition parse_body ::
  "(string \<Rightarrow> 'j res) \<Rightarrow> buffer \<Rightarrow> 'j http_request \<Rightarrow> (ret_state \<times> buffer \<times> 'j http_request) res" where
  "parse_body fromString b r =
     (if \<not> r_hasContentType r then Inr (OK_REQUEST, b, r)
      else case r_contentType r of
        None \<Rightarrow> Inl Undefined
      | Some ct \<Rightarrow>
          if ct = MULTIPART
          then if length (multipart_eob r) < length (r_body r) \<and> \<not> ends_with (multipart_eob r) (r_body r)
               then Inr (AGAIN_REQUEST, b, r)
               else (case mp_parse [NUL] (r_body r) (r_multipart r) of
                       None \<Rightarrow> Inl Diverges
                     | Some m \<Rightarrow> rbind m (\<lambda>m'. Inr (OK_REQUEST, b, r\<lparr>r_multipart := m'\<rparr>)))
          else if ct = URLENCODED
          then rbind (parseKeyValue (r_body r) ''='' ''&'' (r_form r) True)
                 (\<lambda>m. Inr (OK_REQUEST, b, r\<lparr>r_form := m\<rparr>))
          else if ct = PLAIN
          then rbind (parseKeyValue (r_body r) ''='' ''&'' (r_form r) False)
                 (\<lambda>m. Inr (OK_REQUEST, b, r\<lparr>r_form := m\<rparr>))
          else if ct = JSON
          then rbind (fromString (r_body r)) (\<lambda>j. Inr (OK_REQUEST, b, r\<lparr>r_json := Some j\<rparr>))
          else Inr (OK_REQUEST, b, r))"

definition parseRequestContent ::
  "(string \<Rightarrow> 'j res) \<Rightarrow> buffer \<Rightarrow> 'j http_request \<Rightarrow> (ret_state \<times> buffer \<times> 'j http_request) res" where
  "parseRequestContent fromString b r =
     (if r_hasTransferEncoding r
      then if r_chunked r
           then rbind (parseChunked b r) (\<lambda>(ret, b', r').
                  if ret \<noteq> OK_REQUEST then Inr (ret, b', r') else parse_body fromString b' r')
           else Inr (BAD_REQUEST, b, r)
      else if r_hasContentLength r
      then (case r_contentLength r of
              None \<Rightarrow> Inl Undefined
            | Some n \<Rightarrow>
                if length (r_body r) + ReadableBytes b < n then Inr (AGAIN_REQUEST, b, r)
                else let accept_size = size_sub n (length (r_body r));
                         r1 = r\<lparr>r_body := r_body r @ peek_bytes accept_size b\<rparr>
                     in rbind (Retrieve accept_size b) (\<lambda>b'. parse_body fromString b' r1))
      else case r_method r of
             None \<Rightarrow> Inl Undefined
           | Some m \<Rightarrow> if m = GET \<or> m = HEAD then Inr (OK_REQUEST, b, r) else Inr (BAD_REQUEST, b, r))"

section \<open>The state machine\<close>

fun state_rank :: "check_state \<Rightarrow> nat" where
  "state_rank CHECK_REQUESTLINE = 3"
| "state_rank CHECK_HEADER = 2"
| "state_rank CHECK_CONTENT = 1"
| "state_rank CHECK_DONE = 0"

text \<open>
  The loop of \<open>parseRequest\<close>: a turn that does not end it advances the state. Called again in
  \<open>CHECK_DONE\<close> it returns the old answer.
\<close>

function parse_loop ::
  "(string \<Rightarrow> session_ptr option) \<Rightarrow> (string \<Rightarrow> 'j res) \<Rightarrow> buffer \<Rightarrow> 'j http_request \<Rightarrow>
   (buffer \<times> 'j http_request) res" where
  "parse_loop lookup fromString b r =
     (case r_state r of
        CHECK_REQUESTLINE \<Rightarrow>
          rbind (parseRequestLine b r) (\<lambda>(ret, b', r').
            if ret = OK_REQUEST
            then parse_loop lookup fromString b' (r'\<lparr>r_retState := Some ret, r_state := CHECK_HEADER\<rparr>)
            else Inr (b', r'\<lparr>r_retState := Some ret\<rparr>))
      | CHECK_HEADER \<Rightarrow>
          rbind (parseRequestHeader lookup b r) (\<lambda>(ret, b', r').
            if ret = OK_REQUEST
            then parse_loop lookup fromString b' (r'\<lparr>r_retState := Some ret, r_state := CHECK_CONTENT\<rparr>)
            else Inr (b', r'\<lparr>r_retState := Some ret\<rparr>))
      | CHECK_CONTENT \<Rightarrow>
          rbind (parseRequestContent fromString b r) (\<lambda>(ret, b', r').
            if ret = OK_REQUEST
            then Inr (b', r'\<lparr>r_retState := Some ret, r_state := CHECK_DONE\<rparr>)
            else Inr (b', r'\<lparr>r_retState := Some ret\<rparr>))
      | CHECK_DONE \<Rightarrow> Inr (b, r))"
  by pat_completeness auto
termination
  by (relation "measure (\<lambda>(lookup, fromString, b, r). state_rank (r_state r))") auto

declare parse_loop.simps [simp del]

definition parseRequest ::
  "(string \<Rightarrow> session_ptr option) \<Rightarrow> (string \<Rightarrow> 'j res) \<Rightarrow> buffer \<Rightarrow> 'j http_request \<Rightarrow>
   (ret_state \<times> buffer \<times> 'j http_request) res" where
  "parseRequest lookup fromString b r =
     rbind (parse_loop lookup fromString b r) (\<lambda>(b', r').
       case r_retState r' of
         None \<Rightarrow> Inl Undefined
       | Some ret \<Rightarrow> Inr (ret, b', r'))"

definition complete :: "'j http_request \<Rightarrow> bool" where
  "complete r \<longleftrightarrow> r_state r = CHECK_DONE"

text \<open>\<open>getSession\<close>: \<open>uuid\<close> is the id a new session would draw.\<close>

definition req_getSession ::
  "string \<Rightarrow> bool \<Rightarrow> 'j http_request \<Rightarrow> 'v session_store \<Rightarrow> session_ptr option \<times> 'v session_store" where
  "req_getSession uuid autoCreate r sm =
     (case r_session r of
        Some s \<Rightarrow> (Some s, sm)
      | None \<Rightarrow>
          if autoCreate
          then (let (p, sm') = sm_newSession uuid sm in (Some p, sm'))
          else (None, sm))"

end
