(* ===== verification/HttpTurns.thy ===== *)
theory HttpTurns
  imports HttpRequest
begin

text \<open>
  The two loops of \<open>http/HttpRequest.cpp\<close> that read the buffer line by line, over the header and over a
  chunked body, have the same shape: a turn looks at the readable bytes and either answers, or takes
  some bytes and turns again. The locale \<open>view_loop\<close> states this shape and what a turn may look at, and
  proves what the parser rests on: the answer depends on the readable bytes only, and a loop that has
  asked for more goes on as if all the bytes had been there from the start.
\<close>

section \<open>Equal buffers, equal results\<close>

definition bsim :: "buffer \<Rightarrow> buffer \<Rightarrow> bool" where
  "bsim b c \<longleftrightarrow> buf_ok b \<and> buf_ok c \<and> readable b = readable c"

lemma bsim_refl [simp]: "buf_ok b \<Longrightarrow> bsim b b"
  by (simp add: bsim_def)

lemma bsim_ReadableBytes: "bsim b c \<Longrightarrow> ReadableBytes b = ReadableBytes c"
  by (metis bsim_def length_readable)

lemma bsim_readable: "bsim b c \<Longrightarrow> readable b = readable c"
  by (simp add: bsim_def)

definition rsim :: "(ret_state \<times> buffer \<times> 'r) res \<Rightarrow> (ret_state \<times> buffer \<times> 'r) res \<Rightarrow> bool" where
  "rsim x y \<longleftrightarrow>
     (case x of
        Inl e \<Rightarrow> y = Inl e
      | Inr (ret, b, r) \<Rightarrow> \<exists>c. y = Inr (ret, c, r) \<and> bsim b c)"

lemma rsim_Inl [simp]: "rsim (Inl e) y \<longleftrightarrow> y = Inl e"
  by (simp add: rsim_def)

lemma rsim_Inr [simp]: "rsim (Inr (ret, b, r)) (Inr (ret', c, r')) \<longleftrightarrow> ret = ret' \<and> r = r' \<and> bsim b c"
  by (auto simp: rsim_def)

lemma rsim_InrE:
  assumes "rsim (Inr (ret, b, r)) y"
  obtains c where "y = Inr (ret, c, r)" "bsim b c"
  using assms by (auto simp: rsim_def)

lemma rsim_trans: "rsim x y \<Longrightarrow> rsim y z \<Longrightarrow> rsim x z"
  by (cases x; cases y) (auto simp: rsim_def bsim_def)

lemma rbind_Inr_sym: "Inr y = rbind m f \<longleftrightarrow> (\<exists>v. m = Inr v \<and> f v = Inr y)"
  by (cases m) auto

lemma Retrieve_bsim:
  assumes "bsim b c"
  shows "(\<exists>b' c'. Retrieve n b = Inr b' \<and> Retrieve n c = Inr c' \<and> bsim b' c' \<and>
            readable b' = drop n (readable b) \<and> n \<le> length (readable b)) \<or>
         (Retrieve n b = Inl Assertion \<and> Retrieve n c = Inl Assertion \<and> length (readable b) < n)"
proof (cases "n \<le> length (readable b)")
  case True
  with assms Retrieve_cases [of b n] Retrieve_cases [of c n] show ?thesis
    by (auto simp: bsim_def)
next
  case False
  with assms Retrieve_too_much [of b n] Retrieve_too_much [of c n] show ?thesis
    by (auto simp: bsim_def)
qed

lemma rsim_Retrieve:
  assumes "bsim b c"
    and "\<And>b' c'. Retrieve n b = Inr b' \<Longrightarrow> bsim b' c' \<Longrightarrow> readable b' = drop n (readable b) \<Longrightarrow>
      n \<le> length (readable b) \<Longrightarrow> rsim (f b') (g c')"
  shows "rsim (rbind (Retrieve n b) f) (rbind (Retrieve n c) g)"
  using Retrieve_bsim [OF assms(1), of n] assms(2) by auto

lemma rsim_bind:
  assumes "\<And>v. m = Inr v \<Longrightarrow> rsim (f v) (g v)"
  shows "rsim (rbind m f) (rbind m g)"
  using assms by (cases m) auto

text \<open>\<open>extends b c w\<close>: buffer \<open>c\<close> holds what \<open>b\<close> holds, followed by \<open>w\<close>.\<close>

definition extends :: "buffer \<Rightarrow> buffer \<Rightarrow> string \<Rightarrow> bool" where
  "extends b c w \<longleftrightarrow> buf_ok b \<and> buf_ok c \<and> readable c = readable b @ w"

lemma extends_Retrieve:
  assumes "extends b c w" and "Retrieve n b = Inr b'"
  shows "\<exists>c'. Retrieve n c = Inr c' \<and> extends b' c' w \<and> readable b' = drop n (readable b)
           \<and> n \<le> length (readable b) \<and> length (readable c') \<le> length (readable c)"
proof -
  have b: "buf_ok b" "buf_ok c" "readable c = readable b @ w" using assms(1) by (auto simp: extends_def)
  have n: "n \<le> length (readable b)"
    using Retrieve_too_much [OF b(1)] assms(2) by (cases "n \<le> length (readable b)") auto
  obtain b2 where b2: "Retrieve n b = Inr b2" "buf_ok b2" "readable b2 = drop n (readable b)"
    using Retrieve_cases [OF b(1) n] by blast
  obtain c2 where c2: "Retrieve n c = Inr c2" "buf_ok c2" "readable c2 = drop n (readable c)"
    using Retrieve_cases [OF b(2), of n] n b(3) by auto
  from b2 c2 assms(2) n b(3) show ?thesis by (auto simp: extends_def)
qed

lemma extends_bsim: "extends b c w \<Longrightarrow> extends b c' w \<Longrightarrow> bsim c c'"
  by (simp add: extends_def bsim_def)

definition map_req :: "('r \<Rightarrow> 'r) \<Rightarrow> (ret_state \<times> buffer \<times> 'r) res \<Rightarrow> (ret_state \<times> buffer \<times> 'r) res" where
  "map_req f x = rbind x (\<lambda>(ret, b, r). Inr (ret, b, f r))"

lemma map_req_simps [simp]:
  "map_req f (Inl e) = Inl e"
  "map_req f (Inr (ret, b, r)) = Inr (ret, b, f r)"
  by (simp_all add: map_req_def)

lemma map_req_rbind: "map_req f (rbind m g) = rbind m (\<lambda>v. map_req f (g v))"
  by (cases m) simp_all

section \<open>Loops over the readable bytes\<close>

text \<open>
  What a turn decides: to fail, to answer, to take the closing line break and answer with what an
  operation makes of the request, or to take some bytes and go on.
\<close>

datatype 'r turn =
    Fail fault
  | Answer ret_state 'r
  | Finish "'r res"
  | Go nat 'r

definition take_turn ::
  "(buffer \<Rightarrow> 'r \<Rightarrow> (ret_state \<times> buffer \<times> 'r) res) \<Rightarrow> buffer \<Rightarrow> 'r turn \<Rightarrow> (ret_state \<times> buffer \<times> 'r) res" where
  "take_turn run b t =
     (case t of
        Fail e \<Rightarrow> Inl e
      | Answer ret r \<Rightarrow> Inr (ret, b, r)
      | Finish m \<Rightarrow> rbind (Retrieve 2 b) (\<lambda>b'. rbind m (\<lambda>r. Inr (OK_REQUEST, b', r)))
      | Go n r \<Rightarrow> rbind (Retrieve n b) (\<lambda>b'. run b' r))"

lemma take_turn_simps [simp]:
  "take_turn run b (Fail e) = Inl e"
  "take_turn run b (Answer ret r) = Inr (ret, b, r)"
  "take_turn run b (Finish m) = rbind (Retrieve 2 b) (\<lambda>b'. rbind m (\<lambda>r. Inr (OK_REQUEST, b', r)))"
  "take_turn run b (Go n r) = rbind (Retrieve n b) (\<lambda>b'. run b' r)"
  by (simp_all add: take_turn_def)

locale view_loop =
  fixes run :: "buffer \<Rightarrow> 'r \<Rightarrow> (ret_state \<times> buffer \<times> 'r) res"
    and turn :: "string \<Rightarrow> 'r \<Rightarrow> 'r turn"
  assumes run_turn: "buf_ok b \<Longrightarrow> run b r = take_turn run b (turn (readable b) r)"
    and go_bound: "turn v r = Go n r' \<Longrightarrow> 0 < n \<and> n \<le> length v"
    and finish_bound: "turn v r = Finish m \<Longrightarrow> 2 \<le> length v"
    and go_on: "turn v r = Go n r' \<Longrightarrow> length (v @ w) < 2 ^ 31 \<Longrightarrow> turn (v @ w) r = Go n r'"
    and finish_on: "turn v r = Finish m \<Longrightarrow> turn (v @ w) r = Finish m"
    and again_stays: "turn v r = Answer AGAIN_REQUEST r' \<Longrightarrow> r' = r"
    and answer_not_ok: "turn v r \<noteq> Answer OK_REQUEST r'"
begin

lemma go:
  assumes "buf_ok b" and "turn (readable b) r = Go n r'"
  obtains b' where "Retrieve n b = Inr b'" and "buf_ok b'" and "readable b' = drop n (readable b)"
    and "length (readable b') < length (readable b)" and "run b r = run b' r'"
proof -
  have n: "0 < n" "n \<le> length (readable b)" using go_bound [OF assms(2)] by auto
  obtain b' where b': "Retrieve n b = Inr b'" "buf_ok b'" "readable b' = drop n (readable b)"
    using Retrieve_cases [OF assms(1) n(2)] by blast
  have "length (readable b') < length (readable b)" using n unfolding b'(3) by auto
  with b' that show thesis using run_turn [OF assms(1), of r] assms(2) by simp
qed

lemma finish:
  assumes "buf_ok b" and "turn (readable b) r = Finish m"
  obtains b' where "Retrieve 2 b = Inr b'" and "buf_ok b'" and "readable b' = drop 2 (readable b)"
    and "run b r = rbind m (\<lambda>r'. Inr (OK_REQUEST, b', r'))"
proof -
  obtain b' where "Retrieve 2 b = Inr b'" "buf_ok b'" "readable b' = drop 2 (readable b)"
    using Retrieve_cases [OF assms(1) finish_bound [OF assms(2)]] by blast
  with that show thesis using run_turn [OF assms(1), of r] assms(2) by simp
qed

lemma run_induct [consumes 1, case_names turn]:
  assumes "buf_ok b"
    and "\<And>b r. buf_ok b \<Longrightarrow>
      (\<And>n r' b'. turn (readable b) r = Go n r' \<Longrightarrow> Retrieve n b = Inr b' \<Longrightarrow> buf_ok b' \<Longrightarrow>
         readable b' = drop n (readable b) \<Longrightarrow> run b r = run b' r' \<Longrightarrow> P b' r') \<Longrightarrow> P b r"
  shows "P b r"
  using assms(1)
proof (induction "length (readable b)" arbitrary: b r rule: less_induct)
  case less
  show ?case
  proof (rule assms(2) [OF less.prems(1)], goal_cases)
    case (1 n r' b')
    have "length (readable b') < length (readable b)"
      using go [OF less.prems 1(1)] 1(2) by (metis sum.inject(2))
    then show ?case by (rule less.hyps) (rule 1(3))
  qed
qed

text \<open>The answer depends on the readable bytes only.\<close>

lemma run_bsim:
  assumes "bsim b c"
  shows "rsim (run b r) (run c r)"
proof -
  have "buf_ok b" using assms by (simp add: bsim_def)
  then show ?thesis
    using assms
  proof (induction b r arbitrary: c rule: run_induct)
    case (turn b r)
    have c: "run c r = take_turn run c (turn (readable b) r)"
      using turn(3) run_turn [of c r] by (simp add: bsim_def)
    show ?case
    proof (cases "turn (readable b) r")
      case (Go n r')
      then obtain b' where b': "Retrieve n b = Inr b'" "buf_ok b'" "readable b' = drop n (readable b)"
          "run b r = run b' r'" using go [OF turn(1)] by metis
      show ?thesis
        using rsim_Retrieve [OF turn(3), of n "\<lambda>b'. run b' r'" "\<lambda>b'. run b' r'"]
          turn(2) [OF Go _ _ _ ] b' c Go by (auto simp: bsim_def)
    qed (use c turn(3) run_turn [OF turn(1), of r] in \<open>auto intro!: rsim_Retrieve rsim_bind\<close>)
  qed
qed

text \<open>A loop only takes bytes away, and what all its turns keep it keeps, unless it finishes.\<close>

lemma run_shrinks:
  assumes "buf_ok b" and "run b r = Inr (ret, b', r')" and "ReadableBytes b \<le> n"
  shows "buf_ok b' \<and> ReadableBytes b' \<le> n"
  using assms
proof (induction b r rule: run_induct)
  case (turn b r)
  show ?case
  proof (cases "turn (readable b) r")
    case (Finish m)
    then obtain b1 where "buf_ok b1" "readable b1 = drop 2 (readable b)"
        "run b r = rbind m (\<lambda>r'. Inr (OK_REQUEST, b1, r'))"
      using finish [OF turn(1)] by metis
    moreover from this have "ReadableBytes b1 \<le> ReadableBytes b"
      using turn(1) length_readable [of b1] by simp
    ultimately show ?thesis using turn(3,4) by (auto simp: rbind_Inr_sym rbind_Inr_conv)
  next
    case (Go k r1)
    then obtain b1 where b1: "Retrieve k b = Inr b1" "buf_ok b1" "readable b1 = drop k (readable b)"
        "length (readable b1) < length (readable b)" "run b r = run b1 r1"
      using go [OF turn(1)] by metis
    moreover from b1 have "ReadableBytes b1 \<le> ReadableBytes b"
      using turn(1) length_readable [of b1] by simp
    ultimately show ?thesis using turn(2) [OF Go b1(1-3,5)] turn(3,4) by simp
  qed (use turn run_turn [OF turn(1), of r] in auto)
qed

lemma run_keeps:
  assumes "buf_ok b" and "run b r = Inr (ret, b', r')" and "ret \<noteq> OK_REQUEST"
    and "\<And>v r n r1. turn v r = Go n r1 \<Longrightarrow> f r1 = f r"
    and "\<And>v r ret r1. turn v r = Answer ret r1 \<Longrightarrow> f r1 = f r"
  shows "f r' = f r"
  using assms(1-3)
proof (induction b r rule: run_induct)
  case (turn b r)
  show ?case
  proof (cases "turn (readable b) r")
    case (Go k r1)
    with turn.IH turn.prems go [OF turn(1) Go] show ?thesis by (metis assms(4))
  qed (use turn assms(5) run_turn [OF turn(1), of r] in \<open>auto simp: rbind_Inr_sym rbind_Inr_conv\<close>)
qed

lemma run_map:
  assumes "buf_ok b" and "\<And>v r. turn v (f r) = map_turn f (turn v r)"
  shows "run b (f r) = map_req f (run b r)"
  using assms(1)
proof (induction b r rule: run_induct)
  case (turn b r)
  have eq: "run b (f r) = take_turn run b (map_turn f (turn (readable b) r))"
    using run_turn [OF turn(1), of "f r"] by (simp add: assms(2))
  show ?case
  proof (cases "turn (readable b) r")
    case (Finish m)
    with eq run_turn [OF turn(1), of r] show ?thesis by (cases m) (simp_all add: map_req_rbind)
  next
    case (Go n r1)
    obtain b1 where "Retrieve n b = Inr b1" "buf_ok b1" "readable b1 = drop n (readable b)" "run b r = run b1 r1"
      using go [OF turn(1) Go] by metis
    with turn(2) [OF Go] eq Go show ?thesis by simp
  qed (use eq run_turn [OF turn(1), of r] in simp_all)
qed

text \<open>
  What a loop does with a part of the bytes it does with all of them: a complete part gives the same
  answer and leaves the rest, and where it asks for more, it goes on from where it stopped.
\<close>

lemma run_ok:
  assumes "run b r = Inr (OK_REQUEST, b', r')" and "extends b c w" and "length (readable c) < 2 ^ 31"
  shows "\<exists>c'. run c r = Inr (OK_REQUEST, c', r') \<and> extends b' c' w \<and> length (readable c') \<le> length (readable c)"
proof -
  have "buf_ok b" using assms(2) by (simp add: extends_def)
  then show ?thesis
    using assms
  proof (induction b r arbitrary: c rule: run_induct)
    case (turn b r)
    note ext = turn(4) and eq = run_turn [OF turn(1), of r]
    have c: "buf_ok c" "readable c = readable b @ w" using ext by (auto simp: extends_def)
    show ?case
    proof (cases "turn (readable b) r")
      case (Finish m)
      with eq turn(3) obtain b1 where "Retrieve 2 b = Inr b1" "m = Inr r'" "b1 = b'"
        by (auto simp: rbind_Inr_sym rbind_Inr_conv)
      with extends_Retrieve [OF ext] run_turn [OF c(1), of r] c(2) finish_on [OF Finish, of w]
      show ?thesis by fastforce
    next
      case (Go n r1)
      obtain b1 where b1: "Retrieve n b = Inr b1" "buf_ok b1" "readable b1 = drop n (readable b)" "run b r = run b1 r1"
        using go [OF turn(1) Go] by metis
      obtain c1 where c1: "Retrieve n c = Inr c1" "extends b1 c1 w" "length (readable c1) \<le> length (readable c)"
        using extends_Retrieve [OF ext b1(1)] by blast
      have "run c r = run c1 r1"
        using run_turn [OF c(1), of r] go_on [OF Go, of w] c(2) turn(5) c1(1) by simp
      then show ?thesis
        using turn(2) [OF Go b1 _ c1(2)] turn(3,5) b1(4) c1(3) by force
    qed (use eq turn(3) answer_not_ok in auto)
  qed
qed

lemma run_again:
  assumes "run b r = Inr (AGAIN_REQUEST, b', r')" and "extends b c w" and "extends b' c' w"
    and "length (readable c) < 2 ^ 31"
  shows "rsim (run c r) (run c' r')"
proof -
  have "buf_ok b" using assms(2) by (simp add: extends_def)
  then show ?thesis
    using assms(1,2,4)
  proof (induction b r arbitrary: c rule: run_induct)
    case (turn b r)
    note ext = turn(4) and eq = run_turn [OF turn(1), of r]
    have c: "buf_ok c" "readable c = readable b @ w" using ext by (auto simp: extends_def)
    show ?case
    proof (cases "turn (readable b) r")
      case (Answer ret r1)
      with eq turn(3) again_stays have "b' = b" "r' = r" by auto
      then show ?thesis using run_bsim extends_bsim ext assms(3) by auto
    next
      case (Go n r1)
      obtain b1 where b1: "Retrieve n b = Inr b1" "buf_ok b1" "readable b1 = drop n (readable b)" "run b r = run b1 r1"
        using go [OF turn(1) Go] by metis
      obtain c1 where c1: "Retrieve n c = Inr c1" "extends b1 c1 w" "length (readable c1) \<le> length (readable c)"
        using extends_Retrieve [OF ext b1(1)] by blast
      have "run c r = run c1 r1"
        using run_turn [OF c(1), of r] go_on [OF Go, of w] c(2) turn(5) c1(1) by simp
      then show ?thesis
        using turn(2) [OF Go b1 _ c1(2)] turn(3,5) b1(4) c1(3) by simp
    qed (use eq turn(3) in \<open>auto simp: rbind_Inr_sym rbind_Inr_conv\<close>)
  qed
qed

end

section \<open>The header\<close>

definition header_turn ::
  "(string \<Rightarrow> session_ptr option) \<Rightarrow> string \<Rightarrow> 'j http_request \<Rightarrow> 'j http_request turn" where
  "header_turn lookup v r =
     (if v = [] then Answer AGAIN_REQUEST r
      else if 2 \<le> length v \<and> take 2 v = CRLF then Finish (header_done lookup r)
      else if max_requestHeader_len < header_size (r_header r) then Answer BAD_REQUEST r
      else case find_sub CRLF v of
             None \<Rightarrow> Answer AGAIN_REQUEST r
           | Some pos \<Rightarrow>
               (case header_line (take pos v) of
                  None \<Rightarrow> Answer BAD_REQUEST r
                | Some (key, val) \<Rightarrow> Go (pos + 2) (r\<lparr>r_header := header_add key val (r_header r)\<rparr>)))"

lemma remove_prefix_ok: "n \<le> length v \<Longrightarrow> remove_prefix n v = Inr (drop n v)"
  by (simp add: remove_prefix_def)

lemma crlf_start_append:
  "v \<noteq> [] \<Longrightarrow> find_sub CRLF v = Some k \<Longrightarrow> \<not> (2 \<le> length v \<and> take 2 v = CRLF) \<Longrightarrow>
   \<not> (2 \<le> length (v @ w) \<and> take 2 (v @ w) = CRLF)"
  by (cases v; cases "tl v") (auto split: if_splits)

lemma header_turn_go:
  "header_turn lookup v r = Go n r' \<longleftrightarrow>
     v \<noteq> [] \<and> \<not> (2 \<le> length v \<and> take 2 v = CRLF) \<and> \<not> max_requestHeader_len < header_size (r_header r) \<and>
     (\<exists>pos key val. find_sub CRLF v = Some pos \<and> header_line (take pos v) = Some (key, val) \<and>
        n = pos + 2 \<and> r' = r\<lparr>r_header := header_add key val (r_header r)\<rparr>)"
  by (auto simp: header_turn_def split: option.splits)

text \<open>With the readable bytes in the view, the view and the buffer advance together.\<close>

lemma advance_both:
  assumes "buf_ok b" and "n \<le> length (readable b)"
  shows "rbind (remove_prefix n (readable b)) (\<lambda>v. rbind (Retrieve n b) (f v)) =
      rbind (Retrieve n b) (\<lambda>b'. f (readable b') b')"
    and "rbind (Retrieve n b) (\<lambda>b'. rbind (remove_prefix n (readable b)) (\<lambda>v. f v b')) =
      rbind (Retrieve n b) (\<lambda>b'. f (readable b') b')"
  using Retrieve_cases [OF assms] assms(2) by (auto simp: remove_prefix_ok simp del: length_readable)

interpretation header: view_loop "parseRequestHeader lookup" "header_turn lookup"
proof (unfold_locales, goal_cases)
  case (1 b r)
  show ?case
  proof (cases "find_sub CRLF (readable b)")
    case None
    then show ?thesis
      by (simp add: parseRequestHeader_def header_loop.simps [of lookup "readable b" b r] header_turn_def)
  next
    case (Some pos)
    have "pos + 2 \<le> length (readable b)" using find_sub_Some_bound [OF Some] by simp
    note adv = advance_both(1) [OF 1 this]
    show ?thesis
      unfolding parseRequestHeader_def header_loop.simps [of lookup "readable b" b r] header_turn_def Some
      by (auto simp: adv split: option.split simp del: add_2_eq_Suc')
  qed
next
  case (2 v r n r')
  then show ?case by (auto simp: header_turn_go dest!: find_sub_Some_bound)
next
  case (3 v r m)
  then show ?case by (auto simp: header_turn_def split: if_splits option.splits)
next
  case (4 v r n r' w)
  then obtain pos key val where v: "v \<noteq> []" "\<not> (2 \<le> length v \<and> take 2 v = CRLF)" "find_sub CRLF v = Some pos"
      "header_line (take pos v) = Some (key, val)"
    by (auto simp: header_turn_go)
  have "pos \<le> length v" using find_sub_Some_bound [OF v(3)] by simp
  then show ?case
    using 4 v crlf_start_append [OF v(1,3,2), of w] find_sub_append_Some [OF v(3), of w]
    by (simp add: header_turn_go)
next
  case (5 v r m w)
  then show ?case by (auto simp: header_turn_def split: if_splits option.splits)
qed (auto simp: header_turn_def split: if_splits option.splits)

section \<open>A chunked body\<close>

definition chunk_turn :: "string \<Rightarrow> 'j http_request \<Rightarrow> 'j http_request turn" where
  "chunk_turn v r =
     (case r_chunkedState r of
        NO_LEN \<Rightarrow>
          (case find_sub CRLF (take (chunk_size_str_limit + 2) v) of
             None \<Rightarrow> Answer AGAIN_REQUEST r
           | Some pos \<Rightarrow>
               if chunk_size_str_limit < pos then Answer BAD_REQUEST r
               else (case hexString2Int (take pos v) of
                       Inl e \<Rightarrow> Fail e
                     | Inr n \<Rightarrow>
                         if n = 0 then Go (pos + 2) (r\<lparr>r_chunk_size := n, r_chunkedState := DONE\<rparr>)
                         else if n = - 1 then Answer BAD_REQUEST (r\<lparr>r_chunk_size := n\<rparr>)
                         else Go (pos + 2) (r\<lparr>r_chunk_size := n, r_chunkedState := NO_DATA\<rparr>)))
      | NO_DATA \<Rightarrow>
          let n = nat (r_chunk_size r)
          in if to_int32 (length v) < r_chunk_size r + 2 then Answer AGAIN_REQUEST r
             else if r_chunk_size r < 0 then Fail Undefined
             else if substr n 2 v = CRLF
             then Go (n + 2) (r\<lparr>r_body := r_body r @ take n v, r_chunkedState := NO_LEN\<rparr>)
             else Answer BAD_REQUEST r
      | DONE \<Rightarrow>
          if length v < 2 then Answer AGAIN_REQUEST r
          else if take 2 v = CRLF then Finish (Inr r)
          else Answer BAD_REQUEST r
      | BAD \<Rightarrow> Fail Diverges)"

lemma substr_crlf_bound: "substr n 2 v = CRLF \<Longrightarrow> n + 2 \<le> length v"
  by (auto simp: substr_def dest: arg_cong [where f = length])

lemma find_sub_window_append:
  "find_sub CRLF (take n v) = Some pos \<Longrightarrow> find_sub CRLF (take n (v @ w)) = Some pos"
  using find_sub_append_Some [of CRLF "take n v" pos "take (n - length v) w"] by simp

lemma peek_bytes_readable:
  assumes "buf_ok b" and "n \<le> length (readable b)"
  shows "peek_bytes n b = take n (readable b)"
proof -
  have "n \<le> ReadableBytes b" using assms by simp
  then show ?thesis by (simp add: peek_bytes_def readable_def min_def)
qed

lemma chunked_loop_turn:
  assumes "buf_ok b"
  shows "parseChunked b r = take_turn parseChunked b (chunk_turn (readable b) r)"
proof (cases "r_chunkedState r")
  case NO_LEN
  show ?thesis
  proof (cases "find_sub CRLF (take (chunk_size_str_limit + 2) (readable b))")
    case (Some pos)
    have "pos + 2 \<le> length (readable b)" using find_sub_Some_bound [OF Some] by simp
    note adv = advance_both(2) [OF assms this]
    show ?thesis
      unfolding parseChunked_def chunked_loop.simps [of "readable b" b r] chunk_turn_def NO_LEN Some
      by (cases "hexString2Int (take pos (readable b))") (auto simp: adv Let_def simp del: add_2_eq_Suc')
  qed (simp add: NO_LEN parseChunked_def chunked_loop.simps [of "readable b" b r] chunk_turn_def)
next
  case NO_DATA
  let ?n = "nat (r_chunk_size r)"
  show ?thesis
  proof (cases "substr ?n 2 (readable b) = CRLF")
    case True
    note n = substr_crlf_bound [OF True]
    have "peek_bytes ?n b = take ?n (readable b)" using n by (intro peek_bytes_readable [OF assms]) simp
    then show ?thesis
      unfolding parseChunked_def chunked_loop.simps [of "readable b" b r] chunk_turn_def NO_DATA
      by (simp add: True advance_both(2) [OF assms n] Let_def del: add_2_eq_Suc')
  qed (simp add: NO_DATA parseChunked_def chunked_loop.simps [of "readable b" b r] chunk_turn_def Let_def)
qed (simp_all add: parseChunked_def chunked_loop.simps [of "readable b" b r] chunk_turn_def)

lemmas chunk_turn_splits = if_split_asm option.split_asm sum.split_asm http_chunked_state.split_asm

interpretation chunks: view_loop parseChunked chunk_turn
proof (unfold_locales, goal_cases)
  case (1 b r)
  then show ?case by (rule chunked_loop_turn)
next
  case (2 v r n r')
  then show ?case
    by (auto simp: chunk_turn_def Let_def split: chunk_turn_splits dest!: find_sub_Some_bound substr_crlf_bound)
next
  case (3 v r m)
  then show ?case by (auto simp: chunk_turn_def Let_def split: chunk_turn_splits)
next
  case (4 v r n r' w)
  show ?case
  proof (cases "r_chunkedState r")
    case NO_LEN
    with 4 obtain pos where pos: "find_sub CRLF (take (chunk_size_str_limit + 2) v) = Some pos"
      by (auto simp: chunk_turn_def split: option.splits)
    have "pos \<le> length v" using find_sub_Some_bound [OF pos] by simp
    with 4(1) show ?thesis
      unfolding chunk_turn_def NO_LEN http_chunked_state.case pos find_sub_window_append [OF pos, of w] option.case
      by (simp split: if_split_asm)
  next
    case NO_DATA
    with 4(1) have "substr (nat (r_chunk_size r)) 2 v = CRLF" "\<not> r_chunk_size r < 0"
      by (auto simp: chunk_turn_def Let_def split: if_splits)
    moreover from this(1) have "nat (r_chunk_size r) + 2 \<le> length v" by (rule substr_crlf_bound)
    ultimately show ?thesis
      using 4 NO_DATA by (auto simp: chunk_turn_def Let_def substr_def split: if_splits)
  qed (use 4 in \<open>auto simp: chunk_turn_def split: if_splits\<close>)
next
  case (5 v r m w)
  then show ?case by (auto simp: chunk_turn_def Let_def split: chunk_turn_splits)
qed (auto simp: chunk_turn_def Let_def split: chunk_turn_splits)

end
