(* ===== verification/HttpRequestSim.thy ===== *)
theory HttpRequestSim
  imports HttpTurns
begin

text \<open>
  The request parser reads the buffer only through its readable bytes: two buffers with the same
  readable bytes give the same answers. Together with the lemmas on how each loop continues after
  \<open>AGAIN_REQUEST\<close>, this gives the independence of the parse from the way the network splits the
  request.
\<close>

section \<open>Equal buffers, equal results\<close>

lemma parseRequestLine_bsim: "bsim b c \<Longrightarrow> rsim (parseRequestLine b r) (parseRequestLine c r)"
  unfolding parseRequestLine_def Let_def
  by (auto simp: bsim_ReadableBytes [of b c] bsim_readable [of b c]
      split: option.split intro!: rsim_bind rsim_Retrieve)

lemmas parseRequestHeader_bsim = header.run_bsim and parseChunked_bsim = chunks.run_bsim

lemma peek_bytes_bsim: "bsim b c \<Longrightarrow> n \<le> length (readable b) \<Longrightarrow> peek_bytes n b = peek_bytes n c"
  by (simp add: bsim_def peek_bytes_readable)

lemma parse_body_bsim: "bsim b c \<Longrightarrow> rsim (parse_body fs b r) (parse_body fs c r)"
  unfolding parse_body_def by (auto intro!: rsim_bind split: option.split)

lemma parseRequestContent_bsim:
  assumes "bsim b c"
  shows "rsim (parseRequestContent fs b r) (parseRequestContent fs c r)"
proof -
  have chunk: "rsim (rbind (parseChunked b r) (\<lambda>(ret, b', r').
        if ret \<noteq> OK_REQUEST then Inr (ret, b', r') else parse_body fs b' r'))
      (rbind (parseChunked c r) (\<lambda>(ret, b', r').
        if ret \<noteq> OK_REQUEST then Inr (ret, b', r') else parse_body fs b' r'))"
    using parseChunked_bsim [OF assms, of r]
    by (cases "parseChunked b r") (auto elim!: rsim_InrE simp: parse_body_bsim)
  have body: "rsim (rbind (Retrieve n b) (\<lambda>b'. parse_body fs b' (r\<lparr>r_body := r_body r @ peek_bytes n b\<rparr>)))
      (rbind (Retrieve n c) (\<lambda>b'. parse_body fs b' (r\<lparr>r_body := r_body r @ peek_bytes n c\<rparr>)))" for n
    using peek_bytes_bsim [OF assms, of n] by (intro rsim_Retrieve [OF assms]) (simp add: parse_body_bsim)
  show ?thesis
    unfolding parseRequestContent_def Let_def
    using chunk body assms
    by (auto simp: bsim_ReadableBytes [OF assms] split: option.split)
qed

definition psim :: "(buffer \<times> 'j http_request) res \<Rightarrow> (buffer \<times> 'j http_request) res \<Rightarrow> bool" where
  "psim x y \<longleftrightarrow>
     (case x of
        Inl e \<Rightarrow> y = Inl e
      | Inr (b, r) \<Rightarrow> \<exists>c. y = Inr (c, r) \<and> bsim b c)"

lemma psim_simps [simp]:
  "psim (Inl e) y \<longleftrightarrow> y = Inl e"
  "psim (Inr (b, r)) (Inr (c, r')) \<longleftrightarrow> r = r' \<and> bsim b c"
  by (auto simp: psim_def)

lemma psim_bind:
  assumes "rsim x y"
    and "\<And>ret b c r. x = Inr (ret, b, r) \<Longrightarrow> bsim b c \<Longrightarrow> psim (f (ret, b, r)) (g (ret, c, r))"
  shows "psim (rbind x f) (rbind y g)"
  using assms by (cases x) (auto elim!: rsim_InrE)

text \<open>The three stages of a parse, and what follows a stage that has found what it looked for.\<close>

definition stage ::
  "(string \<Rightarrow> session_ptr option) \<Rightarrow> (string \<Rightarrow> 'j res) \<Rightarrow> buffer \<Rightarrow> 'j http_request \<Rightarrow>
   (ret_state \<times> buffer \<times> 'j http_request) res" where
  "stage lookup fs b r =
     (case r_state r of
        CHECK_REQUESTLINE \<Rightarrow> parseRequestLine b r
      | CHECK_HEADER \<Rightarrow> parseRequestHeader lookup b r
      | CHECK_CONTENT \<Rightarrow> parseRequestContent fs b r
      | CHECK_DONE \<Rightarrow> Inl Undefined)"

fun next_state :: "check_state \<Rightarrow> check_state" where
  "next_state CHECK_REQUESTLINE = CHECK_HEADER"
| "next_state CHECK_HEADER = CHECK_CONTENT"
| "next_state _ = CHECK_DONE"

lemma parse_loop_done: "r_state r = CHECK_DONE \<Longrightarrow> parse_loop lookup fs b r = Inr (b, r)"
  by (subst parse_loop.simps) simp

lemma parse_loop_stage:
  assumes "r_state r \<noteq> CHECK_DONE"
  shows "parse_loop lookup fs b r = rbind (stage lookup fs b r) (\<lambda>(ret, b', r').
    if ret = OK_REQUEST
    then parse_loop lookup fs b' (r'\<lparr>r_retState := Some ret, r_state := next_state (r_state r)\<rparr>)
    else Inr (b', r'\<lparr>r_retState := Some ret\<rparr>))"
  using assms
  by (cases "r_state r"; subst parse_loop.simps) (auto simp: stage_def parse_loop_done intro!: arg_cong [where f = "rbind _"])

lemma next_state_rank: "st \<noteq> CHECK_DONE \<Longrightarrow> state_rank (next_state st) < state_rank st"
  by (cases st) simp_all

lemma stage_bsim: "bsim b c \<Longrightarrow> rsim (stage lookup fs b r) (stage lookup fs c r)"
  by (simp add: stage_def parseRequestLine_bsim parseRequestHeader_bsim parseRequestContent_bsim split: check_state.split)

lemma parse_loop_bsim: "bsim b c \<Longrightarrow> psim (parse_loop lookup fs b r) (parse_loop lookup fs c r)"
proof (induction "state_rank (r_state r)" arbitrary: b c r rule: less_induct)
  case less
  show ?case
  proof (cases "r_state r = CHECK_DONE")
    case False
    then show ?thesis
      by (simp add: parse_loop_stage) (auto intro!: psim_bind [OF stage_bsim [OF less.prems]] less.hyps next_state_rank)
  qed (simp add: parse_loop_done less.prems)
qed

lemma parseRequest_bsim:
  assumes "bsim b c"
  shows "rsim (parseRequest lookup fs b r) (parseRequest lookup fs c r)"
  using parse_loop_bsim [OF assms, of lookup fs r] unfolding parseRequest_def
  by (cases "parse_loop lookup fs b r") (auto simp: psim_def split: option.split)

section \<open>The old answer plays no role\<close>

abbreviation set_ret :: "ret_state option \<Rightarrow> 'j http_request \<Rightarrow> 'j http_request" where
  "set_ret x \<equiv> r_retState_update (\<lambda>_. x)"

lemma rbind_eqI: "(\<And>v. m = Inr v \<Longrightarrow> f v = g v) \<Longrightarrow> rbind m f = rbind m g"
  by (cases m) auto

lemma rbind_assoc: "rbind (rbind m f) g = rbind m (\<lambda>v. rbind (f v) g)"
  by (cases m) auto

lemma set_ret_commute:
  "(set_ret x r)\<lparr>r_header := h\<rparr> = set_ret x (r\<lparr>r_header := h\<rparr>)"
  "(set_ret x r)\<lparr>r_body := s\<rparr> = set_ret x (r\<lparr>r_body := s\<rparr>)"
  "(set_ret x r)\<lparr>r_chunkedState := st\<rparr> = set_ret x (r\<lparr>r_chunkedState := st\<rparr>)"
  "(set_ret x r)\<lparr>r_chunk_size := n\<rparr> = set_ret x (r\<lparr>r_chunk_size := n\<rparr>)"
  "(set_ret x r)\<lparr>r_json := j\<rparr> = set_ret x (r\<lparr>r_json := j\<rparr>)"
  "(set_ret x r)\<lparr>r_form := m\<rparr> = set_ret x (r\<lparr>r_form := m\<rparr>)"
  "(set_ret x r)\<lparr>r_multipart := mp\<rparr> = set_ret x (r\<lparr>r_multipart := mp\<rparr>)"
  by simp_all

lemma request_line_set_ret:
  "request_line line (set_ret x r) = rbind (request_line line r) (\<lambda>(n, r'). Inr (n, set_ret x r'))"
  by (cases "line_method line")
    (auto simp: request_line_def Let_def rbind_assoc intro!: rbind_eqI split: option.split)

lemma parseRequestLine_set_ret:
  "parseRequestLine b (set_ret x r) = map_req (set_ret x) (parseRequestLine b r)"
  unfolding parseRequestLine_def Let_def
  by (auto simp: request_line_set_ret map_req_rbind rbind_assoc intro!: rbind_eqI split: option.split)

lemma header_steps_set_ret:
  "parseKeepAlive (set_ret x r) = set_ret x (parseKeepAlive r)"
  "parseAcceptEncoding (set_ret x r) = set_ret x (parseAcceptEncoding r)"
  "parseContentType (set_ret x r) = set_ret x (parseContentType r)"
  "parseTransferEncoding (set_ret x r) = set_ret x (parseTransferEncoding r)"
  "parseSession lookup (set_ret x r) = set_ret x (parseSession lookup r)"
  by (auto simp: parseKeepAlive_def parseAcceptEncoding_def parseContentType_def
      parseTransferEncoding_def parseSession_def Let_def split: option.split)

lemma parseCookies_set_ret:
  "parseCookies (set_ret x r) = rbind (parseCookies r) (\<lambda>r'. Inr (set_ret x r'))"
  by (auto simp: parseCookies_def rbind_assoc intro!: rbind_eqI split: option.split)

lemma parseContentLength_set_ret:
  "parseContentLength (set_ret x r) = rbind (parseContentLength r) (\<lambda>r'. Inr (set_ret x r'))"
  by (auto simp: parseContentLength_def rbind_assoc intro!: rbind_eqI split: option.split)

lemma header_done_set_ret:
  "header_done lookup (set_ret x r) = rbind (header_done lookup r) (\<lambda>r'. Inr (set_ret x r'))"
  by (simp add: header_done_def header_steps_set_ret parseCookies_set_ret parseContentLength_set_ret
      rbind_assoc)

lemma header_turn_set_ret:
  "header_turn lookup v (set_ret x r) = map_turn (set_ret x) (header_turn lookup v r)"
  by (cases "header_done lookup r")
    (auto simp: header_turn_def header_done_set_ret set_ret_commute split: option.split)

lemma chunk_turn_set_ret: "chunk_turn v (set_ret x r) = map_turn (set_ret x) (chunk_turn v r)"
  by (cases "r_chunkedState r") (auto simp: chunk_turn_def Let_def set_ret_commute split: option.split sum.split)

lemmas parseRequestHeader_set_ret = header.run_map [OF _ header_turn_set_ret]
  and parseChunked_set_ret = chunks.run_map [OF _ chunk_turn_set_ret]

lemma parse_body_set_ret:
  "parse_body fs b (set_ret x r) = map_req (set_ret x) (parse_body fs b r)"
proof (cases "r_hasContentType r")
  case True
  then show ?thesis
    by (cases "r_contentType r")
      (auto simp: parse_body_def multipart_eob_def map_req_rbind set_ret_commute split: option.split)
qed (simp add: parse_body_def)

lemma parseRequestContent_set_ret:
  assumes "buf_ok b"
  shows "parseRequestContent fs b (set_ret x r) = map_req (set_ret x) (parseRequestContent fs b r)"
proof -
  have "rbind (map_req (set_ret x) y) (\<lambda>(ret, b', r').
          if ret \<noteq> OK_REQUEST then Inr (ret, b', r') else parse_body fs b' r') =
        map_req (set_ret x) (rbind y (\<lambda>(ret, b', r').
          if ret \<noteq> OK_REQUEST then Inr (ret, b', r') else parse_body fs b' r'))"
    for y :: "(ret_state \<times> buffer \<times> 'a http_request) res"
    by (cases y) (auto simp: parse_body_set_ret split: prod.split)
  then show ?thesis
    unfolding parseRequestContent_def
    by (auto simp: parseChunked_set_ret [OF assms] Let_def map_req_rbind set_ret_commute parse_body_set_ret
        split: option.split)
qed

lemma stage_set_ret: "buf_ok b \<Longrightarrow> stage lookup fs b (set_ret x r) = map_req (set_ret x) (stage lookup fs b r)"
  by (simp add: stage_def parseRequestLine_set_ret parseRequestHeader_set_ret parseRequestContent_set_ret
      split: check_state.split)

lemma parse_loop_set_ret:
  assumes "r_state r \<noteq> CHECK_DONE" and "buf_ok b"
  shows "parse_loop lookup fs b (set_ret x r) = parse_loop lookup fs b r"
proof -
  have st: "r_state (set_ret x r) \<noteq> CHECK_DONE" using assms(1) by simp
  show ?thesis
    unfolding parse_loop_stage [OF assms(1)] parse_loop_stage [OF st] stage_set_ret [OF assms(2)]
    by (cases "stage lookup fs b r") auto
qed

section \<open>Continuing the whole parse\<close>

text \<open>What the loops leave alone.\<close>

definition frame :: "'j http_request \<Rightarrow> bool \<times> bool \<times> bool \<times> bool \<times> http_content_type option \<times> check_state" where
  "frame r = (r_hasTransferEncoding r, r_chunked r, r_hasContentLength r, r_hasContentType r,
     r_contentType r, r_state r)"

lemma frame_simps [simp]:
  "frame (r\<lparr>r_body := s\<rparr>) = frame r"
  "frame (r\<lparr>r_chunkedState := st\<rparr>) = frame r"
  "frame (r\<lparr>r_chunk_size := n\<rparr>) = frame r"
  "frame (r\<lparr>r_header := h\<rparr>) = frame r"
  by (simp_all add: frame_def)

lemma header_frame:
  assumes "buf_ok b" and "parseRequestHeader lookup b r = Inr (AGAIN_REQUEST, b', r')"
  shows "frame r' = frame r"
  using assms
  by (rule header.run_keeps) (auto simp: header_turn_def split: if_split_asm option.split_asm)

lemma chunks_frame:
  assumes "buf_ok b" and "parseChunked b r = Inr (AGAIN_REQUEST, b', r')"
  shows "frame r' = frame r"
  using assms
  by (rule chunks.run_keeps) (auto simp: chunk_turn_def Let_def split: chunk_turn_splits)

lemma parse_body_again:
  "parse_body fs b r = Inr (AGAIN_REQUEST, b', r') \<Longrightarrow> r_hasContentType r' \<and> r_contentType r' = Some MULTIPART"
  by (auto simp: parse_body_def rbind_Inr_conv split: option.splits if_splits)

lemma parseRequestContent_again:
  assumes again: "parseRequestContent fs b r = Inr (AGAIN_REQUEST, b', r')"
    and nomulti: "\<not> (r_hasContentType r' \<and> r_contentType r' = Some MULTIPART)"
    and ext: "extends b c w" and ext': "extends b' c' w" and len: "length (readable c) < 2 ^ 31"
  shows "rsim (parseRequestContent fs c r) (parseRequestContent fs c' r')"
proof -
  have nob: "parse_body fs b1 r1 \<noteq> Inr (AGAIN_REQUEST, b', r')" for b1 r1
    using parse_body_again [of fs b1 r1 b' r'] nomulti by blast
  show ?thesis
proof (cases "r_hasTransferEncoding r")
  case True
  with again have ch: "r_chunked r" by (auto simp: parseRequestContent_def split: if_splits)
  obtain ret b1 r1 where p: "parseChunked b r = Inr (ret, b1, r1)"
    using again True ch by (auto simp: parseRequestContent_def rbind_Inr_conv)
  have "ret \<noteq> OK_REQUEST"
    using again True ch p nob by (auto simp: parseRequestContent_def)
  with again True ch p have p: "parseChunked b r = Inr (AGAIN_REQUEST, b', r')"
    by (auto simp: parseRequestContent_def)
  have fr: "frame r' = frame r"
    using chunks_frame p ext by (auto simp: extends_def)
  have sim: "rsim (parseChunked c r) (parseChunked c' r')"
    using chunks.run_again [OF p ext ext' len] .
  have "rsim (rbind (parseChunked c r) (\<lambda>(ret, b', r').
        if ret \<noteq> OK_REQUEST then Inr (ret, b', r') else parse_body fs b' r'))
      (rbind (parseChunked c' r') (\<lambda>(ret, b', r').
        if ret \<noteq> OK_REQUEST then Inr (ret, b', r') else parse_body fs b' r'))"
    using sim by (cases "parseChunked c r") (auto elim!: rsim_InrE simp: parse_body_bsim)
  with True ch fr show ?thesis by (simp add: parseRequestContent_def frame_def)
next
  case False
  have "b' = b \<and> r' = r"
    using again False nob
    by (auto simp: parseRequestContent_def Let_def rbind_Inr_conv split: if_splits option.splits)
  with ext ext' show ?thesis by (auto intro!: parseRequestContent_bsim elim: extends_bsim)
qed
qed

lemma parseRequestContent_state:
  assumes again: "parseRequestContent fs b r = Inr (AGAIN_REQUEST, b', r')"
    and nomulti: "\<not> (r_hasContentType r' \<and> r_contentType r' = Some MULTIPART)" and ok: "buf_ok b"
  shows "r_state r' = r_state r"
proof -
  have nob: "parse_body fs b1 r1 \<noteq> Inr (AGAIN_REQUEST, b', r')" for b1 r1
    using parse_body_again [of fs b1 r1 b' r'] nomulti by blast
  show ?thesis
    using again nob chunks_frame [OF ok, of r b' r']
    by (auto simp: parseRequestContent_def Let_def rbind_Inr_conv frame_def
        split: if_splits option.splits)
qed

lemma parseRequestLine_again: "parseRequestLine b r = Inr (AGAIN_REQUEST, b1, r1) \<Longrightarrow> b1 = b \<and> r1 = r"
  by (auto simp: parseRequestLine_def Let_def rbind_Inr_conv split: if_split_asm option.split_asm)

lemma parseRequestLine_cases:
  assumes "parseRequestLine b r = Inr (ret, b1, r1)" and "extends b c w"
    and "length (readable c) \<le> max_requestLine_len"
  shows "(ret = AGAIN_REQUEST \<longrightarrow> b1 = b \<and> r1 = r) \<and>
    (ret = OK_REQUEST \<longrightarrow> (\<exists>c1. parseRequestLine c r = Inr (OK_REQUEST, c1, r1) \<and> extends b1 c1 w \<and>
       length (readable c1) \<le> length (readable c)))"
proof -
  have lim: "ReadableBytes c \<le> max_requestLine_len" "ReadableBytes b \<le> max_requestLine_len"
    using assms(2,3) length_readable [of b] length_readable [of c] by (auto simp: extends_def)
  show ?thesis
  proof (cases "find_sub CRLF (readable b)")
    case None
    with assms(1) lim show ?thesis by (auto simp: parseRequestLine_def Let_def split: if_splits)
  next
    case (Some pos)
    have "pos \<le> length (readable b)" using find_sub_Some_bound [OF Some] by simp
    then have line: "substr 0 pos (readable c) = substr 0 pos (readable b)"
      and crlf: "find_sub CRLF (readable c) = Some pos"
      using assms(2) find_sub_append_Some [OF Some] by (simp_all add: extends_def substr_def)
    note b = assms(1) [unfolded parseRequestLine_def Let_def Some option.case]
    show ?thesis
    proof (cases "request_line (substr 0 pos (readable b)) r")
      case (Inr nr)
      then obtain n r2 where nr: "request_line (substr 0 pos (readable b)) r = Inr (n, r2)"
        by (cases nr) auto
      show ?thesis
        using b lim nr extends_Retrieve [OF assms(2)]
        unfolding parseRequestLine_def [of c] Let_def line crlf option.case
        by (cases n) (auto simp: rbind_Inr_conv)
    qed (use b lim in auto)
  qed
qed

text \<open>
  A stage that has found what it looked for finds it also with more bytes behind; one that asks for
  more can go on from where it stopped.
\<close>

lemma stage_ok:
  assumes "stage lookup fs b r = Inr (OK_REQUEST, b1, r1)" and "r_state r = CHECK_REQUESTLINE \<or> r_state r = CHECK_HEADER"
    and "extends b c w" and "length (readable c) < 2 ^ 31"
    and "r_state r = CHECK_REQUESTLINE \<longrightarrow> length (readable c) \<le> max_requestLine_len"
  shows "\<exists>c1. stage lookup fs c r = Inr (OK_REQUEST, c1, r1) \<and> extends b1 c1 w \<and>
    length (readable c1) \<le> length (readable c)"
  using assms parseRequestLine_cases [OF _ assms(3), of r OK_REQUEST b1 r1] header.run_ok [OF _ assms(3,4), of lookup r b1 r1]
  by (auto simp: stage_def)

lemma stage_state:
  assumes run: "stage lookup fs b r = Inr (AGAIN_REQUEST, b1, r1)" and ok: "buf_ok b"
    and nm: "\<not> (r_hasContentType r1 \<and> r_contentType r1 = Some MULTIPART)"
  shows "r_state r1 = CHECK_REQUESTLINE \<longleftrightarrow> r_state r = CHECK_REQUESTLINE"
  using run header_frame [OF ok, of lookup r b1 r1] parseRequestContent_state [OF _ nm ok]
    parseRequestLine_again [of b r b1 r1]
  by (cases "r_state r") (auto simp: stage_def frame_def)

lemma stage_again:
  assumes run: "stage lookup fs b r = Inr (AGAIN_REQUEST, b1, r1)"
    and ext: "extends b c w" "extends b1 c' w" and len: "length (readable c) < 2 ^ 31"
    and line: "r_state r = CHECK_REQUESTLINE \<longrightarrow> length (readable c) \<le> max_requestLine_len"
    and nm: "\<not> (r_hasContentType r1 \<and> r_contentType r1 = Some MULTIPART)"
  shows "r_state r1 = r_state r \<and> rsim (stage lookup fs c r) (stage lookup fs c' r1)"
proof -
  have ok: "buf_ok b" using ext(1) by (simp add: extends_def)
  show ?thesis
  proof (cases "r_state r")
    case CHECK_REQUESTLINE
    with run line parseRequestLine_cases [OF _ ext(1), of r AGAIN_REQUEST b1 r1] have "b1 = b" "r1 = r"
      by (auto simp: stage_def)
    with ext show ?thesis by (auto intro: stage_bsim extends_bsim)
  next
    case CHECK_HEADER
    with run have p: "parseRequestHeader lookup b r = Inr (AGAIN_REQUEST, b1, r1)" by (simp add: stage_def)
    have "r_state r1 = r_state r" using header_frame [OF ok p] by (simp add: frame_def)
    with CHECK_HEADER header.run_again [OF p ext len] show ?thesis by (simp add: stage_def)
  next
    case CHECK_CONTENT
    with run have p: "parseRequestContent fs b r = Inr (AGAIN_REQUEST, b1, r1)" by (simp add: stage_def)
    show ?thesis
      using CHECK_CONTENT parseRequestContent_state [OF p nm ok] parseRequestContent_again [OF p nm ext len]
      by (simp add: stage_def)
  qed (use run in \<open>simp add: stage_def\<close>)
qed

lemma parse_loop_segments:
  assumes "parse_loop lookup fs b r = Inr (b', r')" "r_retState r' = Some AGAIN_REQUEST"
    and "extends b c w" and ext': "extends b' c' w" and "length (readable c) < 2 ^ 31"
    and "r_state r = CHECK_REQUESTLINE \<longrightarrow> length (readable c) \<le> max_requestLine_len"
    and nm: "\<not> (r_hasContentType r' \<and> r_contentType r' = Some MULTIPART)"
  shows "psim (parse_loop lookup fs c r) (parse_loop lookup fs c' r')"
  using assms(1-3,5,6)
proof (induction "state_rank (r_state r)" arbitrary: b c r rule: less_induct)
  case less
  note ext = less.prems(3) and len = less.prems(4) and line = less.prems(5)
  show ?case
  proof (cases "r_state r = CHECK_DONE")
    case True
    with less.prems(1) have "b' = b" "r' = r" by (simp_all add: parse_loop_done)
    with ext ext' show ?thesis by (auto intro!: parse_loop_bsim elim: extends_bsim)
  next
    case False
    note eq = parse_loop_stage [OF False]
    obtain ret b1 r1 where p: "stage lookup fs b r = Inr (ret, b1, r1)"
      using less.prems(1) by (auto simp: eq rbind_Inr_conv)
    let ?r = "r1\<lparr>r_retState := Some OK_REQUEST, r_state := next_state (r_state r)\<rparr>"
    show ?thesis
    proof (cases "ret = OK_REQUEST")
      case True
      with less.prems(1) p have run: "parse_loop lookup fs b1 ?r = Inr (b', r')" by (simp add: eq)
      with less.prems(2) False have "r_state r = CHECK_REQUESTLINE \<or> r_state r = CHECK_HEADER"
        by (cases "r_state r") (auto simp: parse_loop_done)
      from stage_ok [OF p [unfolded True] this ext len line]
      obtain c1 where c1: "stage lookup fs c r = Inr (OK_REQUEST, c1, r1)" "extends b1 c1 w"
          "length (readable c1) \<le> length (readable c)" by blast
      have "psim (parse_loop lookup fs c1 ?r) (parse_loop lookup fs c' r')"
        by (rule less.hyps [OF _ run less.prems(2) c1(2)])
          (use c1(3) len False in \<open>cases "r_state r"; simp\<close>)+
      with c1(1) show ?thesis by (simp add: eq)
    next
      case no: False
      with less.prems(1,2) p have r': "b' = b1" "r' = set_ret (Some AGAIN_REQUEST) r1" and ret: "ret = AGAIN_REQUEST"
        by (auto simp: eq)
      have again: "r_state r1 = r_state r" "rsim (stage lookup fs c r) (stage lookup fs c' r1)"
        using stage_again [OF p [unfolded ret] ext _ len line, of c'] ext' nm r' by auto
      have "psim (parse_loop lookup fs c r) (parse_loop lookup fs c' r1)"
        using again False by (auto simp: parse_loop_stage parse_loop_bsim intro!: psim_bind)
      with False again(1) ext' r' show ?thesis by (simp add: parse_loop_set_ret extends_def)
    qed
  qed
qed

text \<open>How the network cuts a request into segments does not matter. If the parser, called on what has
  arrived, asks for more, then calling it again after \<open>w\<close> arrived gives what one call on
  everything would have given: the same answer, the same request, the same unread bytes. The
  exceptions the code makes are the hypotheses: the request-line limit counts everything that has
  arrived, and a multipart body restarts its end test.
\<close>

theorem segmentation_irrelevant:
  assumes "parseRequest lookup fs b r = Inr (AGAIN_REQUEST, b', r')"
    and "extends b c w" and "extends b' c' w"
    and "length (readable c) < 2 ^ 31"
    and "r_state r = CHECK_REQUESTLINE \<longrightarrow> length (readable c) \<le> max_requestLine_len"
    and "\<not> (r_hasContentType r' \<and> r_contentType r' = Some MULTIPART)"
  shows "rsim (parseRequest lookup fs c r) (parseRequest lookup fs c' r')"
proof -
  have "psim (parse_loop lookup fs c r) (parse_loop lookup fs c' r')"
    using assms(1) parse_loop_segments [OF _ _ assms(2-6)]
    by (auto simp: parseRequest_def rbind_Inr_conv split: option.splits)
  then show ?thesis
    unfolding parseRequest_def
    by (cases "parse_loop lookup fs c r") (auto simp: psim_def split: option.split)
qed

theorem segmentation_irrelevant_witness:
  "rsim (parseRequest (\<lambda>_. None) (\<lambda>_. Inr ()) (full_buffer (''GET /a HTTP/1.1'' @ CRLF @ ''Host: h'' @ CRLF @ CRLF)) new_request)
     (parseRequest (\<lambda>_. None) (\<lambda>_. Inr ()) (full_buffer (''Host: h'' @ CRLF @ CRLF))
        (snd (snd (projr (parseRequest (\<lambda>_. None) (\<lambda>_. Inr ())
           (full_buffer (''GET /a HTTP/1.1'' @ CRLF @ ''Ho'')) new_request)))))"
proof -
  let ?b = "full_buffer (''GET /a HTTP/1.1'' @ CRLF @ ''Ho'')"
  let ?p = "parseRequest (\<lambda>_. None) (\<lambda>_. Inr ()) ?b new_request"
  have "case ?p of
        Inl e \<Rightarrow> False
      | Inr (ret, b', r') \<Rightarrow> ret = AGAIN_REQUEST \<and> readable b' = ''Ho'' \<and> buf_ok b' \<and> \<not> r_hasContentType r'"
    by code_simp
  then obtain b' r' where p: "?p = Inr (AGAIN_REQUEST, b', r')"
    and b': "readable b' = ''Ho''" "buf_ok b'" and r': "\<not> r_hasContentType r'"
    by (auto split: sum.splits)
  have "rsim (parseRequest (\<lambda>_. None) (\<lambda>_. Inr ())
        (full_buffer (''GET /a HTTP/1.1'' @ CRLF @ ''Host: h'' @ CRLF @ CRLF)) new_request)
      (parseRequest (\<lambda>_. None) (\<lambda>_. Inr ()) (full_buffer (''Host: h'' @ CRLF @ CRLF)) r')"
    by (rule segmentation_irrelevant [OF p, of _ "''st: h'' @ CRLF @ CRLF"])
      (use b' r' in \<open>simp_all add: extends_def max_requestLine_len_def\<close>)
  with p show ?thesis by simp
qed

end
