(* ===== verification/HttpRequestSpec.thy ===== *)
theory HttpRequestSpec
  imports HttpTurns
begin

text \<open>
  What the request parser does with the requests clients send: the request line, the header block,
  bodies with \<open>Content-Length\<close> and chunked bodies are read exactly; and where it misbehaves.
\<close>

section \<open>The request line\<close>

lemma find_sub_crlf:
  assumes "CR \<notin> set s"
  shows "find_sub CRLF (s @ CR # LF # t) = Some (length s)"
  using assms by (induction s) (auto split: if_splits)

lemma find_char_here: "c \<notin> set s \<Longrightarrow> find_char (\<lambda>d. d = c) (s @ c # t) = Some (length s)"
  using find_char_append [of s "\<lambda>d. d = c" c t] by blast

lemma method_line:
  "(m, mn) \<in> set HttpMethod2Str \<Longrightarrow>
   line_method (mn @ '' '' @ t) = Some (m, length mn + 1) \<and> CR \<notin> set mn"
  by (auto simp: HttpMethod2Str_def line_method_def compare_prefix_def)

lemma version_line: "(v, vn) \<in> set HttpVersion2Str \<Longrightarrow> line_version vn = Some v \<and> length vn = 8 \<and> CR \<notin> set vn"
  by (auto simp: HttpVersion2Str_def line_version_def)

lemma request_line_value:
  assumes "(m, mn) \<in> set HttpMethod2Str" and "(v, vn) \<in> set HttpVersion2Str"
    and "CHR '' '' \<notin> set u" and "url_state (new_url u True) = PARSE_SUCCESS"
  shows "request_line (mn @ '' '' @ u @ '' '' @ vn) r =
     Inr (Some (length mn + 1 + (length u + 1) + 10),
          r\<lparr>r_method := Some m, r_url := new_url u True, r_version := v\<rparr>)"
  using method_line [OF assms(1), of "u @ '' '' @ vn"] version_line [OF assms(2)]
    find_char_here [OF assms(3), of vn] assms(4)
  by (simp add: request_line_def remove_prefix_def Let_def)

lemma drop_line: "drop (length s + 2) (s @ CR # LF # t) = t"
  by simp

lemma parseRequestLine_value:
  assumes "(m, mn) \<in> set HttpMethod2Str" and "(v, vn) \<in> set HttpVersion2Str"
    and "CHR '' '' \<notin> set u" and "CR \<notin> set u" and "url_state (new_url u True) = PARSE_SUCCESS"
    and "buf_ok b" and "readable b = mn @ '' '' @ u @ '' '' @ vn @ CRLF @ rest"
    and "length (readable b) \<le> max_requestLine_len"
  shows "\<exists>b'. parseRequestLine b r =
       Inr (OK_REQUEST, b', r\<lparr>r_method := Some m, r_url := new_url u True, r_version := v\<rparr>) \<and>
     buf_ok b' \<and> readable b' = rest"
proof -
  let ?line = "mn @ '' '' @ u @ '' '' @ vn"
  have rd: "readable b = ?line @ CR # LF # rest" using assms(7) by simp
  have cr: "CR \<notin> set ?line" using method_line [OF assms(1)] version_line [OF assms(2)] assms(4) by auto
  have len: "\<not> max_requestLine_len < ReadableBytes b"
    using assms(6,8) by (simp add: not_less)
  have n: "length mn + 1 + (length u + 1) + 10 = length ?line + 2"
    using version_line [OF assms(2)] by simp
  have "\<exists>b'. Retrieve (length ?line + 2) b = Inr b' \<and> buf_ok b' \<and> readable b' = drop (length ?line + 2) (readable b)"
    by (rule Retrieve_cases [OF assms(6)]) (simp add: rd)
  then obtain b' where b': "Retrieve (length ?line + 2) b = Inr b'" "buf_ok b'" "readable b' = rest"
    using drop_line [of ?line rest] unfolding rd by metis
  have "substr 0 (length ?line) (readable b) = ?line" by (simp add: substr_def rd)
  then have "parseRequestLine b r =
      rbind (request_line ?line r) (\<lambda>(n, r').
               case n of
                 None \<Rightarrow> Inr (BAD_REQUEST, b, r')
               | Some i \<Rightarrow> rbind (Retrieve i b) (\<lambda>b'. Inr (OK_REQUEST, b', r')))"
    using len find_sub_crlf [OF cr, of rest] by (simp add: parseRequestLine_def Let_def rd del: append_assoc)
  also have "\<dots> = Inr (OK_REQUEST, b', r\<lparr>r_method := Some m, r_url := new_url u True, r_version := v\<rparr>)"
    unfolding request_line_value [OF assms(1,2,3,5)] n using b'(1) by simp
  finally show ?thesis using b' by blast
qed

section \<open>The header block\<close>

definition header_text :: "string \<times> string \<Rightarrow> string" where
  "header_text kv = fst kv @ '': '' @ snd kv @ CRLF"

definition line_ok :: "string \<times> string \<Rightarrow> bool" where
  "line_ok kv \<longleftrightarrow> CHR '':'' \<notin> set (fst kv) \<and> CR \<notin> set (fst kv) \<and> CR \<notin> set (snd kv) \<and>
     (snd kv = [] \<or> hd (snd kv) \<noteq> CHR '' '')"

lemma header_line_value:
  assumes "line_ok (k, v)"
  shows "header_line (k @ '': '' @ v) = Some (k, v)"
proof -
  have colon: "find_char (\<lambda>c. c = CHR '':'') (k @ '': '' @ v) = Some (length k)"
    using find_char_here [of "CHR '':''" k "'' '' @ v"] assms by (simp add: line_ok_def)
  have "find_char (\<lambda>c. c \<noteq> CHR '' '') ('' '' @ v) = (if v = [] then None else Some 1)"
    using assms by (cases v) (auto simp: line_ok_def)
  then have "header_value (length k) (k @ '': '' @ v) = v"
    by (auto simp: header_value_def find_char_from_def)
  with colon show ?thesis by (simp add: header_line_def)
qed

lemma header_size_fold:
  "header_size (foldl (\<lambda>h (k, v). header_add k v h) h hs) =
   header_size h + sum_list (map (\<lambda>(k, v). length k + length v) hs)"
  by (induction hs arbitrary: h) (auto simp: header_add_def header_size_def)

lemma header_block:
  assumes "\<forall>kv \<in> set hs. line_ok kv" and "buf_ok b"
    and "readable b = concat (map header_text hs) @ CRLF @ rest"
    and "header_size (foldl (\<lambda>h (k, v). header_add k v h) (r_header r) hs) \<le> max_requestHeader_len"
  shows "\<exists>b'. buf_ok b' \<and> readable b' = rest \<and>
     parseRequestHeader lookup b r =
       rbind (header_done lookup (r\<lparr>r_header := foldl (\<lambda>h (k, v). header_add k v h) (r_header r) hs\<rparr>))
         (\<lambda>r'. Inr (OK_REQUEST, b', r'))"
  using assms
proof (induction hs arbitrary: b r)
  case Nil
  have "header_turn lookup (readable b) r = Finish (header_done lookup r)"
    using Nil.prems(3) by (simp add: header_turn_def)
  from header.finish [OF Nil.prems(2) this] obtain b' where "buf_ok b'" "readable b' = drop 2 (readable b)"
    "parseRequestHeader lookup b r = rbind (header_done lookup r) (\<lambda>r'. Inr (OK_REQUEST, b', r'))" by metis
  then show ?case using Nil.prems(3) by (intro exI [of _ b']) simp
next
  case (Cons kv hs)
  obtain k v where kv: "kv = (k, v)" by (cases kv)
  let ?line = "k @ '': '' @ v"
  let ?rest = "concat (map header_text hs) @ CRLF @ rest"
  let ?r = "r\<lparr>r_header := header_add k v (r_header r)\<rparr>"
  have ok: "line_ok (k, v)" using Cons.prems(1) kv by simp
  then have cr: "CR \<notin> set ?line" by (simp add: line_ok_def)
  have rd: "readable b = ?line @ CR # LF # ?rest"
    using Cons.prems(3) by (simp add: kv header_text_def [of "(k, v)"])
  then have ne: "readable b \<noteq> []" by simp
  have start: "take 2 (readable b) \<noteq> CRLF"
    using ok unfolding rd by (cases k) (auto simp: line_ok_def)
  have f: "find_sub CRLF (readable b) = Some (length ?line)" unfolding rd by (rule find_sub_crlf [OF cr])
  have "take (length ?line) (readable b) = ?line" unfolding rd by simp
  then have "header_line (take (length ?line) (readable b)) = Some (k, v)"
    using header_line_value [OF ok] by simp
  moreover have "\<not> max_requestHeader_len < header_size (r_header r)"
    using Cons.prems(4) header_size_fold [of "header_add k v (r_header r)" hs]
    by (simp add: kv header_size_def header_add_def)
  ultimately have "header_turn lookup (readable b) r = Go (length ?line + 2) ?r"
    using start f ne unfolding header_turn_go by blast
  from header.go [OF Cons.prems(2) this] obtain b1 where b1: "buf_ok b1"
      "readable b1 = drop (length ?line + 2) (readable b)"
      "parseRequestHeader lookup b r = parseRequestHeader lookup b1 ?r" by metis
  have "readable b1 = ?rest" unfolding b1(2) rd by (rule drop_line)
  with b1(1,3) Cons.IH [of b1 ?r] Cons.prems(1,4) kv show ?case by simp
qed

lemma header_done_plain:
  assumes "header_get ''Cookie'' (r_header r) = None"
    and "header_get ''Transfer-Encoding'' (r_header r) = None"
    and "header_get ''Content-Type'' (r_header r) = None"
    and "header_get ''Content-Length'' (r_header r) = Some (nat_to_string n)" "n < 2 ^ 64"
    and "sessionId (r_cookie r) = []"
  shows "header_done lookup r =
     Inr ((parseAcceptEncoding (parseKeepAlive r))
       \<lparr>r_hasContentLength := True, r_contentLength := Some n, r_session := None\<rparr>)"
proof -
  let ?r = "parseAcceptEncoding (parseKeepAlive r)"
  have keep: "r_header ?r = r_header r" "r_cookie ?r = r_cookie r"
    by (auto simp: parseAcceptEncoding_def parseKeepAlive_def Let_def split: option.split)
  with assms show ?thesis
    by (simp add: header_done_def parseContentType_def parseCookies_def parseContentLength_def
        stoul_nat_to_string parseTransferEncoding_def parseSession_def)
qed

section \<open>A whole request\<close>

definition request_text ::
  "string \<Rightarrow> string \<Rightarrow> string \<Rightarrow> (string \<times> string) list \<Rightarrow> string \<Rightarrow> string" where
  "request_text mn u vn hs body =
     mn @ '' '' @ u @ '' '' @ vn @ CRLF @ concat (map header_text hs) @ CRLF @ body"

lemma content_length_body:
  assumes "\<not> r_hasTransferEncoding r" "r_hasContentLength r" "r_contentLength r = Some (length body)"
    and "r_body r = []" "\<not> r_hasContentType r" "buf_ok b" "readable b = body @ rest"
  shows "\<exists>b'. buf_ok b' \<and> readable b' = rest \<and>
     parseRequestContent fs b r = Inr (OK_REQUEST, b', r\<lparr>r_body := body\<rparr>)"
proof -
  have le: "length body \<le> length (readable b)" using assms(7) by simp
  obtain b' where b': "Retrieve (length body) b = Inr b'" "buf_ok b'" "readable b' = rest"
    using Retrieve_cases [OF assms(6) le] assms(7) by auto
  have "length body \<le> ReadableBytes b" using le assms(6) by simp
  then have pk: "peek_bytes (length body) b = body"
    using assms(7) by (simp add: peek_bytes_def readable_def min_def)
      (metis append_eq_conv_conj take_take min.absorb1)
  show ?thesis
    using assms(1-5) b' pk \<open>length body \<le> ReadableBytes b\<close>
    by (simp add: parseRequestContent_def parse_body_def Let_def)
qed

lemma parse_loop_request_line:
  assumes "r_state r = CHECK_REQUESTLINE" and "parseRequestLine b r = Inr (OK_REQUEST, b', r')"
  shows "parse_loop lookup fs b r =
     parse_loop lookup fs b' (r'\<lparr>r_retState := Some OK_REQUEST, r_state := CHECK_HEADER\<rparr>)"
  using assms by (simp add: parse_loop.simps [of lookup fs b r])

text \<open>The request line and the header are read, and the body is parsed next.\<close>

lemma request_head_parsed:
  fixes fs :: "string \<Rightarrow> 'j res"
  defines "r1 m u v hs \<equiv> (new_request :: 'j http_request)\<lparr>r_method := Some m, r_url := new_url u True, r_version := v,
      r_retState := Some OK_REQUEST, r_state := CHECK_HEADER,
      r_header := foldl (\<lambda>h (k, v). header_add k v h) new_header hs\<rparr>"
  assumes line: "(m, mn) \<in> set HttpMethod2Str" "(v, vn) \<in> set HttpVersion2Str"
      "CHR '' '' \<notin> set u" "CR \<notin> set u" "url_state (new_url u True) = PARSE_SUCCESS"
    and hs: "\<forall>kv \<in> set hs. line_ok kv"
      "header_size (foldl (\<lambda>h (k, v). header_add k v h) new_header hs) \<le> max_requestHeader_len"
    and buf: "buf_ok b" "readable b = request_text mn u vn hs body @ rest"
      "length (readable b) \<le> max_requestLine_len"
  shows "\<exists>b'. buf_ok b' \<and> readable b' = body @ rest \<and>
     parse_loop lookup fs b new_request =
       rbind (header_done lookup (r1 m u v hs)) (\<lambda>r'.
         parse_loop lookup fs b' (r'\<lparr>r_retState := Some OK_REQUEST, r_state := CHECK_CONTENT\<rparr>))"
proof -
  let ?r1 = "(new_request :: 'j http_request)\<lparr>r_method := Some m, r_url := new_url u True, r_version := v\<rparr>"
  let ?r2 = "?r1\<lparr>r_retState := Some OK_REQUEST, r_state := CHECK_HEADER\<rparr>"
  obtain b1 where b1: "parseRequestLine b new_request = Inr (OK_REQUEST, b1, ?r1)" "buf_ok b1"
      "readable b1 = concat (map header_text hs) @ CRLF @ (body @ rest)"
    using parseRequestLine_value [OF line buf(1) _ buf(3), of _ new_request] buf(2)
    by (fastforce simp: request_text_def)
  obtain b2 where b2: "buf_ok b2" "readable b2 = body @ rest"
      "parseRequestHeader lookup b1 ?r2 =
        rbind (header_done lookup (r1 m u v hs)) (\<lambda>r'. Inr (OK_REQUEST, b2, r'))"
    using header_block [OF hs(1) b1(2,3), of ?r2 lookup] hs(2) by (auto simp: r1_def new_request_def)
  have "parse_loop lookup fs b new_request = parse_loop lookup fs b1 ?r2"
    using b1(1) by (intro parse_loop_request_line) (simp_all add: new_request_def)
  also have "\<dots> = rbind (header_done lookup (r1 m u v hs)) (\<lambda>r'.
         parse_loop lookup fs b2 (r'\<lparr>r_retState := Some OK_REQUEST, r_state := CHECK_CONTENT\<rparr>))"
    using b2(3) by (cases "header_done lookup (r1 m u v hs)") (simp_all add: parse_loop.simps [of lookup fs b1])
  finally show ?thesis using b2(1,2) by blast
qed

text \<open>A request without a body.\<close>

lemma header_done_bare:
  assumes "\<forall>k \<in> {''Transfer-Encoding'', ''Content-Type'', ''Content-Length''}. header_get k (r_header r) = None"
    and "case header_get ''Cookie'' (r_header r) of None \<Rightarrow> ck = r_cookie r | Some v \<Rightarrow> parse_cookie v = Inr ck"
  shows "\<exists>r'. header_done lookup r = Inr r' \<and> r_cookie r' = ck \<and>
     r_session r' = (if sessionId ck = [] then None else lookup (sessionId ck)) \<and>
     r_hasTransferEncoding r' = r_hasTransferEncoding r \<and> r_hasContentLength r' = r_hasContentLength r \<and>
     r_method r' = r_method r \<and> r_url r' = r_url r \<and> r_version r' = r_version r"
proof -
  let ?r = "parseAcceptEncoding (parseKeepAlive r)"
  have keep: "r_header ?r = r_header r" "r_cookie ?r = r_cookie r" "r_hasTransferEncoding ?r = r_hasTransferEncoding r"
      "r_hasContentLength ?r = r_hasContentLength r" "r_method ?r = r_method r" "r_url ?r = r_url r" "r_version ?r = r_version r"
    by (auto simp: parseAcceptEncoding_def parseKeepAlive_def Let_def split: option.split)
  with assms show ?thesis
    by (cases "header_get ''Cookie'' (r_header r)")
      (auto simp: header_done_def parseContentType_def parseCookies_def parseContentLength_def
        parseTransferEncoding_def parseSession_def Let_def split: option.split)
qed

lemma bodyless_request_parsed:
  fixes hs :: "(string \<times> string) list" and fs :: "string \<Rightarrow> 'j res"
  defines "h \<equiv> foldl (\<lambda>h (k, v). header_add k v h) new_header hs"
  assumes line: "(m, mn) \<in> set HttpMethod2Str" "(v, vn) \<in> set HttpVersion2Str"
      "CHR '' '' \<notin> set u" "CR \<notin> set u" "url_state (new_url u True) = PARSE_SUCCESS" "m = GET \<or> m = HEAD"
    and hs: "\<forall>kv \<in> set hs. line_ok kv" "header_size h \<le> max_requestHeader_len"
      "\<forall>k \<in> {''Transfer-Encoding'', ''Content-Type'', ''Content-Length''}. header_get k h = None"
      "case header_get ''Cookie'' h of None \<Rightarrow> ck = empty_cookie | Some v \<Rightarrow> parse_cookie v = Inr ck"
    and buf: "buf_ok b" "readable b = request_text mn u vn hs [] @ rest"
      "length (readable b) \<le> max_requestLine_len"
  shows "\<exists>b' r'. parseRequest lookup fs b new_request = Inr (OK_REQUEST, b', r') \<and>
     buf_ok b' \<and> readable b' = rest \<and> r_url r' = new_url u True \<and> r_version r' = v \<and>
     r_cookie r' = ck \<and> r_session r' = (if sessionId ck = [] then None else lookup (sessionId ck))"
proof -
  let ?r3 = "(new_request :: 'j http_request)\<lparr>r_method := Some m, r_url := new_url u True, r_version := v,
      r_retState := Some OK_REQUEST, r_state := CHECK_HEADER, r_header := h\<rparr>"
  obtain b2 where b2: "buf_ok b2" "readable b2 = rest" "parse_loop lookup fs b new_request =
       rbind (header_done lookup ?r3) (\<lambda>r'.
         parse_loop lookup fs b2 (r'\<lparr>r_retState := Some OK_REQUEST, r_state := CHECK_CONTENT\<rparr>))"
    using request_head_parsed [OF line(1-5) hs(1) _ buf, of lookup fs] hs(2) by (auto simp: h_def)
  have ck: "case header_get ''Cookie'' (r_header ?r3) of None \<Rightarrow> ck = r_cookie ?r3 | Some v \<Rightarrow> parse_cookie v = Inr ck"
    using hs(4) by (cases "header_get ''Cookie'' h") (simp_all add: new_request_def)
  obtain r4 where r4: "header_done lookup ?r3 = Inr r4" "r_cookie r4 = ck"
      "r_session r4 = (if sessionId ck = [] then None else lookup (sessionId ck))"
      "\<not> r_hasTransferEncoding r4" "\<not> r_hasContentLength r4" "r_method r4 = Some m" "r_url r4 = new_url u True" "r_version r4 = v"
    using header_done_bare [of ?r3 ck lookup] hs(3) ck by (auto simp: new_request_def)
  let ?r5 = "r4\<lparr>r_retState := Some OK_REQUEST, r_state := CHECK_CONTENT\<rparr>"
  have "parseRequestContent fs b2 ?r5 = Inr (OK_REQUEST, b2, ?r5)"
    using r4(4-6) line(6) by (simp add: parseRequestContent_def)
  then have "parseRequest lookup fs b new_request =
      Inr (OK_REQUEST, b2, ?r5\<lparr>r_retState := Some OK_REQUEST, r_state := CHECK_DONE\<rparr>)"
    using b2(3) r4(1) by (simp add: parseRequest_def parse_loop.simps [of lookup fs b2])
  then show ?thesis using b2(1,2) r4 by auto
qed



section \<open>Chunked bodies\<close>

text \<open>A chunk as \<open>int2HexString\<close> announces it (the size in base 10), and the closing empty chunk.\<close>

definition chunk_text :: "string \<Rightarrow> string" where
  "chunk_text d = int2HexString (int (length d)) @ CRLF @ d @ CRLF"

definition chunks_text :: "string list \<Rightarrow> string" where
  "chunks_text ds = concat (map chunk_text ds) @ ''0'' @ CRLF @ CRLF"

definition chunk_ok :: "string \<Rightarrow> bool" where
  "chunk_ok d \<longleftrightarrow> d \<noteq> [] \<and> length d < 100000"

lemma length_int2HexString: "n < 10 ^ k \<Longrightarrow> length (int2HexString (int n)) \<le> k"
proof (induction k arbitrary: n)
  case 0
  then show ?case by simp
next
  case (Suc k)
  show ?case
  proof (cases "n = 0")
    case False
    from Suc.prems have "n div 10 < 10 ^ k" by (simp add: div_less_iff_less_mult mult.commute)
    from Suc.IH [OF this] False show ?thesis by (simp add: int2HexString_step)
  qed simp
qed

lemma hexString2Int_size:
  assumes "n < 100000"
  shows "hexString2Int (int2HexString (int n)) = Inr (int n)"
proof -
  have "\<forall>c \<in> set (int2HexString (int n)). isxdigit c"
    using int2HexString_digits by (auto simp: isxdigit_def)
  with assms show ?thesis
    by (simp add: hexString2Int_value base10_hex_int2HexString)
qed

lemma chunk_size_turn:
  assumes "r_chunkedState r = NO_LEN" and "CR \<notin> set s" and "length s \<le> chunk_size_str_limit"
    and "hexString2Int s = Inr n" "n \<noteq> - 1" and "buf_ok b" "readable b = s @ CRLF @ t"
  shows "\<exists>b'. buf_ok b' \<and> readable b' = t \<and>
     parseChunked b r =
       parseChunked b' (r\<lparr>r_chunk_size := n, r_chunkedState := (if n = 0 then DONE else NO_DATA)\<rparr>)"
proof -
  have "take (chunk_size_str_limit + 2) (readable b) =
      s @ CR # LF # take (chunk_size_str_limit - length s) t"
    using assms(3,7) by (simp add: take_append Suc_diff_le)
  then have "find_sub CRLF (take (chunk_size_str_limit + 2) (readable b)) = Some (length s)"
    using find_sub_crlf [OF assms(2)] by simp
  then have "chunk_turn (readable b) r =
      Go (length s + 2) (r\<lparr>r_chunk_size := n, r_chunkedState := (if n = 0 then DONE else NO_DATA)\<rparr>)"
    using assms(1,3-5,7) by (simp add: chunk_turn_def)
  from chunks.go [OF assms(6) this] obtain b' where "buf_ok b'" "readable b' = drop (length s + 2) (readable b)"
    "parseChunked b r = parseChunked b' (r\<lparr>r_chunk_size := n, r_chunkedState := (if n = 0 then DONE else NO_DATA)\<rparr>)"
    by metis
  then show ?thesis using drop_line [of s t] assms(7) by (intro exI [of _ b']) simp
qed

lemma chunk_data_turn:
  assumes "r_chunkedState r = NO_DATA" and "r_chunk_size r = int (length d)"
    and "buf_ok b" "readable b = d @ CRLF @ t" "length (readable b) < 2 ^ 31"
  shows "\<exists>b'. buf_ok b' \<and> readable b' = t \<and>
     parseChunked b r = parseChunked b' (r\<lparr>r_body := r_body r @ d, r_chunkedState := NO_LEN\<rparr>)"
proof -
  have "\<not> to_int32 (length (readable b)) < r_chunk_size r + 2"
    using assms(2,4,5) by simp
  then have "chunk_turn (readable b) r =
      Go (length d + 2) (r\<lparr>r_body := r_body r @ d, r_chunkedState := NO_LEN\<rparr>)"
    using assms(1,2,4) by (simp add: chunk_turn_def substr_def)
  from chunks.go [OF assms(3) this] obtain b' where "buf_ok b'" "readable b' = drop (length d + 2) (readable b)"
    "parseChunked b r = parseChunked b' (r\<lparr>r_body := r_body r @ d, r_chunkedState := NO_LEN\<rparr>)" by metis
  then show ?thesis using drop_line [of d t] assms(4) by (intro exI [of _ b']) simp
qed

lemma chunks_decoded:
  assumes "\<forall>d \<in> set ds. chunk_ok d" and "r_chunkedState r = NO_LEN"
    and "buf_ok b" "readable b = chunks_text ds @ rest" "length (readable b) < 2 ^ 31"
  shows "\<exists>b' r'. parseChunked b r = Inr (OK_REQUEST, b', r') \<and> buf_ok b' \<and> readable b' = rest \<and>
     r_body r' = r_body r @ concat ds"
  using assms
proof (induction ds arbitrary: b r)
  case Nil
  have z: "hexString2Int ''0'' = Inr 0" by code_simp
  obtain b1 where b1: "buf_ok b1" "readable b1 = CRLF @ rest"
      "parseChunked b r = parseChunked b1 (r\<lparr>r_chunk_size := 0, r_chunkedState := DONE\<rparr>)"
    using chunk_size_turn [OF Nil.prems(2), of "''0''" 0 b "CRLF @ rest"] z Nil.prems(3,4)
    by (auto simp: chunks_text_def chunk_size_str_limit_def)
  have "chunk_turn (readable b1) (r\<lparr>r_chunk_size := 0, r_chunkedState := DONE\<rparr>) =
      Finish (Inr (r\<lparr>r_chunk_size := 0, r_chunkedState := DONE\<rparr>))"
    using b1(2) by (simp add: chunk_turn_def)
  from chunks.finish [OF b1(1) this] obtain b2 where "buf_ok b2" "readable b2 = drop 2 (readable b1)"
    "parseChunked b1 (r\<lparr>r_chunk_size := 0, r_chunkedState := DONE\<rparr>) =
      Inr (OK_REQUEST, b2, r\<lparr>r_chunk_size := 0, r_chunkedState := DONE\<rparr>)" by (metis rbind_simps(2))
  then show ?case using b1(2,3) by (intro exI [of _ b2]) simp
next
  case (Cons d ds)
  let ?s = "int2HexString (int (length d))"
  have d: "d \<noteq> []" "length d < 100000" using Cons.prems(1) by (auto simp: chunk_ok_def)
  have rd: "readable b = ?s @ CRLF @ d @ CRLF @ chunks_text ds @ rest"
    using Cons.prems(4) by (simp add: chunks_text_def chunk_text_def)
  have cr: "CR \<notin> set ?s" using int2HexString_digits [of CR "length d"] by (auto simp: isdigit_def)
  have len: "length ?s \<le> chunk_size_str_limit"
    using length_int2HexString [of "length d" 5] d(2) by (simp add: chunk_size_str_limit_def)
  obtain b1 where b1: "buf_ok b1" "readable b1 = d @ CRLF @ chunks_text ds @ rest"
      "parseChunked b r = parseChunked b1 (r\<lparr>r_chunk_size := int (length d), r_chunkedState := NO_DATA\<rparr>)"
    using chunk_size_turn [OF Cons.prems(2) cr len hexString2Int_size [OF d(2)] _ Cons.prems(3) rd] d(1)
    by auto
  let ?r = "r\<lparr>r_chunk_size := int (length d), r_body := r_body r @ d, r_chunkedState := NO_LEN\<rparr>"
  have "length (readable b1) < 2 ^ 31" using Cons.prems(5) unfolding rd b1(2) by simp
  then obtain b2 where b2: "buf_ok b2" "readable b2 = chunks_text ds @ rest" "parseChunked b r = parseChunked b2 ?r"
    using chunk_data_turn [of "r\<lparr>r_chunk_size := int (length d), r_chunkedState := NO_DATA\<rparr>" d b1, OF _ _ b1(1,2)]
      b1(3) by auto
  have "length (readable b2) < 2 ^ 31" using Cons.prems(5) unfolding rd b2(2) by simp
  with Cons.IH [of ?r b2] Cons.prems(1) b2 show ?case by auto
qed



section \<open>Requests that are not served as they should\<close>

text \<open>The limit on the request line is compared with everything that has arrived: a request with a
  short line and a large header or body is rejected when its first segment has more than 2048 bytes.
\<close>

theorem large_first_segment_rejected:
  assumes "buf_ok b" and "max_requestLine_len < length (readable b)" and "r_state r = CHECK_REQUESTLINE"
  shows "parseRequest lookup fs b r = Inr (BAD_REQUEST, b, r\<lparr>r_retState := Some BAD_REQUEST\<rparr>)"
  using assms by (simp add: parseRequest_def parse_loop.simps [of lookup fs b r] parseRequestLine_def)

theorem large_first_segment_rejected_witness:
  "parseRequest (\<lambda>_. None) (\<lambda>_. Inr ())
     (full_buffer (request_text ''POST'' ''/'' ''HTTP/1.1'' [(''Content-Length'', ''2100'')] (replicate 2100 (CHR ''x''))))
     new_request =
   Inr (BAD_REQUEST,
     full_buffer (request_text ''POST'' ''/'' ''HTTP/1.1'' [(''Content-Length'', ''2100'')] (replicate 2100 (CHR ''x''))),
     new_request\<lparr>r_retState := Some BAD_REQUEST\<rparr>)"
  by (rule large_first_segment_rejected)
    (simp_all add: max_requestLine_len_def request_text_def new_request_def)

text \<open>A header line without a space after the colon whose value contains a space loses the value up to
  that space, although the code says it handles a missing space.
\<close>

theorem header_value_without_space_cut:
  assumes "CHR '':'' \<notin> set k" and "CHR '' '' \<notin> set a" and "v = [] \<or> hd v \<noteq> CHR '' ''"
  shows "header_line (k @ '':'' @ a @ '' '' @ v) = Some (k, v)"
proof -
  have colon: "find_char (\<lambda>c. c = CHR '':'') (k @ '':'' @ a @ '' '' @ v) = Some (length k)"
    using find_char_here [of "CHR '':''" k "a @ '' '' @ v"] assms(1) by simp
  have sp: "find_char (\<lambda>c. c = CHR '' '') ('':'' @ a @ '' '' @ v) = Some (length a + 1)"
    using find_char_here [of "CHR '' ''" "'':'' @ a" v] assms(2) by simp
  have "find_char (\<lambda>c. c \<noteq> CHR '' '') ('' '' @ v) = (if v = [] then None else Some 1)"
    using assms(3) by (cases v) auto
  with sp have "header_value (length k) (k @ '':'' @ a @ '' '' @ v) = v"
    by (auto simp: header_value_def find_char_from_def)
  with colon show ?thesis by (simp add: header_line_def)
qed

theorem header_value_without_space_cut_witness:
  "header_line (''User-Agent'' @ '':'' @ ''curl/8.0'' @ '' '' @ ''(x)'') = Some (''User-Agent'', ''(x)'')"
  by (rule header_value_without_space_cut) simp_all

text \<open>Chunk sizes written in hexadecimal, as the protocol prescribes, are misread from 16 on: a chunk
  of 16 bytes announced as \<open>10\<close> makes the request bad.
\<close>

theorem hexadecimal_chunk_rejected:
  assumes "r_chunkedState r = NO_LEN" and "length d = 16" and "substr 10 2 d \<noteq> CRLF"
    and "buf_ok b" and "readable b = ''10'' @ CRLF @ d @ CRLF @ rest" and "length (readable b) < 2 ^ 31"
  shows "\<exists>b' r'. parseChunked b r = Inr (BAD_REQUEST, b', r')"
proof -
  have n: "hexString2Int ''10'' = Inr 10" by code_simp
  let ?r = "r\<lparr>r_chunk_size := 10, r_chunkedState := NO_DATA\<rparr>"
  obtain b1 where b1: "buf_ok b1" "readable b1 = d @ CRLF @ rest" "parseChunked b r = parseChunked b1 ?r"
    using chunk_size_turn [OF assms(1) _ _ n _ assms(4,5)] by (auto simp: chunk_size_str_limit_def)
  have "length (readable b1) < 2 ^ 31" using assms(5,6) b1(2) by simp
  moreover have "substr 10 2 (readable b1) \<noteq> CRLF"
    using assms(2,3) b1(2) by (simp add: substr_def)
  ultimately have "chunk_turn (readable b1) ?r = Answer BAD_REQUEST ?r"
    using b1(2) assms(2) by (simp add: chunk_turn_def)
  with b1(3) chunks.run_turn [OF b1(1), of ?r] show ?thesis by simp
qed

theorem hexadecimal_chunk_rejected_witness:
  "\<exists>b' r'. parseChunked (full_buffer (''10'' @ CRLF @ ''0123456789abcdef'' @ CRLF @ ''0''))
     (new_request :: unit http_request) = Inr (BAD_REQUEST, b', r')"
  by (rule hexadecimal_chunk_rejected [OF _ _ _ _ full_buffer_simps(2)])
    (simp_all add: new_request_def substr_def)

text \<open>Nothing sets the boundary of the multipart parser, so it stays empty, and an upload with a real
  boundary never completes: once its body is in, every further call asks for more, whatever arrives.
\<close>

theorem multipart_upload_never_completes:
  assumes "r_hasContentType r" "r_contentType r = Some MULTIPART" "bd (r_multipart r) = []"
    and "\<not> r_hasTransferEncoding r" "r_hasContentLength r" "r_contentLength r = Some (length (r_body r))"
    and "length (r_body r) > 6" "\<not> ends_with (''----'' @ CRLF) (r_body r)"
    and "buf_ok b"
  shows "\<exists>b'. parseRequestContent fs b r = Inr (AGAIN_REQUEST, b', r) \<and> readable b' = readable b"
proof -
  obtain b' where b': "Retrieve 0 b = Inr b'" "readable b' = readable b"
    using Retrieve_cases [OF assms(9), of 0] by auto
  with assms show ?thesis
    by (simp add: parseRequestContent_def parse_body_def multipart_eob_def peek_bytes_def Let_def)
qed

theorem multipart_upload_never_completes_witness:
  "\<exists>b'. parseRequestContent (\<lambda>_. Inr ()) (full_buffer ''more'')
      (new_request\<lparr>r_hasContentType := True, r_contentType := Some MULTIPART,
         r_hasContentLength := True, r_contentLength := Some 14, r_body := ''--XX--data--XX''\<rparr>) =
    Inr (AGAIN_REQUEST, b', new_request\<lparr>r_hasContentType := True, r_contentType := Some MULTIPART,
         r_hasContentLength := True, r_contentLength := Some 14, r_body := ''--XX--data--XX''\<rparr>) \<and>
    readable b' = readable (full_buffer ''more'')"
  by (rule multipart_upload_never_completes)
    (simp_all add: new_request_def new_multipart_def ends_with_def)

end
