(* ===== verification/TimeStamp.thy ===== *)
theory TimeStamp
  imports Prelude
begin

text \<open>
  \<open>haha_web/base/TimeStamp.h\<close>: microseconds in a \<open>uint64_t\<close>. The operators change their left
  operand and wrap around; a product of \<open>int\<close> operands that does not fit is undefined. The clock
  is an argument.
\<close>

type_synonym timestamp = nat

definition MicroSecondsPerSecond :: nat where
  "MicroSecondsPerSecond = 1000 * 1000"

definition MicroSecondsPerMillSecond :: nat where
  "MicroSecondsPerMillSecond = 1000"

definition u64 :: "int \<Rightarrow> nat" where
  "u64 n = nat (n mod 2 ^ 64)"

definition int_mult :: "int \<Rightarrow> int \<Rightarrow> int res" where
  "int_mult a b = (if - (2 ^ 31) \<le> a * b \<and> a * b < 2 ^ 31 then Inr (a * b) else Inl Undefined)"

text \<open>The readings of a time stamp.\<close>

definition get_second :: "timestamp \<Rightarrow> nat" where
  "get_second t = t div MicroSecondsPerSecond"

definition get_millsecond :: "timestamp \<Rightarrow> nat" where
  "get_millsecond t = t div MicroSecondsPerMillSecond"

definition get_microsecond :: "timestamp \<Rightarrow> nat" where
  "get_microsecond t = t"

definition get_nanosecond :: "timestamp \<Rightarrow> nat" where
  "get_nanosecond t = u64 (int t * 1000)"

definition ts_add :: "timestamp \<Rightarrow> timestamp \<Rightarrow> timestamp" where
  "ts_add t s = u64 (int t + int s)"

definition ts_sub :: "timestamp \<Rightarrow> timestamp \<Rightarrow> timestamp" where
  "ts_sub t s = u64 (int t - int s)"

definition ts_add_sec :: "timestamp \<Rightarrow> int \<Rightarrow> timestamp res" where
  "ts_add_sec t sec = rbind (int_mult sec 1000000) (\<lambda>n. Inr (u64 (int t + n)))"

definition ts_sub_sec :: "timestamp \<Rightarrow> int \<Rightarrow> timestamp res" where
  "ts_sub_sec t sec = rbind (int_mult sec 1000000) (\<lambda>n. Inr (u64 (int t - n)))"

definition ts_less :: "timestamp \<Rightarrow> timestamp \<Rightarrow> bool" where
  "ts_less a b \<longleftrightarrow> a < b"

definition ts_le :: "timestamp \<Rightarrow> timestamp \<Rightarrow> bool" where
  "ts_le a b \<longleftrightarrow> a \<le> b"

text \<open>The named constructors.\<close>

definition of_second :: "int \<Rightarrow> timestamp res" where
  "of_second sec = rbind (int_mult sec 1000000) (\<lambda>n. Inr (u64 n))"

definition of_millsecond :: "int \<Rightarrow> timestamp res" where
  "of_millsecond msec = rbind (int_mult msec 1000) (\<lambda>n. Inr (u64 n))"

definition of_microsecond :: "int \<Rightarrow> timestamp" where
  "of_microsecond n = u64 n"

text \<open>The division truncates towards zero.\<close>

definition of_nanosecond :: "int \<Rightarrow> timestamp" where
  "of_nanosecond n = u64 (sgn n * (\<bar>n\<bar> div 1000))"

definition ts_max :: timestamp where
  "ts_max = 2 ^ 64 - 1"

definition nowSecond :: "timestamp \<Rightarrow> int \<Rightarrow> timestamp res" where
  "nowSecond now sec = rbind (of_second sec) (\<lambda>s. Inr (ts_add now s))"

definition nowMsecond :: "timestamp \<Rightarrow> int \<Rightarrow> timestamp res" where
  "nowMsecond now msec = rbind (of_millsecond msec) (\<lambda>s. Inr (ts_add now s))"

definition nowNanosecond :: "timestamp \<Rightarrow> int \<Rightarrow> timestamp" where
  "nowNanosecond now nsec = ts_add now (of_nanosecond nsec)"

lemma u64_small [simp]: "0 \<le> n \<Longrightarrow> n < 2 ^ 64 \<Longrightarrow> u64 n = nat n"
  by (simp add: u64_def)

lemma u64_less: "u64 n < 2 ^ 64"
proof -
  have "n mod 2 ^ 64 < 2 ^ 64" by (rule pos_mod_bound) simp
  then show ?thesis by (simp add: u64_def nat_less_iff)
qed

lemma of_second_ok: "0 \<le> sec \<Longrightarrow> sec \<le> 2147 \<Longrightarrow> of_second sec = Inr (nat sec * 1000000)"
  by (simp add: of_second_def int_mult_def nat_mult_distrib)

lemma of_second_overflow: "2147 < sec \<Longrightarrow> of_second sec = Inl Undefined"
  by (simp add: of_second_def int_mult_def)

lemma get_second_of_second:
  "0 \<le> sec \<Longrightarrow> sec \<le> 2147 \<Longrightarrow> of_second sec = Inr t \<Longrightarrow> get_second t = nat sec"
  by (auto simp: of_second_ok get_second_def MicroSecondsPerSecond_def)

lemma nowSecond_val:
  assumes "0 \<le> sec" "sec \<le> 2147" "now + nat sec * 1000000 < 2 ^ 64"
  shows "nowSecond now sec = Inr (now + nat sec * 1000000)"
proof -
  have "int now + int (nat sec * 1000000) = int (now + nat sec * 1000000)" by simp
  moreover have "int (now + nat sec * 1000000) < 2 ^ 64"
    using assms(3) by (simp only: of_nat_less_numeral_power_cancel_iff)
  ultimately have "u64 (int now + int (nat sec * 1000000)) = now + nat sec * 1000000"
    by (simp only: u64_small of_nat_0_le_iff nat_int)
  then show ?thesis using assms(1,2) by (simp add: nowSecond_def of_second_ok ts_add_def)
qed

text \<open>A deadline \<open>sec\<close> seconds from now is later than now by exactly that time, as long as the
  seconds stay within 35 minutes and the clock does not wrap.
\<close>

theorem nowSecond_exact:
  assumes "0 \<le> sec" "sec \<le> 2147" "now + nat sec * 1000000 < 2 ^ 64"
  shows "\<exists>t. nowSecond now sec = Inr t \<and> t = now + nat sec * 1000000 \<and>
     get_second t = get_second now + nat sec \<and> ts_le now t"
  using nowSecond_val [OF assms] by (simp add: get_second_def MicroSecondsPerSecond_def ts_le_def)

theorem nowSecond_exact_witness:
  "\<exists>t. nowSecond 1700000000000000 120 = Inr t \<and> t = 1700000000000000 + nat 120 * 1000000 \<and>
     get_second t = get_second 1700000000000000 + nat 120 \<and> ts_le 1700000000000000 t"
  by (rule nowSecond_exact) simp_all

text \<open>A configured timeout of more than 2147 seconds overflows an \<open>int\<close> product: undefined
  behaviour instead of a deadline.
\<close>

theorem nowSecond_overflow:
  assumes "2147 < sec"
  shows "nowSecond now sec = Inl Undefined"
  using assms by (simp add: nowSecond_def of_second_overflow)

theorem nowSecond_overflow_witness: "nowSecond 1700000000000000 3600 = Inl Undefined"
  by (rule nowSecond_overflow) simp

end
