(* ===== verification/TimerHeap.thy ===== *)
theory TimerHeap
  imports Prelude "HOL-Library.Multiset"
begin

text \<open>
  \<open>haha_web/net/TimerHeap.{h,cpp}\<close>: the binary heap of timers with the table \<open>ref_\<close> that records
  where the timer of a descriptor is. The heap is a list updated by index; every \<open>assert\<close> of the
  sources is a branch. A callback is a value of a type parameter, \<open>None\<close> the empty function.
\<close>

section \<open>State\<close>

record 'c timer =
  tm_fd :: int
  tm_expire :: nat
  tm_cb :: "'c option"

definition timer_less :: "'c timer \<Rightarrow> 'c timer \<Rightarrow> bool" where
  "timer_less a b \<longleftrightarrow> tm_expire a < tm_expire b"

record 'c timer_heap =
  heap :: "'c timer list"
  ref :: "int \<Rightarrow> nat option"
  threadId :: nat

definition new_timer_heap :: "nat \<Rightarrow> 'c timer_heap" where
  "new_timer_heap tid = \<lparr>heap = [], ref = (\<lambda>_. None), threadId = tid\<rparr>"

section \<open>Operations\<close>

definition SwapNode :: "nat \<Rightarrow> nat \<Rightarrow> 'c timer_heap \<Rightarrow> 'c timer_heap res" where
  "SwapNode i j h =
     (if \<not> (i < length (heap h) \<and> j < length (heap h)) then Inl Assertion
      else let xs = (heap h)[i := heap h ! j, j := heap h ! i]
           in Inr (h\<lparr>heap := xs, ref := (ref h)(tm_fd (xs ! i) \<mapsto> i, tm_fd (xs ! j) \<mapsto> j)\<rparr>))"

text \<open>
  \<open>int j = (i - 1) / 2\<close>, computed on \<open>size_t\<close> and narrowed to 32 bits: for \<open>i = 0\<close> it is \<open>-1\<close>.
\<close>

definition sift_parent :: "nat \<Rightarrow> int" where
  "sift_parent i =
     (int ((if i = 0 then 2 ^ 64 - 1 else i - 1) div 2) + 2 ^ 31) mod 2 ^ 32 - 2 ^ 31"

lemma sift_parent_less: "0 \<le> sift_parent i \<Longrightarrow> nat (sift_parent i) < i"
proof (cases "i = 0")
  case False
  have "(int ((i - 1) div 2) + 2 ^ 31) mod 2 ^ 32 \<le> int ((i - 1) div 2) + 2 ^ 31"
    by (rule zmod_le_nonneg_dividend) simp
  with False show ?thesis by (simp add: sift_parent_def)
qed (simp add: sift_parent_def)

lemma sift_parent_value: "i \<le> 2 ^ 31 \<Longrightarrow> sift_parent i = (if i = 0 then - 1 else int ((i - 1) div 2))"
  by (auto simp: sift_parent_def)

function siftup_loop :: "nat \<Rightarrow> 'c timer_heap \<Rightarrow> 'c timer_heap res" where
  "siftup_loop i h =
     (if sift_parent i < 0 then Inr h
      else let j = nat (sift_parent i)
           in if timer_less (heap h ! j) (heap h ! i) then Inr h
              else rbind (SwapNode i j h) (siftup_loop j))"
  by auto
termination
  by (relation "measure fst") (auto simp: sift_parent_less)

declare siftup_loop.simps [simp del]

definition siftup :: "nat \<Rightarrow> 'c timer_heap \<Rightarrow> 'c timer_heap res" where
  "siftup i h = (if \<not> i < length (heap h) then Inl Assertion else siftup_loop i h)"

function siftdown_loop :: "nat \<Rightarrow> nat \<Rightarrow> 'c timer_heap \<Rightarrow> (nat \<times> 'c timer_heap) res" where
  "siftdown_loop n i h =
     (let j = i * 2 + 1
      in if \<not> j < n then Inr (i, h)
         else let j = (if j + 1 < n \<and> timer_less (heap h ! (j + 1)) (heap h ! j) then j + 1 else j)
              in if timer_less (heap h ! i) (heap h ! j) then Inr (i, h)
                 else rbind (SwapNode i j h) (siftdown_loop n j))"
  by auto
termination
  by (relation "measure (\<lambda>(n, i, h). n - i)") (auto split: if_splits)

declare siftdown_loop.simps [simp del]

definition siftdown :: "nat \<Rightarrow> nat \<Rightarrow> 'c timer_heap \<Rightarrow> (bool \<times> 'c timer_heap) res" where
  "siftdown index n h =
     (if \<not> index < length (heap h) then Inl Assertion
      else if \<not> n \<le> length (heap h) then Inl Assertion
      else rbind (siftdown_loop n index h) (\<lambda>(i, h'). Inr (index < i, h')))"

definition sift_both :: "nat \<Rightarrow> nat \<Rightarrow> 'c timer_heap \<Rightarrow> 'c timer_heap res" where
  "sift_both i n h = rbind (siftdown i n h) (\<lambda>(moved, h'). if \<not> moved then siftup i h' else Inr h')"

definition del_node :: "nat \<Rightarrow> 'c timer_heap \<Rightarrow> 'c timer_heap res" where
  "del_node index h =
     (if \<not> (heap h \<noteq> [] \<and> index < length (heap h)) then Inl Assertion
      else let n = length (heap h) - 1
           in if \<not> index \<le> n then Inl Assertion
              else rbind (if index < n then rbind (SwapNode index n h) (sift_both index n) else Inr h)
                (\<lambda>h'. let fd = tm_fd (last (heap h'))
                      in if ref h' fd = None then Inl Assertion
                         else Inr (h'\<lparr>ref := (ref h')(fd := None), heap := butlast (heap h')\<rparr>)))"

text \<open>\<open>assertInLoopThread\<close>: \<open>tid\<close> is the calling thread.\<close>

definition heap_thread :: "nat \<Rightarrow> 'c timer_heap \<Rightarrow> unit res" where
  "heap_thread tid h = check_assert (tid = threadId h)"

definition heap_push :: "nat \<Rightarrow> 'c timer \<Rightarrow> 'c timer_heap \<Rightarrow> 'c timer_heap res" where
  "heap_push tid timer h =
     rbind (heap_thread tid h) (\<lambda>_.
       if \<not> 0 \<le> tm_fd timer then Inl Assertion
       else case ref h (tm_fd timer) of
              None \<Rightarrow>
                let i = length (heap h)
                in siftup i (h\<lparr>ref := (ref h)(tm_fd timer \<mapsto> i), heap := heap h @ [timer]\<rparr>)
            | Some i \<Rightarrow> sift_both i (length (heap h)) (h\<lparr>heap := (heap h)[i := timer]\<rparr>))"

definition heap_adjust :: "nat \<Rightarrow> 'c timer \<Rightarrow> 'c timer_heap \<Rightarrow> 'c timer_heap res" where
  "heap_adjust tid timer h =
     rbind (heap_thread tid h) (\<lambda>_.
       case ref h (tm_fd timer) of
         None \<Rightarrow> Inr h
       | Some i \<Rightarrow>
           rbind (siftdown i (length (heap h))
                   (h\<lparr>heap := (heap h)[i := (heap h ! i)\<lparr>tm_expire := tm_expire timer\<rparr>]\<rparr>))
             (\<lambda>(_, h'). Inr h'))"

definition heap_remove :: "nat \<Rightarrow> 'c timer \<Rightarrow> 'c timer_heap \<Rightarrow> 'c timer_heap res" where
  "heap_remove tid timer h =
     rbind (heap_thread tid h) (\<lambda>_.
       case ref h (tm_fd timer) of
         None \<Rightarrow> Inr h
       | Some i \<Rightarrow> del_node i h)"

definition heap_pop :: "nat \<Rightarrow> 'c timer_heap \<Rightarrow> 'c timer_heap res" where
  "heap_pop tid h =
     rbind (heap_thread tid h) (\<lambda>_. if heap h = [] then Inl Assertion else del_node 0 h)"

definition heap_clear :: "nat \<Rightarrow> 'c timer_heap \<Rightarrow> 'c timer_heap res" where
  "heap_clear tid h = rbind (heap_thread tid h) (\<lambda>_. Inr (h\<lparr>ref := (\<lambda>_. None), heap := []\<rparr>))"

definition heap_top :: "nat \<Rightarrow> 'c timer_heap \<Rightarrow> 'c timer res" where
  "heap_top tid h =
     rbind (heap_thread tid h) (\<lambda>_. case heap h of [] \<Rightarrow> Inl Undefined | t # _ \<Rightarrow> Inr t)"

definition heap_empty :: "nat \<Rightarrow> 'c timer_heap \<Rightarrow> bool res" where
  "heap_empty tid h = rbind (heap_thread tid h) (\<lambda>_. Inr (heap h = []))"

definition heap_size :: "nat \<Rightarrow> 'c timer_heap \<Rightarrow> nat res" where
  "heap_size tid h = rbind (heap_thread tid h) (\<lambda>_. Inr (length (heap h)))"

section \<open>Order, table and contents\<close>

definition tkey :: "'c timer list \<Rightarrow> nat \<Rightarrow> nat" where
  "tkey xs i = tm_expire (xs ! i)"

text \<open>No timer among the first \<open>n\<close> expires before its parent.\<close>

definition heap_ordered :: "nat \<Rightarrow> 'c timer list \<Rightarrow> bool" where
  "heap_ordered n xs \<longleftrightarrow> (\<forall>k. 0 < k \<longrightarrow> k < n \<longrightarrow> tkey xs ((k - 1) div 2) \<le> tkey xs k)"

text \<open>
  Ordered except around position \<open>i\<close>: the parent of \<open>i\<close> is below the children of \<open>i\<close>; with
  \<open>up\<close> (\<open>down\<close>), only the edge above (the edges below) \<open>i\<close> may be wrong.
\<close>

definition ordered_but :: "bool \<Rightarrow> bool \<Rightarrow> nat \<Rightarrow> nat \<Rightarrow> 'c timer list \<Rightarrow> bool" where
  "ordered_but up down n i xs \<longleftrightarrow>
     (\<forall>k. 0 < k \<longrightarrow> k < n \<longrightarrow> (up \<longrightarrow> k \<noteq> i) \<longrightarrow> (down \<longrightarrow> (k - 1) div 2 \<noteq> i) \<longrightarrow>
        tkey xs ((k - 1) div 2) \<le> tkey xs k) \<and>
     (\<forall>k. 0 < i \<longrightarrow> 0 < k \<longrightarrow> k < n \<longrightarrow> (k - 1) div 2 = i \<longrightarrow> tkey xs ((i - 1) div 2) \<le> tkey xs k)"

text \<open>The table is the inverse of the heap.\<close>

definition ref_ok :: "'c timer_heap \<Rightarrow> bool" where
  "ref_ok h \<longleftrightarrow>
     (\<forall>i < length (heap h). ref h (tm_fd (heap h ! i)) = Some i) \<and>
     (\<forall>fd i. ref h fd = Some i \<longrightarrow> i < length (heap h) \<and> tm_fd (heap h ! i) = fd)"

lemma ref_okD1: "ref_ok h \<Longrightarrow> i < length (heap h) \<Longrightarrow> ref h (tm_fd (heap h ! i)) = Some i"
  unfolding ref_ok_def by blast

lemma ref_okD2: "ref_ok h \<Longrightarrow> ref h d = Some j \<Longrightarrow> j < length (heap h) \<and> tm_fd (heap h ! j) = d"
  unfolding ref_ok_def by blast

definition same_timers :: "nat \<Rightarrow> 'c timer_heap \<Rightarrow> 'c timer_heap \<Rightarrow> bool" where
  "same_timers n h h' \<longleftrightarrow>
     mset (heap h') = mset (heap h) \<and> drop n (heap h') = drop n (heap h) \<and> threadId h' = threadId h"

lemma same_timers_length: "same_timers n h h' \<Longrightarrow> length (heap h') = length (heap h)"
  unfolding same_timers_def by (metis size_mset)

lemma same_timers_refl [simp]: "same_timers n h h"
  by (simp add: same_timers_def)

lemma same_timers_trans: "same_timers n h h' \<Longrightarrow> same_timers n h' h'' \<Longrightarrow> same_timers n h h''"
  by (simp add: same_timers_def)

text \<open>Swapping two of the first \<open>n\<close> positions.\<close>

definition swap_pos :: "nat \<Rightarrow> nat \<Rightarrow> nat \<Rightarrow> nat" where
  "swap_pos i j k = (if k = i then j else if k = j then i else k)"

lemma SwapNode_ok:
  assumes "i < n" "j < n" "n \<le> length (heap h)" "ref_ok h" "i \<noteq> j"
  shows "\<exists>h'. SwapNode i j h = Inr h' \<and> ref_ok h' \<and> same_timers n h h' \<and>
     (\<forall>k. k < length (heap h) \<longrightarrow> heap h' ! k = heap h ! swap_pos i j k)"
proof -
  let ?xs = "(heap h)[i := heap h ! j, j := heap h ! i]"
  have len: "i < length (heap h)" "j < length (heap h)" using assms by auto
  have nth: "?xs ! k = heap h ! swap_pos i j k" if "k < length (heap h)" for k
    using that len by (auto simp: nth_list_update swap_pos_def)
  have fd: "ref h (tm_fd (heap h ! k)) = Some k" if "k < length (heap h)" for k
    using assms(4) that by (auto simp: ref_ok_def)
  let ?h = "h\<lparr>heap := ?xs, ref := (ref h)(tm_fd (?xs ! i) \<mapsto> i, tm_fd (?xs ! j) \<mapsto> j)\<rparr>"
  have neq: "tm_fd (heap h ! k) \<noteq> tm_fd (heap h ! l)"
    if "k < length (heap h)" "l < length (heap h)" "k \<noteq> l" for k l
    using fd [OF that(1)] fd [OF that(2)] that(3) by auto
  have "ref_ok ?h"
    unfolding ref_ok_def
  proof (intro conjI allI impI)
    fix k assume "k < length (heap ?h)"
    then have k: "k < length (heap h)" by simp
    show "ref ?h (tm_fd (heap ?h ! k)) = Some k"
      using fd [OF k] neq [OF k len(1)] neq [OF k len(2)] neq [OF len(1,2) assms(5)] assms(5)
      by (simp add: nth [OF k] nth [OF len(1)] nth [OF len(2)])
        (auto simp: swap_pos_def)
  next
    fix d k assume d: "ref ?h d = Some k"
    have r: "k' < length (heap h) \<and> tm_fd (heap h ! k') = d'" if "ref h d' = Some k'" for d' k'
      using assms(4) that by (auto simp: ref_ok_def)
    have "k < length (heap h)" using d r len by (auto split: if_splits)
    then show "k < length (heap ?h)" by simp
    have "tm_fd (?xs ! k) = d"
    proof (cases "d = tm_fd (heap h ! i) \<or> d = tm_fd (heap h ! j)")
      case True
      with d neq [OF len assms(5)] assms(5) len show ?thesis
        by (auto simp: nth_list_update split: if_splits)
    next
      case False
      then have "ref h d = Some k"
        using d assms(5) by (auto simp: nth [OF len(1)] nth [OF len(2)] swap_pos_def split: if_splits)
      with r [OF this] False len show ?thesis by (auto simp: nth_list_update)
    qed
    then show "tm_fd (heap ?h ! k) = d" by simp
  qed
  moreover have "same_timers n h ?h"
    using assms by (auto simp: same_timers_def mset_swap drop_update_cancel)
  ultimately show ?thesis using len nth by (auto simp: SwapNode_def Let_def)
qed

section \<open>Sifting restores the order\<close>

lemma parent_less: "0 < k \<Longrightarrow> (k - 1) div 2 < (k :: nat)"
  by simp

lemma parent_children: "0 < k \<and> (k - 1) div 2 = i \<longleftrightarrow> k = i * 2 + 1 \<or> k = i * 2 + 1 + (1 :: nat)"
  by presburger

lemma heap_orderedD: "heap_ordered n xs \<Longrightarrow> 0 < k \<Longrightarrow> k < n \<Longrightarrow> tkey xs ((k - 1) div 2) \<le> tkey xs k"
  by (simp add: heap_ordered_def)

lemma ordered_butD1:
  "ordered_but up down n i xs \<Longrightarrow> 0 < k \<Longrightarrow> k < n \<Longrightarrow> (up \<Longrightarrow> k \<noteq> i) \<Longrightarrow> (down \<Longrightarrow> (k - 1) div 2 \<noteq> i) \<Longrightarrow>
   tkey xs ((k - 1) div 2) \<le> tkey xs k"
  by (simp add: ordered_but_def)

lemma ordered_butD2:
  "ordered_but up down n i xs \<Longrightarrow> 0 < i \<Longrightarrow> 0 < k \<Longrightarrow> k < n \<Longrightarrow> (k - 1) div 2 = i \<Longrightarrow>
   tkey xs ((i - 1) div 2) \<le> tkey xs k"
  by (simp add: ordered_but_def)

text \<open>Changing the key at one position spoils the order around it only.\<close>

lemma ordered_change:
  assumes "heap_ordered n xs" and "i < n" and same: "\<And>k. k < n \<Longrightarrow> k \<noteq> i \<Longrightarrow> tkey ys k = tkey xs k"
  shows "ordered_but True True n i ys"
  unfolding ordered_but_def
proof (intro conjI allI impI)
  fix k assume k: "0 < k" "k < n" "True \<longrightarrow> k \<noteq> i" "True \<longrightarrow> (k - 1) div 2 \<noteq> i"
  have "(k - 1) div 2 < n" using less_trans [OF parent_less [OF k(1)] k(2)] .
  with heap_orderedD [OF assms(1) k(1,2)] k(3,4) same [OF k(2)] same [of "(k - 1) div 2"]
  show "tkey ys ((k - 1) div 2) \<le> tkey ys k" by simp
next
  fix k assume k: "0 < i" "0 < k" "k < n" "(k - 1) div 2 = i"
  have ki: "i < k" using parent_less [OF k(2)] unfolding k(4) .
  have pi: "(i - 1) div 2 < i" by (rule parent_less [OF k(1)])
  have "tkey xs ((i - 1) div 2) \<le> tkey xs i" using k(1) assms(2) by (rule heap_orderedD [OF assms(1)])
  also have "\<dots> \<le> tkey xs k" using heap_orderedD [OF assms(1) k(2,3)] unfolding k(4) .
  finally show "tkey ys ((i - 1) div 2) \<le> tkey ys k"
    using same [OF k(3)] same [of "(i - 1) div 2"] pi ki assms(2) by simp
qed

lemma ordered_raise:
  assumes "heap_ordered n xs" and "i < n" and same: "\<And>k. k < n \<Longrightarrow> k \<noteq> i \<Longrightarrow> tkey ys k = tkey xs k"
    and "tkey xs i \<le> tkey ys i"
  shows "ordered_but False True n i ys"
proof -
  have but: "ordered_but True True n i ys" by (rule ordered_change [OF assms(1,2)]) (rule same)
  have "tkey ys ((i - 1) div 2) \<le> tkey ys i" if "0 < i"
    using heap_orderedD [OF assms(1) that assms(2)] parent_less [OF that] same [of "(i - 1) div 2"] assms(2,4)
    by simp
  then show ?thesis using but unfolding ordered_but_def by metis
qed

text \<open>Swapping a timer with its parent moves the disorder up, swapping it with its earlier child down.\<close>

lemma swap_up_ordered:
  assumes but: "ordered_but True False n i xs" and "i < n" "0 < i"
    and le: "tkey xs i \<le> tkey xs ((i - 1) div 2)"
    and key: "\<And>k. k < n \<Longrightarrow> tkey ys k = tkey xs (swap_pos i ((i - 1) div 2) k)"
  shows "ordered_but True False n ((i - 1) div 2) ys"
  unfolding ordered_but_def
proof (intro conjI allI impI)
  let ?j = "(i - 1) div 2"
  have ji: "?j < i" using assms(3) by (rule parent_less)
  fix k
  {
    assume k: "0 < k" "k < n" "True \<longrightarrow> k \<noteq> ?j"
    have "(k - 1) div 2 < n" using k by simp
    then show "tkey ys ((k - 1) div 2) \<le> tkey ys k"
      using key [OF k(2)] key [of "(k - 1) div 2"] k ordered_butD1 [OF but k(1,2)]
        ordered_butD2 [OF but assms(3) k(1,2)] le ji
      by (auto simp: swap_pos_def)
  next
    assume k: "0 < ?j" "0 < k" "k < n" "(k - 1) div 2 = ?j"
    define g where "g = (?j - 1) div 2"
    have g: "g < ?j" unfolding g_def by (rule parent_less [OF k(1)])
    have gn: "g < n" using g ji assms(2) by simp
    have kj: "?j < k" using parent_less [OF k(2)] unfolding k(4) .
    have gj: "tkey xs g \<le> tkey xs ?j"
      unfolding g_def using k(1) ji assms(2) by (intro ordered_butD1 [OF but]) auto
    have jk: "tkey xs ?j \<le> tkey xs k" if "k \<noteq> i"
      using ordered_butD1 [OF but k(2,3)] that unfolding k(4) by simp
    have "tkey ys g = tkey xs g"
      by (simp only: key [OF gn] swap_pos_def less_imp_neq [OF g] less_imp_neq [OF less_trans [OF g ji]] if_False)
    moreover have "tkey ys k = tkey xs (if k = i then ?j else k)"
      by (simp only: key [OF k(3)] swap_pos_def less_imp_neq [OF kj, THEN not_sym] if_False)
    ultimately show "tkey ys ((?j - 1) div 2) \<le> tkey ys k"
      unfolding g_def [symmetric] using gj jk by (cases "k = i") (auto intro: order_trans simp del: One_nat_def)
  }
qed

lemma swap_down_ordered:
  assumes but: "ordered_but up True n i xs" and "i < n" and j: "j < n" "i < j" "(j - 1) div 2 = i"
    and min: "\<And>k. 0 < k \<Longrightarrow> k < n \<Longrightarrow> (k - 1) div 2 = i \<Longrightarrow> tkey xs j \<le> tkey xs k"
    and le: "tkey xs j \<le> tkey xs i"
    and key: "\<And>k. k < n \<Longrightarrow> tkey ys k = tkey xs (swap_pos i j k)"
  shows "ordered_but False True n j ys"
  unfolding ordered_but_def
proof (intro conjI allI impI)
  fix k assume k: "0 < k" "k < n" "True \<longrightarrow> (k - 1) div 2 \<noteq> j"
  have "(k - 1) div 2 < n" using k by simp
  moreover have "tkey xs ((i - 1) div 2) \<le> tkey xs j" if "0 < i"
    using ordered_butD2 [OF but that, of j] j by simp
  moreover have "(i - 1) div 2 \<noteq> i" if "0 < i" using parent_less [OF that] by simp
  ultimately show "tkey ys ((k - 1) div 2) \<le> tkey ys k"
    using key [OF k(2)] key [of "(k - 1) div 2"] k ordered_butD1 [OF but k(1,2)] min [OF k(1,2)] le j
    by (auto simp: swap_pos_def)
next
  fix k assume k: "0 < j" "0 < k" "k < n" "(k - 1) div 2 = j"
  have "k \<noteq> i" "k \<noteq> j" using parent_less [OF k(2)] k(4) j by auto
  then show "tkey ys ((j - 1) div 2) \<le> tkey ys k"
    using key [OF k(3)] key [of i] ordered_butD1 [OF but k(2,3)] k(4) j assms(2) by (auto simp: swap_pos_def)
qed

lemma SwapNode_keys:
  assumes "i < n" "j < n" "n \<le> length (heap h)" "ref_ok h" "i \<noteq> j"
  shows "\<exists>h'. SwapNode i j h = Inr h' \<and> ref_ok h' \<and> same_timers n h h' \<and> length (heap h') = length (heap h) \<and>
     (\<forall>k < length (heap h). heap h' ! k = heap h ! swap_pos i j k) \<and>
     (\<forall>k < n. tkey (heap h') k = tkey (heap h) (swap_pos i j k))"
proof -
  obtain h' where h': "SwapNode i j h = Inr h'" "ref_ok h'" "same_timers n h h'"
      "\<And>k. k < length (heap h) \<Longrightarrow> heap h' ! k = heap h ! swap_pos i j k"
    using SwapNode_ok [OF assms] by auto
  with assms(3) same_timers_length [OF h'(3)] show ?thesis by (intro exI [of _ h']) (simp add: tkey_def)
qed

lemma siftup_ok:
  assumes "i < n" "n \<le> length (heap h)" "length (heap h) \<le> 2 ^ 31" "ref_ok h"
    and "ordered_but True False n i (heap h)"
  shows "\<exists>h'. siftup_loop i h = Inr h' \<and> ref_ok h' \<and> same_timers n h h' \<and> heap_ordered n (heap h')"
  using assms
proof (induction i h rule: siftup_loop.induct)
  case (1 i h)
  have sp: "sift_parent i = (if i = 0 then - 1 else int ((i - 1) div 2))"
    using 1(2,3,4) by (intro sift_parent_value) simp
  have stop: ?case if "siftup_loop i h = Inr h" "0 < i \<Longrightarrow> tkey (heap h) ((i - 1) div 2) \<le> tkey (heap h) i"
  proof -
    have "heap_ordered n (heap h)"
      unfolding heap_ordered_def using that(2) ordered_butD1 [OF 1(6)] by metis
    with that(1) 1(5) show ?thesis by (intro exI [of _ h]) simp
  qed
  show ?case
  proof (cases "i = 0")
    case True
    with sp have "siftup_loop i h = Inr h" by (subst siftup_loop.simps) simp
    with True show ?thesis by (intro stop) simp_all
  next
    case pos: False
    let ?j = "(i - 1) div 2"
    have j: "nat (sift_parent i) = ?j" "\<not> sift_parent i < 0" "?j < i" using sp pos by simp_all
    show ?thesis
    proof (cases "timer_less (heap h ! ?j) (heap h ! i)")
      case True
      with j show ?thesis
        by (intro stop) (simp_all add: siftup_loop.simps [of i h] timer_less_def tkey_def)
    next
      case False
      obtain h1 where h1: "SwapNode i ?j h = Inr h1" "ref_ok h1" "same_timers n h h1" "length (heap h1) = length (heap h)"
          and key: "\<And>k. k < n \<Longrightarrow> tkey (heap h1) k = tkey (heap h) (swap_pos i ?j k)"
        using SwapNode_keys [of i n ?j h] 1(2,3,5) j(3) by auto
      have "tkey (heap h) i \<le> tkey (heap h) ?j" using False by (simp add: timer_less_def tkey_def)
      then have "ordered_but True False n ?j (heap h1)"
        using key pos by (intro swap_up_ordered [OF 1(6,2)]) auto
      then obtain h' where "siftup_loop ?j h1 = Inr h'" "ref_ok h'" "same_timers n h1 h'" "heap_ordered n (heap h')"
        using 1(1) [OF j(2) j(1) [symmetric]] False h1 1(2,3,4) j(3) by auto
      with h1(1,3) j False show ?thesis
        by (intro exI [of _ h']) (auto simp: siftup_loop.simps [of i h] intro: same_timers_trans)
    qed
  qed
qed

lemma siftdown_ok:
  assumes "i < n" "n \<le> length (heap h)" "ref_ok h" "ordered_but up True n i (heap h)"
  shows "\<exists>m h'. siftdown_loop n i h = Inr (m, h') \<and> i \<le> m \<and> ref_ok h' \<and> same_timers n h h' \<and>
     (i < m \<or> \<not> up \<longrightarrow> heap_ordered n (heap h')) \<and>
     (i = m \<longrightarrow> h' = h \<and> ordered_but up False n i (heap h))"
  using assms
proof (induction n i h arbitrary: up rule: siftdown_loop.induct)
  case (1 n i h)
  have stop: ?case if "siftdown_loop n i h = Inr (i, h)"
    and low: "\<And>k. 0 < k \<Longrightarrow> k < n \<Longrightarrow> (k - 1) div 2 = i \<Longrightarrow> tkey (heap h) i \<le> tkey (heap h) k"
  proof -
    have "ordered_but up False n i (heap h)"
      using ordered_butD1 [OF 1(5)] ordered_butD2 [OF 1(5)] low unfolding ordered_but_def by metis
    moreover from this have "\<not> up \<longrightarrow> heap_ordered n (heap h)"
      by (auto simp: ordered_but_def heap_ordered_def)
    ultimately show ?thesis using that(1) 1(4) by (intro exI [of _ i] exI [of _ h]) simp
  qed
  show ?case
  proof (cases "i * 2 + 1 < n")
    case False
    have "\<not> (0 < k \<and> k < n \<and> (k - 1) div 2 = i)" for k
      using False parent_children [of k i] by linarith
    with False show ?thesis by (intro stop) (auto simp: siftdown_loop.simps [of n i h])
  next
    case True
    let ?j0 = "i * 2 + 1"
    define j where "j = (if ?j0 + 1 < n \<and> timer_less (heap h ! (?j0 + 1)) (heap h ! ?j0) then ?j0 + 1 else ?j0)"
    have j: "j < n" "i < j" "(j - 1) div 2 = i" using True by (auto simp: j_def)
    have min: "tkey (heap h) j \<le> tkey (heap h) k" if "0 < k" "k < n" "(k - 1) div 2 = i" for k
    proof -
      have "k = i * 2 + 1 \<or> k = i * 2 + 1 + 1" using that parent_children [of k i] by blast
      with that(2) show ?thesis by (auto simp: j_def timer_less_def tkey_def)
    qed
    note turn = siftdown_loop.simps [of n i h, unfolded Let_def, folded j_def]
    show ?thesis
    proof (cases "timer_less (heap h ! i) (heap h ! j)")
      case less: True
      then have "tkey (heap h) i \<le> tkey (heap h) j" by (simp add: timer_less_def tkey_def)
      with min True less show ?thesis by (intro stop) (auto simp: turn intro: order_trans)
    next
      case False
      then have le: "tkey (heap h) j \<le> tkey (heap h) i" by (simp add: timer_less_def tkey_def)
      obtain h1 where h1: "SwapNode i j h = Inr h1" "ref_ok h1" "same_timers n h h1" "length (heap h1) = length (heap h)"
          and key: "\<And>k. k < n \<Longrightarrow> tkey (heap h1) k = tkey (heap h) (swap_pos i j k)"
        using SwapNode_keys [of i n j h] 1(2,3,4) j by auto
      have ord: "ordered_but False True n j (heap h1)"
        using swap_down_ordered [OF 1(5,2) j min le key] .
      have "\<exists>m h'. siftdown_loop n j h1 = Inr (m, h') \<and> j \<le> m \<and> ref_ok h' \<and> same_timers n h1 h' \<and>
         (j < m \<or> \<not> False \<longrightarrow> heap_ordered n (heap h')) \<and>
         (j = m \<longrightarrow> h' = h1 \<and> ordered_but False False n j (heap h1))"
        by (rule 1(1) [OF refl _ j_def False]) (use True j h1 ord 1(3) in simp_all)
      then obtain m h' where m: "siftdown_loop n j h1 = Inr (m, h')" "j \<le> m" "ref_ok h'"
          "same_timers n h1 h'" "heap_ordered n (heap h')" by blast
      with True False h1(1) j(2) same_timers_trans [OF h1(3) m(4)] show ?thesis
        by (intro exI [of _ m] exI [of _ h']) (simp add: turn)
    qed
  qed
qed

lemma sift_both_ok:
  assumes "i < n" "n \<le> length (heap h)" "length (heap h) \<le> 2 ^ 31" "ref_ok h"
    and "ordered_but True True n i (heap h)"
  shows "\<exists>h'. sift_both i n h = Inr h' \<and> ref_ok h' \<and> same_timers n h h' \<and> heap_ordered n (heap h')"
proof -
  obtain m h1 where m: "siftdown_loop n i h = Inr (m, h1)" "i \<le> m" "ref_ok h1" "same_timers n h h1"
      "i < m \<longrightarrow> heap_ordered n (heap h1)" "i = m \<longrightarrow> h1 = h \<and> ordered_but True False n i (heap h)"
    using siftdown_ok [OF assms(1,2,4,5)] by blast
  have len: "i < length (heap h)" using assms(1,2) by simp
  show ?thesis
  proof (cases "i < m")
    case True
    with m assms(1,2) len show ?thesis by (auto simp: sift_both_def siftdown_def)
  next
    case False
    with m have h1: "h1 = h" "i = m" "ordered_but True False n i (heap h)" by auto
    obtain h' where "siftup_loop i h = Inr h'" "ref_ok h'" "same_timers n h h'" "heap_ordered n (heap h')"
      using siftup_ok [OF assms(1-4) h1(3)] by blast
    with m(1) h1 assms(1,2) len show ?thesis
      by (auto simp: sift_both_def siftdown_def siftup_def)
  qed
qed

section \<open>The operations keep the heap and change one timer\<close>

text \<open>What the heap stands for: the pending timer of each descriptor.\<close>

definition timers :: "'c timer_heap \<Rightarrow> int \<Rightarrow> 'c timer option" where
  "timers h fd = map_option (\<lambda>i. heap h ! i) (ref h fd)"

definition heap_inv :: "'c timer_heap \<Rightarrow> bool" where
  "heap_inv h \<longleftrightarrow> ref_ok h \<and> heap_ordered (length (heap h)) (heap h)"

lemma ref_ok_timers: "ref_ok h \<Longrightarrow> timers h fd = Some t \<longleftrightarrow> t \<in> set (heap h) \<and> tm_fd t = fd"
  by (auto simp: ref_ok_def timers_def in_set_conv_nth)

lemma timers_eqI:
  assumes "ref_ok h" and "\<And>fd t. t \<in> set (heap h) \<and> tm_fd t = fd \<longleftrightarrow> m fd = Some t"
  shows "timers h = m"
proof
  fix fd
  show "timers h fd = m fd"
  proof -
    have e: "timers h fd = Some t \<longleftrightarrow> m fd = Some t" for t
      using assms(2) [of t fd] ref_ok_timers [OF assms(1), of fd t] by blast
    show ?thesis
    proof (cases "m fd")
      case None
      with e show ?thesis by (cases "timers h fd") auto
    next
      case (Some t)
      with e [of t] show ?thesis by simp
    qed
  qed
qed

lemma ref_ok_distinct: "ref_ok h \<Longrightarrow> distinct (map tm_fd (heap h))"
proof -
  assume r: "ref_ok h"
  have "i = j" if "i < length (heap h)" "j < length (heap h)" "tm_fd (heap h ! i) = tm_fd (heap h ! j)" for i j
  proof -
    have "Some i = ref h (tm_fd (heap h ! i))" using r that(1) by (simp add: ref_ok_def)
    also have "\<dots> = Some j" unfolding that(3) using r that(2) by (simp add: ref_ok_def)
    finally show ?thesis by simp
  qed
  then show ?thesis by (auto simp: distinct_conv_nth)
qed

lemma same_timers_set: "same_timers n h h' \<Longrightarrow> set (heap h') = set (heap h)"
  unfolding same_timers_def by (metis set_mset_mset)

lemma same_timers_timers:
  assumes "ref_ok h" and "ref_ok h'" and "same_timers n h h'"
  shows "timers h' = timers h"
  by (rule timers_eqI [OF assms(2)]) (simp add: same_timers_set [OF assms(3)] ref_ok_timers [OF assms(1)])

text \<open>A timer at the end of the heap, before the sift.\<close>

lemma ref_ok_snoc:
  assumes "ref_ok h" and "ref h (tm_fd t) = None"
  defines "h' \<equiv> h\<lparr>ref := (ref h)(tm_fd t \<mapsto> length (heap h)), heap := heap h @ [t]\<rparr>"
  shows "ref_ok h'" and "timers h' = (timers h)(tm_fd t \<mapsto> t)"
proof -
  have new: "tm_fd (heap h ! i) \<noteq> tm_fd t" if "i < length (heap h)" for i
    using ref_okD1 [OF assms(1) that] assms(2) by auto
  show "ref_ok h'"
    unfolding ref_ok_def
    using new ref_okD1 [OF assms(1)] ref_okD2 [OF assms(1)]
    by (fastforce simp: h'_def nth_append less_Suc_eq split: if_splits)
  then show "timers h' = (timers h)(tm_fd t \<mapsto> t)"
    by (rule timers_eqI) (use new in \<open>auto simp: h'_def ref_ok_timers [OF assms(1)] in_set_conv_nth\<close>)
qed

lemma ordered_snoc:
  assumes "heap_ordered (length xs) xs"
  shows "ordered_but True False (Suc (length xs)) (length xs) (xs @ [t])"
  unfolding ordered_but_def
proof (intro conjI allI impI)
  fix k assume k: "0 < k" "k < Suc (length xs)" "True \<longrightarrow> k \<noteq> length xs"
  have "(k - 1) div 2 < length xs" using k by simp
  then show "tkey (xs @ [t]) ((k - 1) div 2) \<le> tkey (xs @ [t]) k"
    using heap_orderedD [OF assms k(1)] k by (simp add: tkey_def nth_append)
next
  fix k assume "0 < k" "k < Suc (length xs)" "(k - 1) div 2 = length xs"
  with parent_less [of k] show "tkey (xs @ [t]) ((length xs - 1) div 2) \<le> tkey (xs @ [t]) k" by simp
qed

lemma heap_push_new:
  assumes "heap_inv h" "tid = threadId h" "0 \<le> tm_fd t" "ref h (tm_fd t) = None" "length (heap h) < 2 ^ 31"
  shows "\<exists>h'. heap_push tid t h = Inr h' \<and> heap_inv h' \<and> threadId h' = tid \<and>
     length (heap h') = Suc (length (heap h)) \<and> timers h' = (timers h)(tm_fd t \<mapsto> t)"
proof -
  let ?n = "length (heap h)"
  let ?h = "h\<lparr>ref := (ref h)(tm_fd t \<mapsto> ?n), heap := heap h @ [t]\<rparr>"
  have rok: "ref_ok h" "heap_ordered ?n (heap h)" using assms(1) by (auto simp: heap_inv_def)
  note snoc = ref_ok_snoc [OF rok(1) assms(4)]
  have ord: "ordered_but True False (Suc ?n) ?n (heap ?h)" using ordered_snoc [OF rok(2)] by simp
  obtain h' where h': "siftup_loop ?n ?h = Inr h'" "ref_ok h'" "same_timers (Suc ?n) ?h h'"
      "heap_ordered (Suc ?n) (heap h')"
    using siftup_ok [OF _ _ _ snoc(1) ord] assms(5) by auto
  have "timers h' = (timers h)(tm_fd t \<mapsto> t)"
    using same_timers_timers [OF snoc(1) h'(2,3)] snoc(2) by simp
  moreover have "length (heap h') = Suc ?n" using same_timers_length [OF h'(3)] by simp
  moreover have "heap_push tid t h = Inr h'"
    using assms(2,3,4) h'(1) by (simp add: heap_push_def heap_thread_def siftup_def)
  ultimately show ?thesis using h' assms(2) by (auto simp: heap_inv_def same_timers_def)
qed

text \<open>Replacing the timer at a position, before the sifts.\<close>

lemma replace_at:
  assumes "heap_inv h" "ref h (tm_fd t) = Some i"
  defines "h1 \<equiv> h\<lparr>heap := (heap h)[i := t]\<rparr>"
  shows "i < length (heap h)" and "ref_ok h1" and "ordered_but True True (length (heap h)) i (heap h1)"
    and "tm_expire (heap h ! i) \<le> tm_expire t \<Longrightarrow> ordered_but False True (length (heap h)) i (heap h1)"
    and "timers h1 = (timers h)(tm_fd t \<mapsto> t)"
proof -
  let ?n = "length (heap h)"
  have rok: "ref_ok h" "heap_ordered ?n (heap h)" using assms(1) by (auto simp: heap_inv_def)
  show i: "i < ?n" using ref_okD2 [OF rok(1) assms(2)] by simp
  have fd: "tm_fd (heap h ! i) = tm_fd t" using ref_okD2 [OF rok(1) assms(2)] by simp
  have "tm_fd (heap h1 ! k) = tm_fd (heap h ! k)" if "k < ?n" for k
    using that fd by (cases "k = i") (simp_all add: h1_def)
  then show "ref_ok h1"
    using rok(1) unfolding ref_ok_def by (simp add: h1_def)
  have key: "tkey (heap h1) k = tkey (heap h) k" if "k < ?n" "k \<noteq> i" for k
    using that by (simp add: h1_def tkey_def)
  show "ordered_but True True ?n i (heap h1)" by (rule ordered_change [OF rok(2) i key])
  show "ordered_but False True ?n i (heap h1)" if "tm_expire (heap h ! i) \<le> tm_expire t"
    by (rule ordered_raise [OF rok(2) i key]) (use that i in \<open>simp_all add: h1_def tkey_def\<close>)
  show "timers h1 = (timers h)(tm_fd t \<mapsto> t)"
  proof
    fix d
    show "timers h1 d = ((timers h)(tm_fd t \<mapsto> t)) d"
    proof (cases "d = tm_fd t")
      case True
      with assms(2) i show ?thesis by (simp add: timers_def h1_def)
    next
      case False
      with ref_okD2 [OF rok(1), of d i] fd have "ref h d \<noteq> Some i" by auto
      with False show ?thesis by (cases "ref h d") (auto simp: timers_def h1_def)
    qed
  qed
qed

lemma heap_push_old:
  assumes "heap_inv h" "tid = threadId h" "0 \<le> tm_fd t" "ref h (tm_fd t) = Some i" "length (heap h) \<le> 2 ^ 31"
  shows "\<exists>h'. heap_push tid t h = Inr h' \<and> heap_inv h' \<and> threadId h' = tid \<and>
     length (heap h') = length (heap h) \<and> timers h' = (timers h)(tm_fd t \<mapsto> t)"
proof -
  let ?h = "h\<lparr>heap := (heap h)[i := t]\<rparr>"
  note r = replace_at [OF assms(1,4)]
  obtain h' where h': "sift_both i (length (heap h)) ?h = Inr h'" "ref_ok h'"
      "same_timers (length (heap h)) ?h h'" "heap_ordered (length (heap h)) (heap h')"
    using sift_both_ok [OF r(1) _ _ r(2,3)] assms(5) by auto
  have "timers h' = (timers h)(tm_fd t \<mapsto> t)"
    using same_timers_timers [OF r(2) h'(2,3)] r(5) by simp
  moreover have "length (heap h') = length (heap h)" using same_timers_length [OF h'(3)] by simp
  moreover have "heap_push tid t h = Inr h'"
    using assms(2,3,4) h'(1) by (simp add: heap_push_def heap_thread_def)
  ultimately show ?thesis using h' assms(2) by (auto simp: heap_inv_def same_timers_def)
qed

lemma heap_adjust_ok:
  assumes "heap_inv h" "tid = threadId h" and "\<And>u. timers h (tm_fd t) = Some u \<Longrightarrow> tm_expire u \<le> tm_expire t"
  shows "\<exists>h'. heap_adjust tid t h = Inr h' \<and> heap_inv h' \<and> threadId h' = tid \<and>
     length (heap h') = length (heap h) \<and>
     timers h' = (case timers h (tm_fd t) of
                    None \<Rightarrow> timers h
                  | Some u \<Rightarrow> (timers h)(tm_fd t \<mapsto> u\<lparr>tm_expire := tm_expire t\<rparr>))"
proof (cases "ref h (tm_fd t)")
  case None
  with assms show ?thesis by (auto simp: heap_adjust_def heap_thread_def timers_def)
next
  case (Some i)
  let ?u = "(heap h ! i)\<lparr>tm_expire := tm_expire t\<rparr>"
  let ?h = "h\<lparr>heap := (heap h)[i := ?u]\<rparr>"
  have fd: "tm_fd (heap h ! i) = tm_fd t"
    using assms(1) ref_okD2 [OF _ Some] by (simp add: heap_inv_def)
  have old: "timers h (tm_fd t) = Some (heap h ! i)" using Some by (simp add: timers_def)
  have ref: "ref h (tm_fd ?u) = Some i" using Some fd by simp
  note r = replace_at [OF assms(1) ref]
  have "ordered_but False True (length (heap h)) i (heap ?h)"
    using r(4) assms(3) [OF old] by simp
  then obtain m h' where h': "siftdown_loop (length (heap h)) i ?h = Inr (m, h')" "ref_ok h'"
      "same_timers (length (heap h)) ?h h'" "heap_ordered (length (heap h)) (heap h')"
    using siftdown_ok [OF r(1) _ r(2), of False] by auto
  have "timers h' = (timers h)(tm_fd t \<mapsto> ?u)"
    using same_timers_timers [OF r(2) h'(2,3)] r(5) fd by simp
  moreover have "length (heap h') = length (heap h)" using same_timers_length [OF h'(3)] by simp
  moreover have "heap_adjust tid t h = Inr h'"
    using assms(2) Some h'(1) r(1) by (simp add: heap_adjust_def heap_thread_def siftdown_def)
  ultimately show ?thesis using h' assms(2) old by (auto simp: heap_inv_def same_timers_def)
qed

lemma drop_last: "length xs = Suc n \<Longrightarrow> drop n xs = [last xs]"
  by (cases xs rule: rev_cases) auto

text \<open>The last timer, behind the sifted part, is cut off.\<close>

lemma ref_ok_butlast:
  assumes "ref_ok h" and "heap h \<noteq> []"
  defines "h' \<equiv> h\<lparr>ref := (ref h)(tm_fd (last (heap h)) := None), heap := butlast (heap h)\<rparr>"
  shows "ref_ok h'" and "timers h' = (timers h)(tm_fd (last (heap h)) := None)"
proof -
  obtain xs t where xs: "heap h = xs @ [t]" using assms(2) by (cases "heap h" rule: rev_cases) auto
  have nth: "ref h (tm_fd (xs ! k)) = Some k" if "k < length xs" for k
    using ref_okD1 [OF assms(1), of k] that by (simp add: xs nth_append)
  have t: "ref h (tm_fd t) = Some (length xs)"
    using ref_okD1 [OF assms(1), of "length xs"] by (simp add: xs)
  have old: "k < length xs \<and> tm_fd (xs ! k) = d" if "ref h d = Some k" "d \<noteq> tm_fd t" for d k
    using ref_okD2 [OF assms(1) that(1)] that(2) by (auto simp: xs nth_append less_Suc_eq split: if_splits)
  have "tm_fd (xs ! k) \<noteq> tm_fd t" if "k < length xs" for k using nth [OF that] t that by auto
  then show ok: "ref_ok h'" unfolding ref_ok_def using nth old by (auto simp: h'_def xs)
  have "tm_fd t \<notin> tm_fd ` set xs" using ref_ok_distinct [OF assms(1)] by (simp add: xs)
  then have "tm_fd u \<noteq> tm_fd t" if "u \<in> set xs" for u using that by (metis imageI)
  then show "timers h' = (timers h)(tm_fd (last (heap h)) := None)"
    by (intro timers_eqI [OF ok]) (auto simp: h'_def ref_ok_timers [OF assms(1)] xs)
qed

lemma heap_ordered_butlast:
  assumes "heap_ordered n xs" and "length xs = Suc n"
  shows "heap_ordered n (butlast xs)"
  unfolding heap_ordered_def
proof (intro allI impI)
  fix k assume k: "0 < k" "k < n"
  have "(k - 1) div 2 < n" using less_trans [OF parent_less [OF k(1)] k(2)] .
  with heap_orderedD [OF assms(1) k] k(2) assms(2)
  show "tkey (butlast xs) ((k - 1) div 2) \<le> tkey (butlast xs) k" by (simp add: tkey_def nth_butlast)
qed

text \<open>First the timer to be deleted is brought to the end.\<close>

lemma move_last:
  assumes "heap_inv h" "i < length (heap h)" "length (heap h) \<le> 2 ^ 31"
  defines "n \<equiv> length (heap h) - 1"
  shows "\<exists>h1. (if i < n then rbind (SwapNode i n h) (sift_both i n) else Inr h) = Inr h1 \<and>
      ref_ok h1 \<and> same_timers (length (heap h)) h h1 \<and> last (heap h1) = heap h ! i \<and>
      heap_ordered n (heap h1)"
proof -
  have rok: "ref_ok h" "heap_ordered (length (heap h)) (heap h)" using assms(1) by (auto simp: heap_inv_def)
  have len: "length (heap h) = Suc n" using assms(2) by (simp add: n_def)
  have ord: "heap_ordered n (heap h)" using rok(2) len by (auto simp: heap_ordered_def)
  show ?thesis
  proof (cases "i < n")
    case True
    obtain h0 where h0: "SwapNode i n h = Inr h0" "ref_ok h0" "same_timers (length (heap h)) h h0"
        "length (heap h0) = length (heap h)"
        and nth: "\<And>k. k < length (heap h) \<Longrightarrow> heap h0 ! k = heap h ! swap_pos i n k"
      using SwapNode_keys [of i "length (heap h)" n h] assms(2) rok(1) True len by auto
    have "tkey (heap h0) k = tkey (heap h) k" if "k < n" "k \<noteq> i" for k
      using nth [of k] that len by (simp add: tkey_def swap_pos_def)
    then have "ordered_but True True n i (heap h0)" by (rule ordered_change [OF ord True])
    then obtain h1 where h1: "sift_both i n h0 = Inr h1" "ref_ok h1" "same_timers n h0 h1" "heap_ordered n (heap h1)"
      using sift_both_ok [OF True _ _ h0(2)] h0(4) len assms(3) by auto
    have l1: "length (heap h1) = Suc n" using same_timers_length [OF h1(3)] h0(4) len by simp
    have l0: "last (heap h0) = heap h0 ! n"
      using h0(4) len by (metis diff_Suc_1 last_conv_nth list.size(3) nat.distinct(1))
    have "[last (heap h1)] = drop n (heap h1)" using drop_last [OF l1] by simp
    also have "\<dots> = [last (heap h0)]" using h1(3) drop_last [of "heap h0" n] h0(4) len by (simp add: same_timers_def)
    finally have "last (heap h1) = heap h0 ! n" using l0 by simp
    also have "\<dots> = heap h ! i" using nth [of n] True len by (simp add: swap_pos_def)
    finally show ?thesis using True h0(1,3,4) h1 len l1 by (simp add: same_timers_def)
  next
    case False
    then have "i = n" using assms(2) len by simp
    then have "last (heap h) = heap h ! i" using len by (metis diff_Suc_1 last_conv_nth list.size(3) nat.distinct(1))
    with False rok(1) ord show ?thesis by simp
  qed
qed

lemma del_node_ok:
  assumes "heap_inv h" "i < length (heap h)" "length (heap h) \<le> 2 ^ 31"
  shows "\<exists>h'. del_node i h = Inr h' \<and> heap_inv h' \<and> threadId h' = threadId h \<and>
     length (heap h') = length (heap h) - 1 \<and> timers h' = (timers h)(tm_fd (heap h ! i) := None)"
proof -
  let ?n = "length (heap h) - 1"
  obtain h1 where h1: "(if i < ?n then rbind (SwapNode i ?n h) (sift_both i ?n) else Inr h) = Inr h1"
      "ref_ok h1" "same_timers (length (heap h)) h h1" "last (heap h1) = heap h ! i"
      "heap_ordered ?n (heap h1)" using move_last [OF assms] by blast
  have len: "length (heap h1) = length (heap h)" using h1(3) by (rule same_timers_length)
  then have ne: "heap h1 \<noteq> []" "length (heap h1) = Suc ?n" using assms(2) by auto
  let ?h2 = "h1\<lparr>ref := (ref h1)(tm_fd (last (heap h1)) := None), heap := butlast (heap h1)\<rparr>"
  have "ref h1 (tm_fd (heap h ! i)) \<noteq> None"
    using ref_okD1 [OF h1(2), of ?n] ne h1(4) len by (simp add: last_conv_nth)
  then have "del_node i h = Inr ?h2"
    using ne(1) assms(2) len h1(1,4) unfolding del_node_def Let_def by auto
  moreover have "heap_inv ?h2"
    using ref_ok_butlast(1) [OF h1(2) ne(1)] heap_ordered_butlast [OF h1(5) ne(2)] ne(2) by (simp add: heap_inv_def)
  moreover have "timers ?h2 = (timers h)(tm_fd (heap h ! i) := None)"
    using ref_ok_butlast(2) [OF h1(2) ne(1)] same_timers_timers [OF _ h1(2,3)] assms(1) h1(4)
    by (simp add: heap_inv_def)
  ultimately show ?thesis using len h1(3) by (intro exI [of _ ?h2]) (simp add: same_timers_def)
qed

lemma heap_remove_ok:
  assumes "heap_inv h" "tid = threadId h" "length (heap h) \<le> 2 ^ 31"
  shows "\<exists>h'. heap_remove tid t h = Inr h' \<and> heap_inv h' \<and> threadId h' = tid \<and>
     length (heap h') \<le> length (heap h) \<and> timers h' = (timers h)(tm_fd t := None)"
proof (cases "ref h (tm_fd t)")
  case None
  then have "timers h = (timers h)(tm_fd t := None)" by (auto simp: timers_def)
  with None assms show ?thesis by (simp add: heap_remove_def heap_thread_def)
next
  case (Some i)
  have i: "i < length (heap h)" "tm_fd (heap h ! i) = tm_fd t"
    using ref_okD2 [OF _ Some] assms(1) by (auto simp: heap_inv_def)
  obtain h' where "del_node i h = Inr h'" "heap_inv h'" "threadId h' = threadId h"
      "length (heap h') = length (heap h) - 1" "timers h' = (timers h)(tm_fd (heap h ! i) := None)"
    using del_node_ok [OF assms(1) i(1) assms(3)] by blast
  with Some i assms(2) show ?thesis by (simp add: heap_remove_def heap_thread_def)
qed

text \<open>The root expires first.\<close>

lemma heap_root_min:
  assumes "heap_ordered (length xs) xs" "k < length xs"
  shows "tkey xs 0 \<le> tkey xs k"
  using assms(2)
proof (induction k rule: less_induct)
  case (less k)
  show ?case
  proof (cases "k = 0")
    case False
    have p: "(k - 1) div 2 < k" using False by (intro parent_less) simp
    have "tkey xs 0 \<le> tkey xs ((k - 1) div 2)" using less.IH [OF p] p less.prems by simp
    also have "\<dots> \<le> tkey xs k" using assms(1) less.prems False by (simp add: heap_ordered_def)
    finally show ?thesis .
  qed simp
qed

lemma heap_top_ok:
  assumes "heap_inv h" "tid = threadId h" "heap h \<noteq> []"
  shows "\<exists>t. heap_top tid h = Inr t \<and> timers h (tm_fd t) = Some t \<and> hd (heap h) = t \<and>
     (\<forall>fd u. timers h fd = Some u \<longrightarrow> tm_expire t \<le> tm_expire u)"
proof -
  obtain t ts where ts: "heap h = t # ts" using assms(3) by (cases "heap h") auto
  have rok: "ref_ok h" using assms(1) by (simp add: heap_inv_def)
  have "tm_expire t \<le> tm_expire u" if u: "u \<in> set (heap h)" for u
  proof -
    obtain k where "k < length (heap h)" "u = heap h ! k" using u by (auto simp: in_set_conv_nth)
    with heap_root_min [of "heap h" k] assms(1) ts show ?thesis by (simp add: heap_inv_def tkey_def)
  qed
  with ref_ok_timers [OF rok] ts assms(2) show ?thesis
    by (simp add: heap_top_def heap_thread_def)
qed

lemma heap_pop_ok:
  assumes "heap_inv h" "tid = threadId h" "heap h \<noteq> []" "length (heap h) \<le> 2 ^ 31"
  shows "\<exists>h'. heap_pop tid h = Inr h' \<and> heap_inv h' \<and> threadId h' = tid \<and>
     length (heap h') = length (heap h) - 1 \<and> timers h' = (timers h)(tm_fd (hd (heap h)) := None)"
proof -
  have "hd (heap h) = heap h ! 0" using assms(3) by (simp add: hd_conv_nth)
  with del_node_ok [OF assms(1) _ assms(4), of 0] assms(2,3)
  show ?thesis by (auto simp: heap_pop_def heap_thread_def)
qed

lemma heap_inv_new [simp]: "heap_inv (new_timer_heap tid)"
  by (simp add: heap_inv_def new_timer_heap_def ref_ok_def heap_ordered_def)

lemma timers_empty: "ref_ok h \<Longrightarrow> heap h = [] \<longleftrightarrow> timers h = Map.empty"
proof
  assume r: "ref_ok h"
  show "heap h = [] \<Longrightarrow> timers h = Map.empty"
    using ref_okD2 [OF r] by (fastforce simp: timers_def)
  show "timers h = Map.empty \<Longrightarrow> heap h = []"
    using ref_okD1 [OF r, of 0] by (auto simp: timers_def fun_eq_iff)
qed

end
