(* ===== verification/TimerQueue.thy ===== *)
theory TimerQueue
  imports TimerHeap TimeStamp
begin

text \<open>
  \<open>haha_web/net/TimerQueue.{h,cpp}\<close>: the timers of an event loop. What the code relies on of the
  heap is the locale \<open>timer_queue\<close>, interpreted on the operations of \<open>TimerHeap\<close>.
\<close>

section \<open>The contract of a queue of timers\<close>

text \<open>Taking timers from a queue while they are due, at most \<open>fuel\<close> of them.\<close>

fun drain ::
  "('h \<Rightarrow> 'c timer res) \<Rightarrow> ('h \<Rightarrow> 'h res) \<Rightarrow> ('h \<Rightarrow> nat) \<Rightarrow> nat \<Rightarrow> nat \<Rightarrow> 'h \<Rightarrow> ('c timer list \<times> 'h) res" where
  "drain root pop sz now 0 h = Inr ([], h)"
| "drain root pop sz now (Suc fuel) h =
     (if sz h = 0 then Inr ([], h)
      else rbind (root h) (\<lambda>t.
        if ts_le (tm_expire t) now
        then rbind (pop h) (\<lambda>h'.
               rbind (drain root pop sz now fuel h') (\<lambda>(ts, h''). Inr (t # ts, h'')))
        else Inr ([], h)))"

locale timer_queue =
  fixes inv :: "'h \<Rightarrow> bool"
    and contents :: "'h \<Rightarrow> int \<Rightarrow> 'c timer option"
    and sz :: "'h \<Rightarrow> nat"
    and root :: "'h \<Rightarrow> 'c timer res"
    and pop :: "'h \<Rightarrow> 'h res"
    and push :: "'c timer \<Rightarrow> 'h \<Rightarrow> 'h res"
    and remove :: "int \<Rightarrow> 'h \<Rightarrow> 'h res"
    and room :: "'h \<Rightarrow> bool"
  assumes empty_contents: "inv h \<Longrightarrow> sz h = 0 \<longleftrightarrow> contents h = Map.empty"
    and top_min: "inv h \<Longrightarrow> sz h \<noteq> 0 \<Longrightarrow>
      \<exists>t. root h = Inr t \<and> contents h (tm_fd t) = Some t \<and>
        (\<forall>fd u. contents h fd = Some u \<longrightarrow> tm_expire t \<le> tm_expire u)"
    and pop_top: "inv h \<Longrightarrow> sz h \<noteq> 0 \<Longrightarrow> root h = Inr t \<Longrightarrow>
      \<exists>h'. pop h = Inr h' \<and> inv h' \<and> sz h' < sz h \<and> contents h' = (contents h)(tm_fd t := None)"
    and push_one: "inv h \<Longrightarrow> room h \<Longrightarrow> 0 \<le> tm_fd t \<Longrightarrow>
      \<exists>h'. push t h = Inr h' \<and> inv h' \<and> contents h' = (contents h)(tm_fd t \<mapsto> t)"
    and remove_one: "inv h \<Longrightarrow>
      \<exists>h'. remove fd h = Inr h' \<and> inv h' \<and> contents h' = (contents h)(fd := None)"
    and contents_fd: "inv h \<Longrightarrow> contents h fd = Some t \<Longrightarrow> tm_fd t = fd"
begin

text \<open>A timer that is removed does not fire: the queue holds the others only.\<close>

lemma push_remove:
  assumes "inv h" "room h" "0 \<le> tm_fd t"
  shows "\<exists>h1 h2. push t h = Inr h1 \<and> remove (tm_fd t) h1 = Inr h2 \<and> inv h2 \<and>
     contents h2 = (contents h)(tm_fd t := None)"
proof -
  obtain h1 where "push t h = Inr h1" "inv h1" "contents h1 = (contents h)(tm_fd t \<mapsto> t)"
    using push_one [OF assms] by blast
  with remove_one [of h1 "tm_fd t"] show ?thesis by fastforce
qed

text \<open>With enough fuel every due timer is taken once, in the order of expiry, and no other.\<close>

lemma drain_all:
  assumes "inv h" "sz h \<le> fuel"
  shows "\<exists>ts h'. drain root pop sz now fuel h = Inr (ts, h') \<and> inv h' \<and>
     sorted (map tm_expire ts) \<and> distinct (map tm_fd ts) \<and>
     set ts = {t. contents h (tm_fd t) = Some t \<and> ts_le (tm_expire t) now} \<and>
     contents h' = (\<lambda>fd. case contents h fd of
                       None \<Rightarrow> None
                     | Some t \<Rightarrow> if ts_le (tm_expire t) now then None else Some t)"
  using assms
proof (induction fuel arbitrary: h)
  case 0
  then have "contents h = Map.empty" using empty_contents by simp
  with 0 show ?case by auto
next
  case (Suc fuel)
  show ?case
  proof (cases "sz h = 0")
    case True
    then have "contents h = Map.empty" using empty_contents Suc.prems(1) by simp
    with Suc.prems True show ?thesis by auto
  next
    case False
    obtain t where t: "root h = Inr t" "contents h (tm_fd t) = Some t"
        and least: "\<And>fd u. contents h fd = Some u \<Longrightarrow> tm_expire t \<le> tm_expire u"
      using top_min [OF Suc.prems(1) False] by blast
    show ?thesis
    proof (cases "ts_le (tm_expire t) now")
      case late: False
      have "\<not> ts_le (tm_expire u) now" if "contents h fd = Some u" for fd u
        using least [OF that] late by (simp add: ts_le_def)
      then have "contents h = (\<lambda>fd. case contents h fd of
                       None \<Rightarrow> None
                     | Some t \<Rightarrow> if ts_le (tm_expire t) now then None else Some t)"
          and "{u. contents h (tm_fd u) = Some u \<and> ts_le (tm_expire u) now} = {}"
        by (auto simp: fun_eq_iff split: option.split)
      with False late t Suc.prems(1) show ?thesis by auto
    next
      case due: True
      obtain h1 where h1: "pop h = Inr h1" "inv h1" "sz h1 < sz h"
          "contents h1 = (contents h)(tm_fd t := None)"
        using pop_top [OF Suc.prems(1) False t(1)] by blast
      obtain ts h' where r: "drain root pop sz now fuel h1 = Inr (ts, h')" "inv h'"
          "sorted (map tm_expire ts)" "distinct (map tm_fd ts)"
          "set ts = {u. contents h1 (tm_fd u) = Some u \<and> ts_le (tm_expire u) now}"
          "contents h' = (\<lambda>fd. case contents h1 fd of
                       None \<Rightarrow> None
                     | Some t \<Rightarrow> if ts_le (tm_expire t) now then None else Some t)"
        using Suc.IH [OF h1(2)] h1(3) Suc.prems(2) by auto
      have "set (t # ts) = {u. contents h (tm_fd u) = Some u \<and> ts_le (tm_expire u) now}"
        using r(5) h1(4) t(2) due by auto
      moreover have "sorted (map tm_expire (t # ts))"
        using r(3,5) h1(4) least by (auto split: if_splits)
      moreover have "distinct (map tm_fd (t # ts))"
        using r(4,5) h1(4) by auto
      moreover have "contents h' = (\<lambda>fd. case contents h fd of
                       None \<Rightarrow> None
                     | Some t \<Rightarrow> if ts_le (tm_expire t) now then None else Some t)"
        using r(6) h1(4) t(2) due by (auto simp: fun_eq_iff)
      moreover have "drain root pop sz now (Suc fuel) h = Inr (t # ts, h')"
        using False t(1) due h1(1) r(1) by simp
      ultimately show ?thesis using r(2) by blast
    qed
  qed
qed

end

section \<open>The heap keeps the contract\<close>

definition usable :: "'c timer_heap \<Rightarrow> bool" where
  "usable h \<longleftrightarrow> heap_inv h \<and> length (heap h) \<le> 2 ^ 31"

interpretation th: timer_queue usable timers "\<lambda>h. length (heap h)"
  "\<lambda>h. heap_top (threadId h) h" "\<lambda>h. heap_pop (threadId h) h"
  "\<lambda>t h. heap_push (threadId h) t h"
  "\<lambda>fd h. heap_remove (threadId h) \<lparr>tm_fd = fd, tm_expire = 0, tm_cb = None\<rparr> h"
  "\<lambda>h. length (heap h) < 2 ^ 31"
proof (unfold_locales, goal_cases)
  case (1 h)
  then show ?case using timers_empty [of h] by (auto simp: usable_def heap_inv_def)
next
  case (2 h)
  then show ?case using heap_top_ok [of h "threadId h"] by (auto simp: usable_def)
next
  case (3 h t)
  then have ne: "heap h \<noteq> []" and "hd (heap h) = t"
    by (auto simp: heap_top_def heap_thread_def split: list.splits)
  with 3 heap_pop_ok [of h "threadId h"] show ?case by (auto simp: usable_def)
next
  case (4 h t)
  show ?case
  proof (cases "ref h (tm_fd t)")
    case None
    with 4 heap_push_new [of h "threadId h" t] show ?thesis by (auto simp: usable_def)
  next
    case (Some i)
    with 4 heap_push_old [of h "threadId h" t i] show ?thesis by (auto simp: usable_def)
  qed
next
  case (5 h fd)
  with heap_remove_ok [of h "threadId h" "\<lparr>tm_fd = fd, tm_expire = 0, tm_cb = None\<rparr>"]
  show ?case by (fastforce simp: usable_def)
next
  case (6 h fd t)
  then show ?case using ref_ok_timers [of h fd t] by (simp add: usable_def heap_inv_def)
qed

section \<open>The queue of an event loop\<close>

record 'c timer_queue_state =
  timeFd :: int
  timerHeap :: "'c timer_heap"

definition new_timer_queue :: "int \<Rightarrow> nat \<Rightarrow> 'c timer_queue_state" where
  "new_timer_queue fd tid = \<lparr>timeFd = fd, timerHeap = new_timer_heap tid\<rparr>"

definition tq_push :: "nat \<Rightarrow> 'c timer \<Rightarrow> 'c timer_queue_state \<Rightarrow> 'c timer_queue_state res" where
  "tq_push tid t q = rbind (heap_push tid t (timerHeap q)) (\<lambda>h. Inr (q\<lparr>timerHeap := h\<rparr>))"

definition tq_adjust :: "nat \<Rightarrow> 'c timer \<Rightarrow> 'c timer_queue_state \<Rightarrow> 'c timer_queue_state res" where
  "tq_adjust tid t q = rbind (heap_adjust tid t (timerHeap q)) (\<lambda>h. Inr (q\<lparr>timerHeap := h\<rparr>))"

definition tq_remove :: "nat \<Rightarrow> 'c timer \<Rightarrow> 'c timer_queue_state \<Rightarrow> 'c timer_queue_state res" where
  "tq_remove tid t q = rbind (heap_remove tid t (timerHeap q)) (\<lambda>h. Inr (q\<lparr>timerHeap := h\<rparr>))"

text \<open>
  The arguments of \<open>timerfd_settime\<close>: the first expiry and the interval, as seconds and
  nanoseconds; \<open>now\<close> is the answer of \<open>clock_gettime\<close>. The microseconds are multiplied by 100.
\<close>

record itimerspec =
  value_sec :: nat
  value_nsec :: nat
  interval_sec :: nat
  interval_nsec :: nat

definition timer_nanos :: "timestamp \<Rightarrow> nat" where
  "timer_nanos t = u64 (int ((get_microsecond t - get_second t * 1000000) * 100))"

definition runOnce :: "nat \<times> nat \<Rightarrow> timestamp \<Rightarrow> itimerspec" where
  "runOnce now t =
     \<lparr>value_sec = fst now + get_second t, value_nsec = snd now + timer_nanos t,
      interval_sec = 0, interval_nsec = 0\<rparr>"

definition runForever :: "nat \<times> nat \<Rightarrow> timestamp \<Rightarrow> itimerspec" where
  "runForever now t =
     \<lparr>value_sec = fst now + get_second t, value_nsec = snd now + timer_nanos t,
      interval_sec = get_second t, interval_nsec = timer_nanos t\<rparr>"

text \<open>
  \<open>handleTimeout\<close>: \<open>run\<close> is the effect of a callback on the world and on the heap. The callback
  runs before the pop. An empty callback throws. The loop may run forever when callbacks push.
\<close>

definition call_timer ::
  "('c \<Rightarrow> 'w \<times> 'c timer_heap \<Rightarrow> ('w \<times> 'c timer_heap) res) \<Rightarrow> 'c timer \<Rightarrow> 'w \<times> 'c timer_heap \<Rightarrow>
   ('w \<times> 'c timer_heap) res" where
  "call_timer run t x =
     (case tm_cb t of
        None \<Rightarrow> Inl (Raised (Logic_error ''bad_function_call''))
      | Some c \<Rightarrow> run c x)"

partial_function (option) timeout_loop ::
  "nat \<Rightarrow> timestamp \<Rightarrow> ('c \<Rightarrow> 'w \<times> 'c timer_heap \<Rightarrow> ('w \<times> 'c timer_heap) res) \<Rightarrow> 'w \<times> 'c timer_heap \<Rightarrow>
   ('w \<times> 'c timer_heap) res option" where
  "timeout_loop tid now run x =
     (case heap_empty tid (snd x) of
        Inl e \<Rightarrow> Some (Inl e)
      | Inr emp \<Rightarrow>
          if emp then Some (Inr x)
          else (case heap_top tid (snd x) of
                  Inl e \<Rightarrow> Some (Inl e)
                | Inr t \<Rightarrow>
                    if ts_le (tm_expire t) now
                    then (case rbind (call_timer run t x) (\<lambda>(w, h).
                                rbind (heap_pop tid h) (\<lambda>h'. Inr (w, h'))) of
                            Inl e \<Rightarrow> Some (Inl e)
                          | Inr y \<Rightarrow> timeout_loop tid now run y)
                    else Some (Inr x)))"

definition handleTimeout ::
  "nat \<Rightarrow> timestamp \<Rightarrow> ('c \<Rightarrow> 'w \<times> 'c timer_heap \<Rightarrow> ('w \<times> 'c timer_heap) res) \<Rightarrow> 'w \<Rightarrow>
   'c timer_queue_state \<Rightarrow> ('w \<times> 'c timer_queue_state) res option" where
  "handleTimeout tid now run w q =
     (case timeout_loop tid now run (w, timerHeap q) of
        None \<Rightarrow> None
      | Some r \<Rightarrow> Some (rbind r (\<lambda>(w', h). Inr (w', q\<lparr>timerHeap := h\<rparr>))))"

text \<open>A callback that leaves the timers alone, and writes its name into a log.\<close>

definition log_run :: "'c \<Rightarrow> 'c list \<times> 'c timer_heap \<Rightarrow> ('c list \<times> 'c timer_heap) res" where
  "log_run c x = Inr (fst x @ [c], snd x)"

lemma timeout_loop_drain:
  assumes "usable h" "threadId h = tid"
    and "drain (\<lambda>h. heap_top (threadId h) h) (\<lambda>h. heap_pop (threadId h) h) (\<lambda>h. length (heap h)) now fuel h =
      Inr (ts, h')"
    and "length (heap h) \<le> fuel" and "\<forall>t \<in> set ts. tm_cb t \<noteq> None"
  shows "timeout_loop tid now log_run (w, h) = Some (Inr (w @ map (the \<circ> tm_cb) ts, h'))"
  using assms
proof (induction fuel arbitrary: h w ts)
  case 0
  then show ?case by (subst timeout_loop.simps) (simp add: heap_empty_def heap_thread_def)
next
  case (Suc fuel)
  show ?case
  proof (cases "heap h = []")
    case True
    with Suc.prems show ?thesis by (subst timeout_loop.simps) (auto simp: heap_empty_def heap_thread_def)
  next
    case False
    obtain t where t: "heap_top tid h = Inr t"
      using False Suc.prems(2) by (cases "heap h") (auto simp: heap_top_def heap_thread_def)
    show ?thesis
    proof (cases "ts_le (tm_expire t) now")
      case late: False
      with Suc.prems(2,3) False t show ?thesis
        by (subst timeout_loop.simps) (auto simp: heap_empty_def heap_thread_def)
    next
      case True
      obtain h1 ts1 where h1: "heap_pop tid h = Inr h1"
          "drain (\<lambda>h. heap_top (threadId h) h) (\<lambda>h. heap_pop (threadId h) h) (\<lambda>h. length (heap h)) now fuel h1 =
            Inr (ts1, h')" "ts = t # ts1"
        using Suc.prems(2,3) False t True by (auto simp: rbind_Inr_conv)
      have ok: "usable h1" "threadId h1 = tid" "length (heap h1) \<le> fuel"
        using heap_pop_ok [of h tid] Suc.prems(1,2,4) False h1(1) by (auto simp: usable_def)
      obtain c where c: "tm_cb t = Some c" using Suc.prems(5) h1(3) by auto
      have "timeout_loop tid now log_run (w, h) = timeout_loop tid now log_run (w @ [c], h1)"
        using Suc.prems(2) False t True h1(1) c
        by (subst timeout_loop.simps) (simp add: heap_empty_def heap_thread_def call_timer_def log_run_def)
      also have "\<dots> = Some (Inr ((w @ [c]) @ map (the \<circ> tm_cb) ts1, h'))"
        using Suc.prems(5) h1(2,3) ok by (intro Suc.IH) auto
      finally show ?thesis using h1(3) c by simp
    qed
  qed
qed

text \<open>C6: \<open>handleTimeout\<close> returns, and fires exactly the callbacks of the timers that are due, each once, in
  the order of their expiry; afterwards exactly the timers that are not due are pending. The
  callbacks are assumed not to touch the timers, as those the servers register.
\<close>

theorem handleTimeout_fires_due:
  assumes "usable (timerHeap q)" "threadId (timerHeap q) = tid"
    and "\<And>t. timers (timerHeap q) (tm_fd t) = Some t \<Longrightarrow> ts_le (tm_expire t) now \<Longrightarrow> tm_cb t \<noteq> None"
  shows "\<exists>ts h'. handleTimeout tid now log_run [] q = Some (Inr (map (the \<circ> tm_cb) ts, q\<lparr>timerHeap := h'\<rparr>)) \<and>
     usable h' \<and> sorted (map tm_expire ts) \<and> distinct (map tm_fd ts) \<and>
     set ts = {t. timers (timerHeap q) (tm_fd t) = Some t \<and> ts_le (tm_expire t) now} \<and>
     timers h' = (\<lambda>fd. case timers (timerHeap q) fd of
                       None \<Rightarrow> None
                     | Some t \<Rightarrow> if ts_le (tm_expire t) now then None else Some t)"
proof -
  let ?h = "timerHeap q"
  obtain ts h' where d: "drain (\<lambda>h. heap_top (threadId h) h) (\<lambda>h. heap_pop (threadId h) h)
        (\<lambda>h. length (heap h)) now (length (heap ?h)) ?h = Inr (ts, h')"
      "usable h'" "sorted (map tm_expire ts)" "distinct (map tm_fd ts)"
      "set ts = {t. timers ?h (tm_fd t) = Some t \<and> ts_le (tm_expire t) now}"
      "timers h' = (\<lambda>fd. case timers ?h fd of
                       None \<Rightarrow> None
                     | Some t \<Rightarrow> if ts_le (tm_expire t) now then None else Some t)"
    using th.drain_all [OF assms(1) order_refl, of now] by blast
  have "timeout_loop tid now log_run ([], ?h) = Some (Inr ([] @ map (the \<circ> tm_cb) ts, h'))"
    using d(5) assms(3) by (intro timeout_loop_drain [OF assms(1,2) d(1) order_refl]) auto
  with d show ?thesis by (intro exI [of _ ts] exI [of _ h']) (simp add: handleTimeout_def)
qed

definition demo_heap :: "string timer_heap" where
  "demo_heap =
     \<lparr>heap = [\<lparr>tm_fd = 4, tm_expire = 10, tm_cb = Some ''a''\<rparr>, \<lparr>tm_fd = 5, tm_expire = 30, tm_cb = Some ''b''\<rparr>],
      ref = [4 \<mapsto> 0, 5 \<mapsto> 1], threadId = 7\<rparr>"

lemma demo_heap_usable: "usable demo_heap"
proof -
  have "ref_ok demo_heap"
    unfolding ref_ok_def
  proof (intro conjI allI impI)
    fix i assume "i < length (heap demo_heap)"
    then have "i = 0 \<or> i = 1" by (auto simp: demo_heap_def)
    then show "ref demo_heap (tm_fd (heap demo_heap ! i)) = Some i" by (auto simp: demo_heap_def)
  next
    fix fd i assume "ref demo_heap fd = Some i"
    then show "i < length (heap demo_heap)" "tm_fd (heap demo_heap ! i) = fd"
      by (auto simp: demo_heap_def split: if_splits)
  qed
  moreover have "heap_ordered 2 (heap demo_heap)"
    by (auto simp: heap_ordered_def demo_heap_def tkey_def less_2_cases_iff)
  moreover have "length (heap demo_heap) = 2" by (simp add: demo_heap_def)
  ultimately show ?thesis by (simp add: usable_def heap_inv_def)
qed

theorem handleTimeout_fires_due_witness:
  "\<exists>ts h'. handleTimeout 7 20 log_run [] \<lparr>timeFd = 3, timerHeap = demo_heap\<rparr> =
       Some (Inr (map (the \<circ> tm_cb) ts, \<lparr>timeFd = 3, timerHeap = demo_heap\<rparr>\<lparr>timerHeap := h'\<rparr>)) \<and>
     usable h' \<and> sorted (map tm_expire ts) \<and> distinct (map tm_fd ts) \<and>
     set ts = {t. timers (timerHeap \<lparr>timeFd = 3, timerHeap = demo_heap\<rparr>) (tm_fd t) = Some t \<and> ts_le (tm_expire t) 20} \<and>
     timers h' = (\<lambda>fd. case timers (timerHeap \<lparr>timeFd = 3, timerHeap = demo_heap\<rparr>) fd of
                       None \<Rightarrow> None
                     | Some t \<Rightarrow> if ts_le (tm_expire t) 20 then None else Some t)"
proof (rule handleTimeout_fires_due)
  show "usable (timerHeap \<lparr>timeFd = 3, timerHeap = demo_heap\<rparr>)" using demo_heap_usable by simp
  show "threadId (timerHeap \<lparr>timeFd = 3, timerHeap = demo_heap\<rparr>) = 7" by (simp add: demo_heap_def)
  show "tm_cb t \<noteq> None"
    if "timers (timerHeap \<lparr>timeFd = 3, timerHeap = demo_heap\<rparr>) (tm_fd t) = Some t" for t :: "string timer"
    using that by (auto simp: timers_def demo_heap_def split: if_splits)
qed

section \<open>The operations of the loop on its timers\<close>



text \<open>\<open>adjust\<close> only sifts down. Moving a deadline to an earlier time can leave the queue answering a
  timer that is not the next one.
\<close>

theorem adjust_earlier_breaks_order:
  "\<exists>h :: string timer_heap. \<exists>h' t. usable h \<and> heap_adjust (threadId h) \<lparr>tm_fd = 5, tm_expire = 1, tm_cb = None\<rparr> h = Inr h' \<and>
     heap_top (threadId h) h' = Inr t \<and> tm_expire t = 10 \<and>
     (\<exists>u. timers h' 5 = Some u \<and> tm_expire u = 1)"
proof -
  let ?h' = "demo_heap\<lparr>heap := [\<lparr>tm_fd = 4, tm_expire = 10, tm_cb = Some ''a''\<rparr>, \<lparr>tm_fd = 5, tm_expire = 1, tm_cb = Some ''b''\<rparr>]\<rparr>"
  have "heap_adjust (threadId demo_heap) \<lparr>tm_fd = 5, tm_expire = 1, tm_cb = None\<rparr> demo_heap = Inr ?h'"
    by (simp add: heap_adjust_def heap_thread_def demo_heap_def siftdown_def siftdown_loop.simps)
  moreover have "heap_top (threadId demo_heap) ?h' = Inr \<lparr>tm_fd = 4, tm_expire = 10, tm_cb = Some ''a''\<rparr>"
    by (simp add: heap_top_def heap_thread_def demo_heap_def)
  moreover have "timers ?h' 5 = Some \<lparr>tm_fd = 5, tm_expire = 1, tm_cb = Some ''b''\<rparr>"
    by (simp add: timers_def demo_heap_def)
  ultimately show ?thesis using demo_heap_usable
    by (intro exI [of _ demo_heap] exI [of _ ?h'] exI [of _ "\<lparr>tm_fd = 4, tm_expire = 10, tm_cb = Some ''a''\<rparr>"]) simp
qed

end
