(* ===== verification/JsonUtil.thy ===== *)
theory JsonUtil
  imports Prelude Complex_Main "HOL-Library.Word"
begin

text \<open>
  \<open>haha_web/haha_json/haha_json/jsonUtil.{h,cpp}\<close>: character tests, white space, the \<open>\u\<close> escapes,
  and what the JSON code uses of the standard library for numbers: \<open>strtod\<close> and the rounding to a
  64-bit floating point number, \<open>printf\<close>'s \<open>%f\<close>, and the hexadecimal stream extraction.
\<close>

section \<open>Characters and white space\<close>

definition isNumberComponent :: "char \<Rightarrow> bool" where
  "isNumberComponent c \<longleftrightarrow>
     isdigit c \<or> c = CHR ''e'' \<or> c = CHR ''E'' \<or> c = CHR ''-'' \<or> c = CHR ''.''"

definition isHex :: "char \<Rightarrow> bool" where
  "isHex c \<longleftrightarrow> isdigit c \<or> (97 \<le> byte c \<and> byte c \<le> 102) \<or> (65 \<le> byte c \<and> byte c \<le> 70)"

text \<open>The comparison is on a signed \<open>char\<close>: bytes from 128 on count as control characters.\<close>

definition isCtrlAndSpace :: "char \<Rightarrow> bool" where
  "isCtrlAndSpace c \<longleftrightarrow> schar c \<le> 32"

definition skip_CtrlAndSpace :: "string \<Rightarrow> string" where
  "skip_CtrlAndSpace v = dropWhile isCtrlAndSpace v"

definition utf8_bom :: string where
  "utf8_bom = [CHR 0xEF, CHR 0xBB, CHR 0xBF]"

definition skip_utf8_bom :: "string \<Rightarrow> string" where
  "skip_utf8_bom v = (if v \<noteq> [] \<and> compare_prefix 3 utf8_bom v then drop 3 v else v)"

lemma length_skip: "length (skip_CtrlAndSpace v) \<le> length v"
  by (simp add: skip_CtrlAndSpace_def length_dropWhile_le)

lemma skip_blank [simp]: "isCtrlAndSpace c \<Longrightarrow> skip_CtrlAndSpace (c # v) = skip_CtrlAndSpace v"
  by (simp add: skip_CtrlAndSpace_def)

lemma skip_token [simp]: "\<not> isCtrlAndSpace c \<Longrightarrow> skip_CtrlAndSpace (c # v) = c # v"
  by (simp add: skip_CtrlAndSpace_def)

section \<open>The escapes\<close>

text \<open>One digit of \<open>parse_hex4\<close>; \<open>None\<close> when it is none.\<close>

definition hex4_digit :: "char \<Rightarrow> nat option" where
  "hex4_digit c =
     (if isdigit c then Some (byte c - 48)
      else if 65 \<le> byte c \<and> byte c \<le> 70 then Some (10 + (byte c - 65))
      else if 97 \<le> byte c \<and> byte c \<le> 102 then Some (10 + (byte c - 97))
      else None)"

text \<open>\<open>parse_hex4\<close> on four bytes: an invalid digit gives 0.\<close>

fun hex4_loop :: "nat \<Rightarrow> string \<Rightarrow> nat" where
  "hex4_loop h [] = h"
| "hex4_loop h [c] = (case hex4_digit c of None \<Rightarrow> 0 | Some d \<Rightarrow> h + d)"
| "hex4_loop h (c # cs) = (case hex4_digit c of None \<Rightarrow> 0 | Some d \<Rightarrow> hex4_loop ((h + d) * 16) cs)"

definition parse_hex4 :: "string \<Rightarrow> nat" where
  "parse_hex4 s = hex4_loop 0 (take 4 s)"

text \<open>The bytes of a code point in UTF-8; the loop fills the string from its end.\<close>

definition utf8_tail_byte :: "nat \<Rightarrow> char" where
  "utf8_tail_byte n = char_of (and (or n 0x80) 0xBF)"

fun utf8_fill :: "nat \<Rightarrow> nat \<Rightarrow> string \<Rightarrow> nat \<times> string" where
  "utf8_fill 0 cp acc = (cp, acc)"
| "utf8_fill (Suc k) cp acc = utf8_fill k (drop_bit 6 cp) (utf8_tail_byte cp # acc)"

definition utf8_encode :: "nat \<Rightarrow> string option" where
  "utf8_encode cp =
     (let shape = (if cp < 0x80 then Some (1 :: nat, 0 :: nat)
                   else if cp < 0x800 then Some (2, 0xC0)
                   else if cp < 0x10000 then Some (3, 0xE0)
                   else if cp \<le> 0x10FFFF then Some (4, 0xF0)
                   else None)
      in case shape of
           None \<Rightarrow> None
         | Some (len, mark) \<Rightarrow>
             let (cp', rest) = utf8_fill (len - 1) cp []
             in if 1 < len then Some (char_of (and (or cp' mark) 0xFF) # rest)
                else Some [char_of (and cp' 0x7F)])"

text \<open>\<open>utf16_literal_to_utf8\<close>: \<open>None\<close> is the empty string, after which the caller gives up.\<close>

definition utf16_literal_to_utf8 :: "string \<Rightarrow> (string \<times> string) option res" where
  "utf16_literal_to_utf8 v =
     (if \<not> 2 < length v then Inl Assertion
      else if take 2 v \<noteq> [BSLASH, CHR ''u''] then Inl Assertion
      else let v1 = drop 2 v
           in if length v1 < 4 then Inr None
              else let first_code = parse_hex4 (take 4 v1)
                   in if 0xDC00 \<le> first_code \<and> first_code \<le> 0xDFFF then Inr None
                      else let v2 = drop 4 v1
                           in if 0xD800 \<le> first_code \<and> first_code \<le> 0xDBFF
                              then if length v2 < 6 \<or> take 2 v2 \<noteq> [BSLASH, CHR ''u''] then Inr None
                                   else let second_code = parse_hex4 (take 4 (drop 2 v2))
                                        in if second_code < 0xDC00 \<or> 0xDFFF < second_code then Inr None
                                           else Inr (map_option (\<lambda>s. (s, drop 6 v2))
                                             (utf8_encode (0x10000 + or (push_bit 10 (and first_code 0x3FF))
                                                                        (and second_code 0x3FF))))
                              else Inr (map_option (\<lambda>s. (s, v2)) (utf8_encode first_code)))"

text \<open>\<open>toBase<int, 16>\<close>: the stream stops at \<open>INT_MAX\<close>.\<close>

definition toBase16 :: "string \<Rightarrow> int" where
  "toBase16 s = min (2 ^ 31 - 1) (int (foldl (\<lambda>n c. n * 16 + (case hex4_digit c of None \<Rightarrow> 0 | Some d \<Rightarrow> d)) 0 s))"

section \<open>Floating point numbers\<close>

text \<open>A finite 64-bit floating point number: sign and magnitude.\<close>

datatype double = Double (dneg: bool) (dmag: rat)

definition dvalue :: "double \<Rightarrow> rat" where
  "dvalue d = (if dneg d then - dmag d else dmag d)"

definition half_even :: "rat \<Rightarrow> int" where
  "half_even x =
     (let n = \<lfloor>x\<rfloor>; r = x - of_int n
      in if r < 1 / 2 then n else if 1 / 2 < r then n + 1 else if even n then n else n + 1)"

fun ilog2 :: "nat \<Rightarrow> nat" where
  "ilog2 n = (if n < 2 then 0 else Suc (ilog2 (n div 2)))"

declare ilog2.simps [simp del]

fun neg_log :: "nat \<Rightarrow> rat \<Rightarrow> nat" where
  "neg_log 0 x = 0"
| "neg_log (Suc fuel) x = (if 1 \<le> x then 0 else Suc (neg_log fuel (2 * x)))"

text \<open>The exponent of a positive number; below \<open>2^-1100\<close> it does not matter.\<close>

definition bin_exponent :: "rat \<Rightarrow> int" where
  "bin_exponent x = (if 1 \<le> x then int (ilog2 (nat \<lfloor>x\<rfloor>)) else - int (neg_log 1100 x))"

text \<open>
  Rounding to the nearest of 53 bits, ties to even; \<open>None\<close> is the range error that \<open>stod\<close> turns
  into an exception: overflow, or a result below \<open>2^-1022\<close> that is not exact.
\<close>

definition round_double :: "rat \<Rightarrow> rat option" where
  "round_double x =
     (if x = 0 then Some 0
      else let e = max (bin_exponent x - 52) (- 1074);
               y = of_int (half_even (x / 2 powi e)) * 2 powi e
           in if 2 ^ 1024 \<le> y then None
              else if x < 2 powi - 1022 \<and> y \<noteq> x then None
              else Some y)"

text \<open>
  The number at the beginning of a string in the format of \<open>strtod\<close> (decimal only: the strings
  that reach it contain neither \<open>x\<close> nor letters other than \<open>e\<close>): sign, digits as one number and the
  power of ten.
\<close>

definition strtod_exponent :: "string \<Rightarrow> int" where
  "strtod_exponent s =
     (case s of
        c # r \<Rightarrow>
          if c = CHR ''e'' \<or> c = CHR ''E''
          then let (neg, ds) = strip_sign r; n = int (digits_val (takeWhile isdigit ds))
               in if neg then - n else n
          else 0
      | [] \<Rightarrow> 0)"

definition strtod_parse :: "string \<Rightarrow> (bool \<times> nat \<times> int) option" where
  "strtod_parse s =
     (let (neg, r) = strip_sign (dropWhile isspace s);
          ip = takeWhile isdigit r;
          r1 = dropWhile isdigit r;
          (fp, r2) = (case r1 of
             c # t \<Rightarrow> if c = CHR ''.'' then (takeWhile isdigit t, dropWhile isdigit t) else ([], r1)
           | [] \<Rightarrow> ([], []))
      in if ip = [] \<and> fp = [] then None
         else Some (neg, digits_val (ip @ fp), strtod_exponent r2 - int (length fp)))"

text \<open>\<open>std::stod\<close>: \<open>None\<close> when it throws.\<close>

definition stod :: "string \<Rightarrow> double option" where
  "stod s =
     (case strtod_parse s of
        None \<Rightarrow> None
      | Some (neg, d, p) \<Rightarrow> map_option (Double neg) (round_double (of_nat d * 10 powi p)))"

text \<open>\<open>std::to_string(double)\<close>, that is \<open>%f\<close>: six decimals of the exact value.\<close>

definition pad_digits :: "nat \<Rightarrow> nat \<Rightarrow> string" where
  "pad_digits k n = (let s = nat_to_string n in replicate (k - length s) (CHR ''0'') @ s)"

definition double_to_string :: "double \<Rightarrow> string" where
  "double_to_string d =
     (let n = nat (half_even (dmag d * 1000000))
      in (if dneg d then ''-'' else []) @ nat_to_string (n div 1000000) @ ''.'' @ pad_digits 6 (n mod 1000000))"

lemma half_even_int [simp]: "half_even (of_int n) = n"
  by (simp add: half_even_def)

lemma ilog2_less: "n < 2 ^ Suc k \<Longrightarrow> ilog2 n \<le> k"
proof (induction k arbitrary: n)
  case 0
  then show ?case by (simp add: ilog2.simps)
next
  case (Suc k)
  have "n div 2 < 2 ^ Suc k" using Suc.prems by (simp add: div_less_iff_less_mult mult.commute)
  from Suc.IH [OF this] show ?case by (subst ilog2.simps) simp
qed

text \<open>Integers below \<open>2^53\<close> are represented exactly.\<close>

lemma round_double_nat:
  assumes "n < 2 ^ 53"
  shows "round_double (of_nat n) = Some (of_nat n)"
proof (cases "n = 0")
  case False
  let ?e = "max (bin_exponent (of_nat n) - 52) (- 1074)"
  have b: "bin_exponent (of_nat n) = int (ilog2 n)" using False by (simp add: bin_exponent_def)
  have "ilog2 n \<le> 52" using ilog2_less [of n 52] assms by simp
  then obtain k where k: "?e = - int k" and "k \<le> 52"
    using b by (intro that [of "52 - ilog2 n"]) auto
  have "(of_nat n :: rat) / 2 powi ?e = of_int (int n * 2 ^ k)"
    unfolding k by (simp add: power_int_minus field_simps)
  then have "half_even (of_nat n / 2 powi ?e) = int n * 2 ^ k" by (simp only: half_even_int)
  then have y: "of_int (half_even (of_nat n / 2 powi ?e)) * 2 powi ?e = (of_nat n :: rat)"
    unfolding k by (simp add: power_int_minus field_simps)
  have "(of_nat n :: rat) < 2 ^ 53" using assms by (metis of_nat_less_numeral_power_cancel_iff)
  also have "\<dots> < 2 ^ 1024" by (rule power_strict_increasing) simp_all
  finally have up: "\<not> 2 ^ 1024 \<le> (of_nat n :: rat)" by simp
  with False y show ?thesis unfolding round_double_def Let_def by simp
qed (simp add: round_double_def)

end
