(* ===== verification/JsonValue.thy ===== *)
theory JsonValue
  imports JsonUtil
begin

text \<open>
  \<open>haha_web/haha_json/haha_json/jsonValue.{h,cpp}\<close>: the JSON values, the operations on arrays and
  objects, the deep copy and the printer. A shared pointer to a node is the node: no operation of
  the library updates a node that two parents share.
\<close>

section \<open>Values\<close>

datatype JsonType = UNKOWN | Object | Array | String | Integer | DoubleType | Boolean | Null

text \<open>An object is a \<open>std::map\<close>: its pairs in increasing order of keys.\<close>

datatype json =
    JsonObject "(string \<times> json) list"
  | JsonArray "json list"
  | JsonString string
  | JsonInteger int
  | JsonDouble double
  | JsonBoolean bool
  | JsonNull

fun getType :: "json \<Rightarrow> JsonType" where
  "getType (JsonObject m) = Object"
| "getType (JsonArray a) = Array"
| "getType (JsonString s) = String"
| "getType (JsonInteger i) = Integer"
| "getType (JsonDouble d) = DoubleType"
| "getType (JsonBoolean b) = Boolean"
| "getType JsonNull = Null"

definition isIterable :: "json \<Rightarrow> bool" where
  "isIterable v \<longleftrightarrow> getType v = Object \<or> getType v = Array"

definition isScalar :: "json \<Rightarrow> bool" where
  "isScalar v \<longleftrightarrow> \<not> isIterable v"

definition isNumber :: "json \<Rightarrow> bool" where
  "isNumber v \<longleftrightarrow> getType v = Integer \<or> getType v = DoubleType"

fun getJsonTypeName :: "JsonType \<Rightarrow> string" where
  "getJsonTypeName Object = ''Object''"
| "getJsonTypeName Array = ''Array''"
| "getJsonTypeName String = ''String''"
| "getJsonTypeName Integer = ''Integer''"
| "getJsonTypeName DoubleType = ''Double''"
| "getJsonTypeName Boolean = ''Boolean''"
| "getJsonTypeName Null = ''Null''"
| "getJsonTypeName UNKOWN = ''---error---''"

section \<open>Objects and arrays\<close>

text \<open>The order of \<open>std::string\<close>: lexicographic on unsigned bytes.\<close>

fun string_less :: "string \<Rightarrow> string \<Rightarrow> bool" where
  "string_less a [] = False"
| "string_less [] (d # b) = True"
| "string_less (c # a) (d # b) = (byte c < byte d \<or> (c = d \<and> string_less a b))"

text \<open>\<open>std::map::insert\<close>: a key that is present keeps its value.\<close>

fun map_insert :: "string \<Rightarrow> 'v \<Rightarrow> (string \<times> 'v) list \<Rightarrow> (string \<times> 'v) list" where
  "map_insert k v [] = [(k, v)]"
| "map_insert k v ((k', v') # m) =
     (if string_less k k' then (k, v) # (k', v') # m
      else if string_less k' k then (k', v') # map_insert k v m
      else (k', v') # m)"

definition map_erase :: "string \<Rightarrow> (string \<times> 'v) list \<Rightarrow> (string \<times> 'v) list" where
  "map_erase k m = filter (\<lambda>(k', _). k' \<noteq> k) m"

definition array_add :: "json \<Rightarrow> json list \<Rightarrow> json list" where
  "array_add v a = a @ [v]"

definition object_add :: "string \<Rightarrow> json \<Rightarrow> (string \<times> json) list \<Rightarrow> (string \<times> json) list" where
  "object_add k v m = map_insert k v m"

text \<open>\<open>JsonObject::del\<close> returns the number of erased pairs.\<close>

definition object_del :: "string \<Rightarrow> (string \<times> json) list \<Rightarrow> nat \<times> (string \<times> json) list" where
  "object_del k m = (length m - length (map_erase k m), map_erase k m)"

definition object_get :: "string \<Rightarrow> (string \<times> json) list \<Rightarrow> json res" where
  "object_get k m = (case map_of m k of None \<Rightarrow> Inl (Raised Out_of_range) | Some v \<Rightarrow> Inr v)"

text \<open>The two virtual \<open>operator[]\<close>: only the array takes a number, only the object a key.\<close>

definition index_key :: "string \<Rightarrow> json \<Rightarrow> json res" where
  "index_key k v =
     (case v of
        JsonObject m \<Rightarrow> object_get k m
      | _ \<Rightarrow> Inl (Raised (Json_error ''do not support operator[]'')))"

definition index_nat :: "nat \<Rightarrow> json \<Rightarrow> json res" where
  "index_nat i v =
     (case v of
        JsonArray a \<Rightarrow> if i < length a then Inr (a ! i) else Inl Undefined
      | _ \<Rightarrow> Inl (Raised (Json_error ''do not support operator[]'')))"

text \<open>\<open>JsonNode::copyFrom\<close> and the copy constructors: a scalar is copied, an array element by
  element, an object by inserting the copies of its pairs into an empty map.\<close>

fun json_copy :: "json \<Rightarrow> json" where
  "json_copy (JsonArray a) = JsonArray (fold array_add (map json_copy a) [])"
| "json_copy (JsonObject m) =
     JsonObject (fold (\<lambda>(k, v). map_insert k v) (map (\<lambda>(k, v). (k, json_copy v)) m) [])"
| "json_copy v = v"

section \<open>Printing\<close>

datatype JsonFormatType = RAW | SPACE | NEWLINE

definition escape_char :: "char \<Rightarrow> string" where
  "escape_char c =
     (if schar c > 31 \<and> c \<noteq> DQUOTE \<and> c \<noteq> BSLASH then [c]
      else if c = BSLASH then [BSLASH, BSLASH]
      else if c = DQUOTE then [BSLASH, DQUOTE]
      else if c = CHR 0x08 then [BSLASH, CHR ''b'']
      else if c = CHR 0x0C then [BSLASH, CHR ''f'']
      else if c = LF then [BSLASH, CHR ''n'']
      else if c = CR then [BSLASH, CHR ''r'']
      else if c = TAB then [BSLASH, CHR ''t'']
      else [c])"

definition string_toString :: "string \<Rightarrow> string" where
  "string_toString s = DQUOTE # concat (map escape_char s) @ [DQUOTE]"

definition new_line :: "JsonFormatType \<Rightarrow> nat \<Rightarrow> string" where
  "new_line fmt depth = (if fmt = NEWLINE then LF # replicate depth TAB else [])"

text \<open>The loops over the elements: what is printed before and after each of them.\<close>

fun print_items :: "JsonFormatType \<Rightarrow> nat \<Rightarrow> string list \<Rightarrow> string" where
  "print_items fmt depth [] = []"
| "print_items fmt depth (s # ss) =
     new_line fmt (depth + 1) @ s @
     (if ss = [] then [] else '','' @ (if fmt = SPACE then '' '' else []) @ print_items fmt depth ss)"

definition closing :: "JsonFormatType \<Rightarrow> nat \<Rightarrow> 'v list \<Rightarrow> string" where
  "closing fmt depth xs = (if xs = [] then [] else new_line fmt depth)"

fun json_toString :: "JsonFormatType \<Rightarrow> nat \<Rightarrow> json \<Rightarrow> string" where
  "json_toString fmt depth (JsonString s) = string_toString s"
| "json_toString fmt depth (JsonInteger i) = int_to_string i"
| "json_toString fmt depth (JsonDouble d) = double_to_string d"
| "json_toString fmt depth (JsonBoolean b) = (if b then ''true'' else ''false'')"
| "json_toString fmt depth JsonNull = ''null''"
| "json_toString fmt depth (JsonArray a) =
     ''['' @ print_items fmt depth (map (json_toString fmt (depth + 1)) a) @ closing fmt depth a @ '']''"
| "json_toString fmt depth (JsonObject m) =
     ''{'' @ print_items fmt depth
       (map (\<lambda>(k, v). string_toString k @ '':'' @ (if fmt = RAW then [] else '' '') @
                       json_toString fmt (depth + 1) v) m)
     @ closing fmt depth m @ ''}''"

section \<open>The order of keys\<close>

lemma string_less_irrefl [simp]: "\<not> string_less a a"
  by (induction a) auto

lemma string_less_trans: "string_less a b \<Longrightarrow> string_less b c \<Longrightarrow> string_less a c"
proof (induction a b arbitrary: c rule: string_less.induct)
  case (2 d b)
  then show ?case by (cases c) auto
next
  case (3 x a y b)
  then show ?case by (cases c) auto
qed simp

lemma string_less_linear: "string_less a b \<or> a = b \<or> string_less b a"
proof (induction a b rule: string_less.induct)
  case (1 a)
  then show ?case by (cases a) auto
next
  case (3 x a y b)
  then show ?case using linorder_less_linear [of "byte x" "byte y"] by auto
qed simp

definition keys_sorted :: "(string \<times> 'v) list \<Rightarrow> bool" where
  "keys_sorted m \<longleftrightarrow> sorted_wrt string_less (map fst m)"

lemma keys_sorted_simps [simp]:
  "keys_sorted []"
  "keys_sorted ((k, v) # m) \<longleftrightarrow> (\<forall>k' \<in> set (map fst m). string_less k k') \<and> keys_sorted m"
  by (simp_all add: keys_sorted_def)

lemma keys_sorted_distinct: "keys_sorted m \<Longrightarrow> distinct (map fst m)"
  by (induction m) (force simp del: set_map)+

lemma set_map_insert: "set (map fst (map_insert k v m)) = insert k (set (map fst m))"
proof (induction m)
  case (Cons p m)
  then show ?case using string_less_linear [of k "fst p"] by (cases p) auto
qed simp

lemma keys_sorted_map_insert: "keys_sorted m \<Longrightarrow> keys_sorted (map_insert k v m)"
proof (induction m)
  case (Cons p m)
  obtain k' v' where p: "p = (k', v')" by (cases p)
  show ?case
  proof (cases "string_less k k'")
    case True
    with Cons.prems p show ?thesis by (auto intro: string_less_trans)
  next
    case False
    with Cons p show ?thesis by (auto simp: set_map_insert simp del: set_map)
  qed
qed simp

lemma map_of_map_insert:
  "keys_sorted m \<Longrightarrow> map_of (map_insert k v m) = (case map_of m k of None \<Rightarrow> (map_of m)(k \<mapsto> v) | Some w \<Rightarrow> map_of m)"
proof (induction m)
  case (Cons p m)
  obtain k' v' where p: "p = (k', v')" by (cases p)
  consider "string_less k k'" | "k = k'" | "string_less k' k" using string_less_linear by blast
  then show ?case
  proof cases
    case 1
    then have "k \<noteq> k'" and "k \<notin> fst ` set m"
      using Cons.prems p by (auto dest: string_less_trans)
    moreover from this have "map_of m k = None" by (simp add: map_of_eq_None_iff)
    ultimately show ?thesis using 1 p by (auto simp: fun_eq_iff)
  next
    case 2
    then show ?thesis using p by (auto simp: fun_eq_iff)
  next
    case 3
    then have "k \<noteq> k'" "\<not> string_less k k'" by (auto dest: string_less_trans)
    then show ?thesis using 3 Cons p by (auto simp: fun_eq_iff split: option.splits)
  qed
qed (auto simp: fun_eq_iff)

lemma map_insert_last:
  "(\<And>k'. k' \<in> set (map fst m) \<Longrightarrow> string_less k' k) \<Longrightarrow> map_insert k v m = m @ [(k, v)]"
proof (induction m)
  case (Cons p m)
  obtain k' v' where p: "p = (k', v')" by (cases p)
  have l: "string_less k' k" using Cons.prems p by auto
  then have "\<not> string_less k k'" by (auto dest: string_less_trans)
  with l Cons p show ?case by auto
qed simp

text \<open>Inserting the pairs of a map in their order rebuilds it.\<close>

lemma fold_map_insert:
  "keys_sorted (m @ ps) \<Longrightarrow> fold (\<lambda>(k, v). map_insert k v) ps m = m @ ps"
proof (induction ps arbitrary: m)
  case (Cons p ps)
  obtain k v where p: "p = (k, v)" by (cases p)
  have "map_insert k v m = m @ [(k, v)]"
    using Cons.prems p by (intro map_insert_last) (auto simp: keys_sorted_def sorted_wrt_append)
  then show ?case using Cons.IH [of "m @ [(k, v)]"] Cons.prems p by simp
qed simp

lemma fold_array_add: "fold array_add xs ys = ys @ xs"
  by (induction xs arbitrary: ys) (simp_all add: array_add_def)

section \<open>Well-formed values\<close>

text \<open>The invariant of the data: sorted keys, integers of 32 bits.\<close>

fun json_wf :: "json \<Rightarrow> bool" where
  "json_wf (JsonObject m) \<longleftrightarrow> keys_sorted m \<and> (\<forall>(k, v) \<in> set m. json_wf v)"
| "json_wf (JsonArray a) \<longleftrightarrow> (\<forall>v \<in> set a. json_wf v)"
| "json_wf (JsonInteger i) \<longleftrightarrow> - (2 ^ 31) \<le> i \<and> i < 2 ^ 31"
| "json_wf _ \<longleftrightarrow> True"

end
