(* ===== verification/JsonParse.thy ===== *)
theory JsonParse
  imports JsonValue
begin

text \<open>
  The parser of \<open>haha_web/haha_json/haha_json/json.cpp\<close>. A parser takes the view and returns the
  node and the rest of the view; \<open>Inr None\<close> is the null pointer. Reading \<open>str[0]\<close> of an empty
  view is \<open>Inl Undefined\<close>. The nesting of the recursive calls and the iterations of the two loops
  are bounded by fuel; running out of it is \<open>Inl Diverges\<close>, which is shown never to happen
  with the fuel of \<open>parse\<close>.
\<close>

type_synonym 'a parser = "string \<Rightarrow> ('a \<times> string) option res"

definition pbind :: "('a \<times> string) option res \<Rightarrow> ('a \<Rightarrow> string \<Rightarrow> ('b \<times> string) option res) \<Rightarrow> ('b \<times> string) option res" where
  "pbind m f = (case m of Inl e \<Rightarrow> Inl e | Inr None \<Rightarrow> Inr None | Inr (Some (v, r)) \<Rightarrow> f v r)"

lemma pbind_simps [simp]:
  "pbind (Inl e) f = Inl e"
  "pbind (Inr None) f = Inr None"
  "pbind (Inr (Some (v, r))) f = f v r"
  by (simp_all add: pbind_def)

lemma pbind_Some: "pbind m f = Inr (Some x) \<longleftrightarrow> (\<exists>v r. m = Inr (Some (v, r)) \<and> f v r = Inr (Some x))"
  by (simp add: pbind_def split: sum.split option.split)

lemma pbind_Inl: "pbind m f = Inl e \<longleftrightarrow> m = Inl e \<or> (\<exists>v r. m = Inr (Some (v, r)) \<and> f v r = Inl e)"
  by (auto simp: pbind_def split: sum.split option.split)

section \<open>Strings\<close>

text \<open>
  \<open>\x\<close>: the hexadecimal digits, \<open>Undefined\<close> when the view ends with them; the code appends the
  decimal text of their value.
\<close>

definition x_escape :: "string \<Rightarrow> (string \<times> string) option res" where
  "x_escape v =
     (let hexs = takeWhile isHex v; r = dropWhile isHex v
      in if r = [] then Inl Undefined
         else if hexs = [] then Inr None
         else Inr (Some (int_to_string (toBase16 hexs), r)))"

text \<open>One escape sequence at the start of a view of at least two bytes.\<close>

definition parse_escape :: "string \<Rightarrow> (string \<times> string) option res" where
  "parse_escape v =
     (let c = v ! 1; r = drop 2 v
      in if c = BSLASH then Inr (Some ([BSLASH], r))
         else if c = CHR ''t'' then Inr (Some ([TAB], r))
         else if c = CHR ''n'' then Inr (Some ([LF], r))
         else if c = CHR ''r'' then Inr (Some ([CR], r))
         else if c = CHR ''0'' then Inr (Some ([NUL], r))
         else if c = CHR ''b'' then Inr (Some ([CHR 0x08], r))
         else if c = CHR ''f'' then Inr (Some ([CHR 0x0C], r))
         else if c = CHR ''x'' then x_escape r
         else if c = CHR ''u'' then utf16_literal_to_utf8 v
         else Inr None)"

lemma length_utf16: "utf16_literal_to_utf8 v = Inr (Some (s, r)) \<Longrightarrow> length r + 2 \<le> length v"
  by (auto simp: utf16_literal_to_utf8_def Let_def split: if_splits)

lemma length_parse_escape:
  "parse_escape v = Inr (Some (s, r)) \<Longrightarrow> 2 \<le> length v \<Longrightarrow> length r + 2 \<le> length v"
  using length_dropWhile_le [of isHex "drop 2 v"]
  by (auto simp: parse_escape_def x_escape_def Let_def dest: length_utf16 split: if_splits)

lemma length_parse_escape_Cons:
  "parse_escape (c # v) = Inr (Some (s, r)) \<Longrightarrow> v \<noteq> [] \<Longrightarrow> length r < length v"
  using length_parse_escape [of "c # v" s r] by (cases v) auto

text \<open>The loop of \<open>parse_string\<close> and what follows it.\<close>

function string_loop :: "string \<Rightarrow> string \<Rightarrow> (string \<times> string) option res" where
  "string_loop output v =
     (case v of
        [] \<Rightarrow> Inr None
      | c # r \<Rightarrow>
          if c = DQUOTE then Inr (Some (output, r))
          else if c = BSLASH
          then if length v < 2 then Inr None
               else (case parse_escape v of
                       Inl e \<Rightarrow> Inl e
                     | Inr None \<Rightarrow> Inr None
                     | Inr (Some (s, r')) \<Rightarrow> string_loop (output @ s) r')
          else string_loop (output @ [c]) r)"
  by pat_completeness auto

termination
  by (relation "measure (\<lambda>(_, v). length v)") (auto dest: length_parse_escape_Cons)

declare string_loop.simps [simp del]

definition parse_string :: "string parser" where
  "parse_string v =
     rbind (front v) (\<lambda>c. if c \<noteq> DQUOTE then Inr None else string_loop [] (tl v))"

section \<open>Numbers\<close>

text \<open>The loop leaves in \<open>isInt\<close> whether the last byte is not a dot.\<close>

fun number_loop :: "string \<Rightarrow> bool \<Rightarrow> string \<Rightarrow> string \<times> bool \<times> string" where
  "number_loop [] isInt acc = (acc, isInt, [])"
| "number_loop (c # v) isInt acc =
     (if isNumberComponent c then number_loop v (c \<noteq> CHR ''.'') (acc @ [c]) else (acc, isInt, c # v))"

definition INT_MAX :: int where "INT_MAX = 2147483647"
definition INT_MIN :: int where "INT_MIN = - 2147483648"

text \<open>The conversion of a \<open>double\<close> to \<open>int\<close> in range.\<close>

definition trunc_int :: "double \<Rightarrow> int" where
  "trunc_int d = (if dneg d then - \<lfloor>dmag d\<rfloor> else \<lfloor>dmag d\<rfloor>)"

definition parse_number :: "json parser" where
  "parse_number v =
     rbind (front v) (\<lambda>c.
       if \<not> isdigit c \<and> c \<noteq> CHR ''-'' then Inr None
       else let (number_str, isInt, r) = number_loop v True []
            in case stod number_str of
                 None \<Rightarrow> Inr None
               | Some number \<Rightarrow>
                   if isInt \<and> dvalue number \<le> of_int INT_MAX \<and> of_int INT_MIN \<le> dvalue number
                   then Inr (Some (JsonInteger (trunc_int number), r))
                   else Inr (Some (JsonDouble number, r)))"

section \<open>Arrays and objects\<close>

text \<open>
  \<open>check_func\<close>: whether the loop goes on, and the view after the comma. It is called on a view
  that is not empty.
\<close>

definition check_func :: "char \<Rightarrow> string \<Rightarrow> bool \<times> string" where
  "check_func close v =
     (if hd v = CHR '',''
      then (let r = tl v in (\<not> (r \<noteq> [] \<and> hd r = close), r))
      else (False, v))"

text \<open>What follows the loop: the closing bracket.\<close>

definition close_with :: "char \<Rightarrow> 'a \<Rightarrow> string \<Rightarrow> ('a \<times> string) option res" where
  "close_with close x v =
     rbind (front v) (\<lambda>c. if c \<noteq> close then Inr None else Inr (Some (x, tl v)))"

text \<open>
  The do-while loop that \<open>parse_array\<close> and \<open>parse_object\<close> both have, over the parser of one
  item and what is done with the item, and the test after the loop.
\<close>

fun item_loop :: "char \<Rightarrow> 'i parser \<Rightarrow> ('i \<Rightarrow> 'a \<Rightarrow> 'a) \<Rightarrow> nat \<Rightarrow> 'a \<Rightarrow> 'a parser" where
  "item_loop close item add 0 acc v = Inl Diverges"
| "item_loop close item add (Suc n) acc v =
     (let v1 = skip_CtrlAndSpace v
      in if v1 = [] then Inr None
         else pbind (item v1) (\<lambda>i v2.
           let v3 = skip_CtrlAndSpace v2
           in if v3 = [] then close_with close (add i acc) v3
              else let (again, v4) = check_func close v3
                   in if again then item_loop close item add n (add i acc) v4
                      else close_with close (add i acc) v4))"

definition array_loop :: "json parser \<Rightarrow> nat \<Rightarrow> json list \<Rightarrow> json list parser" where
  "array_loop pv = item_loop (CHR '']'') pv array_add"

definition parse_array :: "json parser \<Rightarrow> json parser" where
  "parse_array pv v =
     rbind (front v) (\<lambda>c.
       if c \<noteq> CHR ''['' then Inr None
       else let v1 = tl v
            in if v1 \<noteq> [] \<and> hd v1 = CHR '']'' then Inr (Some (JsonArray [], tl v1))
               else pbind (array_loop pv (Suc (length v1)) [] v1) (\<lambda>arr r. Inr (Some (JsonArray arr, r))))"

text \<open>One pair of an object: key, colon, value.\<close>

definition parse_pair :: "json parser \<Rightarrow> (string \<times> json) parser" where
  "parse_pair pv v =
     pbind (parse_string v) (\<lambda>k v1.
       let v2 = skip_CtrlAndSpace v1
       in rbind (front v2) (\<lambda>c.
            if c \<noteq> CHR '':'' then Inr None
            else let v3 = skip_CtrlAndSpace (tl v2)
                 in if v3 = [] then Inr None
                    else pbind (pv v3) (\<lambda>jv v4. Inr (Some ((k, jv), v4)))))"

definition object_loop :: "json parser \<Rightarrow> nat \<Rightarrow> (string \<times> json) list \<Rightarrow> (string \<times> json) list parser" where
  "object_loop pv = item_loop (CHR ''}'') (parse_pair pv) (\<lambda>(k, jv). object_add k jv)"

definition parse_object :: "json parser \<Rightarrow> json parser" where
  "parse_object pv v =
     rbind (front v) (\<lambda>c.
       if c \<noteq> CHR ''{'' then Inr None
       else let v1 = tl v
            in if v1 \<noteq> [] \<and> hd v1 = CHR ''}'' then Inr (Some (JsonObject [], tl v1))
               else pbind (object_loop pv (Suc (length v1)) [] v1) (\<lambda>obj r. Inr (Some (JsonObject obj, r))))"

section \<open>Values\<close>

text \<open>\<open>parse_value\<close> over the parser it calls for nested values.\<close>

definition value_step :: "json parser \<Rightarrow> json parser" where
  "value_step pv v =
     (if v = [] then Inr None
      else if hd v = CHR ''{'' then parse_object pv v
      else if hd v = CHR ''['' then parse_array pv v
      else if hd v = DQUOTE then pbind (parse_string v) (\<lambda>s r. Inr (Some (JsonString s, r)))
      else if hd v = CHR ''-'' \<or> isdigit (hd v) then parse_number v
      else if 4 \<le> length v \<and> compare_prefix 4 ''null'' v then Inr (Some (JsonNull, drop 4 v))
      else if 4 \<le> length v \<and> compare_prefix 4 ''true'' v then Inr (Some (JsonBoolean True, drop 4 v))
      else if 5 \<le> length v \<and> compare_prefix 5 ''false'' v then Inr (Some (JsonBoolean False, drop 5 v))
      else Inr None)"

primrec parse_value :: "nat \<Rightarrow> json parser" where
  "parse_value 0 = (\<lambda>v. Inl Diverges)"
| "parse_value (Suc n) = value_step (parse_value n)"

text \<open>\<open>parse\<close>: what follows the value is not looked at.\<close>

definition parse :: "string \<Rightarrow> json option res" where
  "parse str =
     (let view = skip_CtrlAndSpace (skip_utf8_bom str)
      in case parse_value (Suc (length view)) view of
           Inl e \<Rightarrow> Inl e
         | Inr r \<Rightarrow> Inr (map_option fst r))"

end
