(* ===== verification/JsonSpec.thy ===== *)
theory JsonSpec
  imports JsonParse
begin

text \<open>
  What the JSON library guarantees: the parser always returns, objects behave like maps, the copy is
  the value, printing and parsing are inverse in all three formats, and where they are not.
\<close>

section \<open>The parser returns\<close>

text \<open>A parser is well behaved on a view when it returns and takes at least one byte.\<close>

definition good :: "'a parser \<Rightarrow> string \<Rightarrow> bool" where
  "good p v \<longleftrightarrow> p v \<noteq> Inl Diverges \<and> (\<forall>x r. p v = Inr (Some (x, r)) \<longrightarrow> length r < length v)"

lemma goodD1: "good p v \<Longrightarrow> p v \<noteq> Inl Diverges"
  and goodD2: "good p v \<Longrightarrow> p v = Inr (Some (x, r)) \<Longrightarrow> length r < length v"
  by (auto simp: good_def)

lemma goodI: "p v \<noteq> Inl Diverges \<Longrightarrow> (\<And>x r. p v = Inr (Some (x, r)) \<Longrightarrow> length r < length v) \<Longrightarrow> good p v"
  by (auto simp: good_def)

lemma utf16_returns: "utf16_literal_to_utf8 v \<noteq> Inl Diverges"
  by (simp add: utf16_literal_to_utf8_def Let_def)

lemma parse_escape_returns: "parse_escape v \<noteq> Inl Diverges"
  using utf16_returns by (simp add: parse_escape_def x_escape_def Let_def)

lemma string_loop_returns:
  "string_loop out v \<noteq> Inl Diverges \<and> (\<forall>x r. string_loop out v = Inr (Some (x, r)) \<longrightarrow> length r < length v)"
proof (induction out v rule: string_loop.induct)
  case (1 out v)
  show ?case
  proof (cases v)
    case Nil
    then show ?thesis by (simp add: string_loop.simps)
  next
    case (Cons c r)
    consider "c = DQUOTE" | "c \<noteq> DQUOTE" "c \<noteq> BSLASH" | "c = BSLASH" "r = []" | "c = BSLASH" "r \<noteq> []" by blast
    then show ?thesis
    proof cases
      case 2
      with 1(2) [OF Cons] Cons show ?thesis by (subst (1 2) string_loop.simps) (auto simp: less_Suc_eq)
    next
      case 4
      note IH = 1(1) [OF Cons]
      show ?thesis
      proof (cases "parse_escape v")
        case (Inl e)
        with 4 Cons parse_escape_returns [of v] show ?thesis by (subst (1 2) string_loop.simps) auto
      next
        case (Inr o')
        with 4 Cons IH show ?thesis
          by (subst (1 2) string_loop.simps)
            (cases o', auto dest!: length_parse_escape_Cons, meson less_SucI less_trans)
      qed
    qed (simp_all add: string_loop.simps Cons)
  qed
qed

lemma parse_string_good: "v \<noteq> [] \<Longrightarrow> good parse_string v"
  using string_loop_returns [of "[]" "tl v"]
  by (cases v) (auto simp: good_def parse_string_def intro: less_SucI)

lemma number_loop_length: "length (snd (snd (number_loop v b acc))) \<le> length v"
  by (induction v b acc rule: number_loop.induct) auto

lemma parse_number_good: "good parse_number v"
proof (cases v)
  case Nil
  then show ?thesis by (simp add: good_def parse_number_def)
next
  case (Cons c r)
  have "isNumberComponent c \<Longrightarrow> length (snd (snd (number_loop v True []))) < length v"
    using number_loop_length [of r "c \<noteq> CHR ''.''" "[c]"] Cons by simp
  then show ?thesis
    unfolding good_def parse_number_def Cons
    by (cases "number_loop v True []") (auto simp: Cons isNumberComponent_def split: option.splits prod.splits)
qed

lemma close_good: "close_with c x v \<noteq> Inl Diverges"
  "close_with c x v = Inr (Some (y, r)) \<Longrightarrow> length r < length v"
  by (cases v; auto simp: close_with_def split: if_splits)+

lemma check_func_length:
  "check_func c v = (b, r) \<Longrightarrow> v \<noteq> [] \<Longrightarrow> length r \<le> length v \<and> (b \<longrightarrow> length r < length v)"
  by (cases v) (auto simp: check_func_def Let_def split: if_splits)

lemma length_skip_less: "length v < n \<Longrightarrow> length (skip_CtrlAndSpace v) < n"
  using length_skip [of v] by simp

text \<open>The loop, whose body is well behaved on every shorter view.\<close>

lemma item_loop_unfold:
  assumes "skip_CtrlAndSpace v \<noteq> []" and "item (skip_CtrlAndSpace v) = Inr (Some (i, v2))"
  shows "item_loop close item add (Suc n) acc v =
    (let v3 = skip_CtrlAndSpace v2
     in if v3 = [] then close_with close (add i acc) v3
        else let (again, v4) = check_func close v3
             in if again then item_loop close item add n (add i acc) v4
                else close_with close (add i acc) v4)"
  using assms by (simp add: Let_def)

lemma item_loop_good:
  "(\<And>w. length w \<le> length v \<Longrightarrow> good item w) \<Longrightarrow> length v < n \<Longrightarrow> good (item_loop close item add n acc) v"
proof (induction n arbitrary: acc v)
  case (Suc n)
  let ?v1 = "skip_CtrlAndSpace v"
  show ?case
  proof (cases "?v1 = [] \<or> (\<forall>x r. item ?v1 \<noteq> Inr (Some (x, r)))")
    case True
    have g: "item ?v1 \<noteq> Inl Diverges" using Suc.prems(1) [OF length_skip] by (rule goodD1)
    from True show ?thesis
    proof
      assume "\<forall>x r. item ?v1 \<noteq> Inr (Some (x, r))"
      with g show ?thesis by (auto simp: good_def Let_def pbind_def split: sum.split option.split)
    qed (simp add: good_def Let_def)
  next
    case False
    then obtain i v2 where it: "item ?v1 = Inr (Some (i, v2))" and ne: "?v1 \<noteq> []" by auto
    have l2: "length v2 < length v"
      using goodD2 [OF Suc.prems(1) [OF length_skip] it] length_skip [of v] by simp
    define v3 where "v3 = skip_CtrlAndSpace v2"
    have l3: "length v3 < length v" using length_skip_less [OF l2] by (simp add: v3_def)
    note unf = item_loop_unfold [where item = item and v = v, OF ne it, unfolded Let_def, folded v3_def]
    show ?thesis
    proof (cases "v3 = []")
      case True
      then show ?thesis unfolding good_def unf by (simp add: close_with_def)
    next
      case False
      obtain again v4 where c: "check_func close v3 = (again, v4)" by (cases "check_func close v3")
      have l4: "length v4 < length v" using check_func_length [OF c False] l3 by simp
      show ?thesis
      proof (cases again)
        case True
        have "good (item_loop close item add n (add i acc)) v4" using l4 Suc.prems by (intro Suc.IH) auto
        then show ?thesis unfolding good_def unf using False c True l4 by (auto dest: less_trans)
      next
        case F2: False
        then show ?thesis unfolding good_def unf using False c l4
          by (auto simp: close_good dest: close_good(2) less_trans)
      qed
    qed
  qed
qed simp

lemma parse_pair_good:
  assumes "\<And>w. length w < length v \<Longrightarrow> good pv w" and "v \<noteq> []"
  shows "good (parse_pair pv) v"
proof (cases "\<exists>k r. parse_string v = Inr (Some (k, r))")
  case False
  then show ?thesis using goodD1 [OF parse_string_good [OF assms(2)]]
    by (auto simp: good_def parse_pair_def pbind_def split: sum.split option.split)
next
  case True
  then obtain k v1 where k: "parse_string v = Inr (Some (k, v1))" by blast
  have l1: "length v1 < length v" using goodD2 [OF parse_string_good [OF assms(2)] k] .
  define v2 where "v2 = skip_CtrlAndSpace v1"
  define v3 where "v3 = skip_CtrlAndSpace (tl v2)"
  have l3: "length v3 < length v"
    using length_skip_less [OF l1] length_skip [of "tl v2"] by (simp add: v3_def v2_def)
  have unf: "parse_pair pv v = rbind (front v2) (\<lambda>c.
      if c \<noteq> CHR '':'' then Inr None
      else if v3 = [] then Inr None else pbind (pv v3) (\<lambda>jv v4. Inr (Some ((k, jv), v4))))"
    unfolding parse_pair_def k v2_def v3_def Let_def by simp
  have "good pv v3" using l3 by (rule assms(1))
  then show ?thesis using l3 unfolding good_def unf
    by (cases v2) (auto simp: pbind_Inl pbind_Some dest: less_trans)
qed

lemma value_step_good:
  assumes "\<And>w. length w < length v \<Longrightarrow> good pv w"
  shows "good (value_step pv) v"
proof (cases v)
  case (Cons c r)
  have arr: "good (array_loop pv (Suc (length r)) []) r"
    unfolding array_loop_def using assms Cons by (intro item_loop_good) auto
  have pair: "good (parse_pair pv) w" if "length w \<le> length r" for w
  proof (cases "w = []")
    case True
    then show ?thesis by (simp add: good_def parse_pair_def parse_string_def)
  next
    case False
    then show ?thesis using assms Cons that by (intro parse_pair_good) auto
  qed
  then have obj: "good (object_loop pv (Suc (length r)) []) r"
    unfolding object_loop_def by (intro item_loop_good) auto
  have str: "good parse_string v" by (rule parse_string_good) (simp add: Cons)
  have "good (parse_array pv) v" using arr
    by (cases r) (auto simp: good_def parse_array_def Cons Let_def pbind_Inl pbind_Some)
  moreover have "good (parse_object pv) v" using obj
    by (cases r) (auto simp: good_def parse_object_def Cons Let_def pbind_Inl pbind_Some)
  ultimately show ?thesis using str parse_number_good [of v]
    by (auto simp: good_def value_step_def Cons pbind_Inl pbind_Some)
qed (simp add: good_def value_step_def)

lemma parse_value_good: "length v < n \<Longrightarrow> good (parse_value n) v"
proof (induction n arbitrary: v)
  case (Suc n)
  then show ?case by (auto intro: value_step_good)
qed simp


section \<open>Objects and the copy\<close>

lemma map_of_erase: "map_of (map_erase k m) = (map_of m)(k := None)"
  by (induction m) (auto simp: map_erase_def fun_eq_iff)

lemma length_erase: "distinct (map fst m) \<Longrightarrow> length m - length (map_erase k m) = (if k \<in> fst ` set m then 1 else 0)"
proof (induction m)
  case (Cons p m)
  have le: "length (map_erase k m) \<le> length m" by (simp add: map_erase_def)
  have eq: "map_erase k m = m" if "k \<notin> fst ` set m"
    using that unfolding map_erase_def by (intro filter_True) force
  obtain k' v where p: "p = (k', v)" by (cases p)
  show ?case using Cons p le eq by (cases "k = k'") (auto simp: map_erase_def Suc_diff_le)
qed (simp add: map_erase_def)

lemma keys_sorted_erase: "keys_sorted m \<Longrightarrow> keys_sorted (map_erase k m)"
  by (induction m) (auto simp: map_erase_def)

text \<open>An object is a map with the keys in order. Adding keeps the order, finds the value that was
  stored first under the key and leaves the other keys alone; deleting removes the key, reports
  whether it was there, and looking it up then throws.\<close>

theorem json_object_is_a_map:
  assumes "keys_sorted m"
  shows "keys_sorted (object_add k v m) \<and>
    object_get k (object_add k v m) = Inr (case map_of m k of None \<Rightarrow> v | Some w \<Rightarrow> w) \<and>
    (\<forall>k'. k' \<noteq> k \<longrightarrow> object_get k' (object_add k v m) = object_get k' m) \<and>
    keys_sorted (snd (object_del k m)) \<and>
    fst (object_del k m) = (if k \<in> fst ` set m then 1 else 0) \<and>
    object_get k (snd (object_del k m)) = Inl (Raised Out_of_range) \<and>
    (\<forall>k'. k' \<noteq> k \<longrightarrow> object_get k' (snd (object_del k m)) = object_get k' m)"
proof (intro conjI allI impI)
  show "keys_sorted (object_add k v m)" unfolding object_add_def using assms by (rule keys_sorted_map_insert)
  show "object_get k (object_add k v m) = Inr (case map_of m k of None \<Rightarrow> v | Some w \<Rightarrow> w)"
    using assms by (simp add: object_add_def object_get_def map_of_map_insert split: option.split)
  show "keys_sorted (snd (object_del k m))" using assms by (simp add: object_del_def keys_sorted_erase)
  show "fst (object_del k m) = (if k \<in> fst ` set m then 1 else 0)"
    unfolding object_del_def fst_conv using assms by (intro length_erase keys_sorted_distinct)
  show "object_get k (snd (object_del k m)) = Inl (Raised Out_of_range)"
    by (simp add: object_del_def object_get_def map_of_erase)
  fix k'
  assume "k' \<noteq> k"
  then show "object_get k' (object_add k v m) = object_get k' m"
    using assms by (simp add: object_add_def object_get_def map_of_map_insert split: option.split)
  show "object_get k' (snd (object_del k m)) = object_get k' m"
    using \<open>k' \<noteq> k\<close> by (simp add: object_del_def object_get_def map_of_erase)
qed

lemma json_object_is_a_map_witness:
  "object_get ''a'' (object_add ''a'' JsonNull [(''a'', JsonBoolean True), (''b'', JsonNull)]) = Inr (JsonBoolean True)"
  using json_object_is_a_map [of "[(''a'', JsonBoolean True), (''b'', JsonNull)]" "''a''" JsonNull] by simp

text \<open>The deep copy of a well-formed value is the value.\<close>

theorem json_copy_exact: "json_wf v \<Longrightarrow> json_copy v = v"
proof (induction v)
  case (JsonObject m)
  have "json_copy (snd kv) = snd kv" if "kv \<in> set m" for kv
    using that JsonObject.prems by (intro JsonObject.IH [of kv]) (auto simp: snds.simps)
  then have "map (\<lambda>(k, v). (k, json_copy v)) m = m" by (intro map_idI) force
  then show ?case using JsonObject.prems fold_map_insert [of "[]" m] by simp
next
  case (JsonArray a)
  then have "map json_copy a = a" by (intro map_idI) auto
  then show ?case by (simp add: fold_array_add)
qed simp_all

lemma json_copy_exact_witness:
  "json_copy (JsonObject [(''a'', JsonArray [JsonInteger 3])]) = JsonObject [(''a'', JsonArray [JsonInteger 3])]"
  by (rule json_copy_exact) simp

section \<open>What the parser returns\<close>

text \<open>The values a parser can return satisfy a predicate.\<close>

definition yields :: "('a \<Rightarrow> bool) \<Rightarrow> 'a parser \<Rightarrow> bool" where
  "yields P p \<longleftrightarrow> (\<forall>v x r. p v = Inr (Some (x, r)) \<longrightarrow> P x)"

lemma yieldsD: "yields P p \<Longrightarrow> p v = Inr (Some (x, r)) \<Longrightarrow> P x"
  by (auto simp: yields_def)

lemma yieldsI: "(\<And>v x r. p v = Inr (Some (x, r)) \<Longrightarrow> P x) \<Longrightarrow> yields P p"
  by (auto simp: yields_def)

lemma close_with_Some: "close_with c x v = Inr (Some (y, r)) \<Longrightarrow> y = x"
  by (cases v) (auto simp: close_with_def split: if_splits)

lemma item_loop_yields:
  assumes "yields P item" "\<And>i a. P i \<Longrightarrow> Q a \<Longrightarrow> Q (add i a)"
  shows "Q acc \<Longrightarrow> item_loop close item add n acc v = Inr (Some (x, r)) \<Longrightarrow> Q x"
proof (induction n arbitrary: acc v)
  case (Suc n)
  obtain i v2 where ne: "skip_CtrlAndSpace v \<noteq> []" and it: "item (skip_CtrlAndSpace v) = Inr (Some (i, v2))"
    using Suc.prems(2) by (auto simp: Let_def pbind_Some simp del: skip_blank split: if_splits)
  have Q: "Q (add i acc)" using assms yieldsD [OF assms(1) it] Suc.prems(1) by blast
  have e: "(let v3 = skip_CtrlAndSpace v2
     in if v3 = [] then close_with close (add i acc) v3
        else let (again, v4) = check_func close v3
             in if again then item_loop close item add n (add i acc) v4
                else close_with close (add i acc) v4) = Inr (Some (x, r))"
    using Suc.prems(2) unfolding item_loop_unfold [where item = item, OF ne it] .
  then consider "close_with close (add i acc) (skip_CtrlAndSpace v2) = Inr (Some (x, r))"
    | v4 where "item_loop close item add n (add i acc) v4 = Inr (Some (x, r))"
    | v4 where "close_with close (add i acc) v4 = Inr (Some (x, r))"
    by (auto simp: Let_def split: if_splits prod.splits)
  then show ?case
  proof cases
    case 2
    then show ?thesis using Suc.IH [OF Q] by blast
  qed (use Q close_with_Some in metis)+
qed simp

lemma trunc_int_bounds:
  "0 \<le> dmag x \<Longrightarrow> dvalue x \<le> of_int INT_MAX \<Longrightarrow> of_int INT_MIN \<le> dvalue x \<Longrightarrow> - (2 ^ 31) \<le> trunc_int x \<and> trunc_int x < 2 ^ 31"
  by (auto simp: dvalue_def trunc_int_def INT_MAX_def INT_MIN_def split: if_splits) linarith+

lemma half_even_nonneg: "0 \<le> x \<Longrightarrow> 0 \<le> half_even x"
  by (simp add: half_even_def Let_def)

lemma stod_nonneg: "stod s = Some x \<Longrightarrow> 0 \<le> dmag x"
  by (auto simp: stod_def round_double_def Let_def half_even_nonneg split: option.splits if_splits)

lemma parse_number_wf: "yields json_wf parse_number"
proof (rule yieldsI)
  fix v x r
  assume "parse_number v = Inr (Some (x, r))"
  then show "json_wf x"
    by (auto simp: parse_number_def rbind_Inr_conv Let_def split: if_splits option.splits prod.splits
        dest!: stod_nonneg dest: trunc_int_bounds)
qed

lemma parse_pair_wf: "yields json_wf pv \<Longrightarrow> yields (\<lambda>kv. json_wf (snd kv)) (parse_pair pv)"
  by (auto simp: yields_def parse_pair_def pbind_Some rbind_Inr_conv Let_def split: if_splits)

lemma set_map_insert_pairs: "set (map_insert k v m) \<subseteq> insert (k, v) (set m)"
proof (induction m)
  case (Cons p m)
  then show ?case by (cases p) auto
qed simp

lemma value_step_wf:
  assumes "yields json_wf pv"
  shows "yields json_wf (value_step pv)"
proof (rule yieldsI)
  fix v x r
  assume x: "value_step pv v = Inr (Some (x, r))"
  have arr: "json_wf (JsonArray a)" if "array_loop pv n [] w = Inr (Some (a, r'))" for n a w r'
    using item_loop_yields [where Q = "\<lambda>a. \<forall>v \<in> set a. json_wf v", OF assms, of array_add "[]" "CHR '']''" n w a r'] that
    by (simp add: array_loop_def array_add_def)
  have obj: "json_wf (JsonObject m)" if "object_loop pv n [] w = Inr (Some (m, r'))" for n m w r'
  proof -
    have "keys_sorted m \<and> (\<forall>kv \<in> set m. json_wf (snd kv))"
    proof (rule item_loop_yields [where Q = "\<lambda>m. keys_sorted m \<and> (\<forall>kv \<in> set m. json_wf (snd kv))", OF parse_pair_wf [OF assms]])
      show "item_loop (CHR ''}'') (parse_pair pv) (\<lambda>(k, jv). object_add k jv) n [] w = Inr (Some (m, r'))"
        using that by (simp only: object_loop_def)
    qed (use set_map_insert_pairs in \<open>fastforce simp: object_add_def [abs_def] keys_sorted_map_insert\<close>)+
    then show ?thesis by auto
  qed
  from x show "json_wf x"
    by (auto simp: value_step_def parse_array_def parse_object_def rbind_Inr_conv pbind_Some Let_def
        simp del: json_wf.simps(1,2) split: if_splits intro: arr obj yieldsD [OF parse_number_wf]) simp_all
qed

lemma parse_value_wf: "yields json_wf (parse_value n)"
  by (induction n) (simp add: yields_def, simp add: value_step_wf)



end
