(* ===== verification/JsonRoundTrip.thy ===== *)
theory JsonRoundTrip
  imports JsonSpec
begin

text \<open>
  Printing and parsing of JSON values: the printer of every format writes text from which the
  parser rebuilds the value, for the values that contain neither floating point numbers nor a
  double quote; what happens to those is stated too.
\<close>

section \<open>Strings\<close>

lemma string_loop_escape:
  "c \<noteq> DQUOTE \<Longrightarrow> string_loop out (escape_char c @ w) = string_loop (out @ [c]) w"
  by (subst string_loop.simps)
    (auto simp: escape_char_def parse_escape_def Let_def)

lemma string_loop_quote: "string_loop out (escape_char DQUOTE @ w) = Inr None"
  by (subst string_loop.simps) (simp add: escape_char_def parse_escape_def Let_def)

lemma string_loop_print:
  "DQUOTE \<notin> set s \<Longrightarrow> string_loop out (concat (map escape_char s) @ DQUOTE # w) = Inr (Some (out @ s, w))"
proof (induction s arbitrary: out)
  case Nil
  then show ?case by (simp add: string_loop.simps)
next
  case (Cons c s)
  then have "c \<noteq> DQUOTE" by auto
  with Cons show ?case by (simp add: string_loop_escape)
qed

lemma string_loop_print_quote:
  "DQUOTE \<in> set s \<Longrightarrow> string_loop out (concat (map escape_char s) @ w) = Inr None"
proof (induction s arbitrary: out)
  case (Cons c s)
  then show ?case by (cases "c = DQUOTE") (simp_all add: string_loop_quote string_loop_escape)
qed simp

lemma parse_string_print:
  "parse_string (string_toString s @ w) = Inr (if DQUOTE \<in> set s then None else Some (s, w))"
  using string_loop_print_quote [of s "[]" "DQUOTE # w"]
  by (simp add: parse_string_def string_toString_def string_loop_print)

section \<open>Integers\<close>

text \<open>Where a number ends.\<close>

definition stop :: "string \<Rightarrow> bool" where
  "stop w \<longleftrightarrow> w = [] \<or> \<not> isNumberComponent (hd w)"

lemma number_loop_all:
  "(\<And>c. c \<in> set s \<Longrightarrow> isNumberComponent c) \<Longrightarrow> stop w \<Longrightarrow>
   number_loop (s @ w) b acc = (acc @ s, if s = [] then b else last s \<noteq> CHR ''.'', w)"
proof (induction s arbitrary: b acc)
  case Nil
  then show ?case by (cases w) (auto simp: stop_def)
qed auto

lemma number_component_digit: "isdigit c \<Longrightarrow> isNumberComponent c" "isNumberComponent (CHR ''-'')"
  by (simp_all add: isNumberComponent_def)

lemma int_to_string_components: "c \<in> set (int_to_string i) \<Longrightarrow> isNumberComponent c"
  by (auto simp: int_to_string_def number_component_digit nat_to_string_digits split: if_splits)

lemma int_to_string_nonempty [simp]: "int_to_string i \<noteq> []"
  by (simp add: int_to_string_def)

lemma last_nat_to_string: "isdigit (last (nat_to_string n))"
  by (rule nat_to_string_digits [OF last_in_set]) simp

lemma last_int_to_string: "last (int_to_string i) \<noteq> CHR ''.''"
  using last_nat_to_string [of "nat (- i)"] last_nat_to_string [of "nat i"]
  by (auto simp: int_to_string_def isdigit_def)

lemma hd_nat_to_string: "isdigit (hd (nat_to_string n))"
  by (rule nat_to_string_digits [OF hd_in_set]) simp

lemma hd_int_to_string: "isdigit (hd (int_to_string i)) \<or> hd (int_to_string i) = CHR ''-''"
  using hd_nat_to_string by (simp add: int_to_string_def)

lemma dropWhile_digits [simp]: "dropWhile isdigit (nat_to_string n) = []"
  by (simp add: nat_to_string_digits)

lemma strtod_parse_int:
  "strtod_parse (int_to_string i) = Some (i < 0, nat \<bar>i\<bar>, 0)"
proof (cases "i < 0")
  case True
  then show ?thesis
    by (simp add: strtod_parse_def int_to_string_def strip_sign_def isspace_def strtod_exponent_def)
next
  case False
  then show ?thesis
    by (simp add: strtod_parse_def int_to_string_def dropWhile_isspace_digit hd_nat_to_string
        strip_sign_digit strtod_exponent_def)
qed

lemma stod_int:
  assumes "\<bar>i\<bar> < 2 ^ 53"
  shows "stod (int_to_string i) = Some (Double (i < 0) (of_nat (nat \<bar>i\<bar>)))"
proof -
  have "nat \<bar>i\<bar> < 2 ^ 53" using assms by simp
  from round_double_nat [OF this] show ?thesis by (simp add: stod_def strtod_parse_int)
qed

lemma parse_number_print:
  assumes "- (2 ^ 31) \<le> i" "i < 2 ^ 31" "stop w"
  shows "parse_number (int_to_string i @ w) = Inr (Some (JsonInteger i, w))"
proof -
  let ?d = "Double (i < 0) (of_nat (nat \<bar>i\<bar>))"
  have st: "stod (int_to_string i) = Some ?d" using assms by (intro stod_int) (auto simp: abs_if)
  have fr: "front (int_to_string i @ w) = Inr (hd (int_to_string i))"
    by (cases "int_to_string i") auto
  have nl: "number_loop (int_to_string i @ w) True [] = (int_to_string i, True, w)"
    using number_loop_all [OF int_to_string_components assms(3)] last_int_to_string by simp
  have v: "dvalue ?d = of_int i" by (simp add: dvalue_def)
  have t: "trunc_int ?d = i" by (simp add: trunc_int_def)
  show ?thesis unfolding parse_number_def fr nl rbind_simps prod.case st option.case v t Let_def
    using hd_int_to_string [of i] assms(1,2) by (auto simp: INT_MAX_def INT_MIN_def)
qed

section \<open>Arrays and objects\<close>

lemma blank_chars [simp]: "isCtrlAndSpace LF" "isCtrlAndSpace TAB" "isCtrlAndSpace (CHR '' '')"
  by (simp_all add: isCtrlAndSpace_def schar_def)

lemma skip_tabs [simp]: "skip_CtrlAndSpace (replicate d TAB @ w) = skip_CtrlAndSpace w"
  by (induction d) simp_all

lemma skip_new_line [simp]: "skip_CtrlAndSpace (new_line fmt d @ w) = skip_CtrlAndSpace w"
  by (simp add: new_line_def)

lemma item_loop_skip:
  "skip_CtrlAndSpace v = skip_CtrlAndSpace v' \<Longrightarrow> item_loop close item add n acc v = item_loop close item add n acc v'"
  by (cases n) simp_all

lemma length_print_items: "i \<in> set is \<Longrightarrow> length (f i) \<le> length (print_items fmt d (map f is))"
  by (induction "is") (auto simp: trans_le_add2)

lemma length_print_items_ge: "(\<And>i. i \<in> set is \<Longrightarrow> f i \<noteq> []) \<Longrightarrow> length is \<le> length (print_items fmt d (map f is))"
proof (induction "is")
  case (Cons i "is")
  have "1 \<le> length (f i)" using Cons.prems [of i] by (cases "f i") auto
  with Cons show ?case by (cases "is") auto
qed simp

text \<open>A text an item can have: it starts with a byte that no loop takes for something else.\<close>

definition item_text :: "char \<Rightarrow> string \<Rightarrow> bool" where
  "item_text close s \<longleftrightarrow> s \<noteq> [] \<and> \<not> isCtrlAndSpace (hd s) \<and> hd s \<noteq> close"

lemma item_textE:
  assumes "item_text close s"
  obtains c t where "s = c # t" "\<not> isCtrlAndSpace c" "c \<noteq> close"
  using assms by (cases s) (auto simp: item_text_def)

lemma item_loop_print:
  assumes "\<And>i. i \<in> set is \<Longrightarrow> item_text close (f i)"
    and "\<And>i w. i \<in> set is \<Longrightarrow> stop w \<Longrightarrow> item (f i @ w) = Inr (Some (i, w))"
    and close: "\<not> isCtrlAndSpace close" "\<not> isNumberComponent close" "close \<noteq> CHR '',''"
    and "is \<noteq> []" "length is \<le> n"
  shows "item_loop close item add n acc (print_items fmt d (map f is) @ new_line fmt d @ close # w)
       = Inr (Some (fold add is acc, w))"
  using assms(1,2,6,7)
proof (induction "is" arbitrary: acc n)
  case (Cons i "is")
  obtain m where n: "n = Suc m" using Cons.prems(4) by (cases n) auto
  obtain c t where f: "f i = c # t" "\<not> isCtrlAndSpace c" using Cons.prems(1) [of i] by (auto elim: item_textE)
  let ?sp = "if fmt = SPACE then '' '' else []"
  let ?next = "print_items fmt d (map f is) @ new_line fmt d @ close # w"
  define rest where "rest = (if is = [] then new_line fmt d @ close # w else CHR '','' # ?sp @ ?next)"
  have v: "print_items fmt d (map f (i # is)) @ new_line fmt d @ close # w = new_line fmt (d + 1) @ f i @ rest"
    by (simp add: rest_def)
  have sk: "skip_CtrlAndSpace (new_line fmt (d + 1) @ f i @ rest) = f i @ rest"
    unfolding skip_new_line using f by simp
  have st: "stop rest" using close by (auto simp: rest_def stop_def new_line_def isNumberComponent_def isdigit_def)
  have it: "item (skip_CtrlAndSpace (new_line fmt (d + 1) @ f i @ rest)) = Inr (Some (i, rest))"
    unfolding sk using Cons.prems(2) st by simp
  have ne: "skip_CtrlAndSpace (new_line fmt (d + 1) @ f i @ rest) \<noteq> []" unfolding sk using f by simp
  show ?case
  proof (cases "is = []")
    case True
    have "skip_CtrlAndSpace rest = close # w" using True close by (simp add: rest_def)
    then show ?thesis unfolding v n item_loop_unfold [where item = item, OF ne it] using True close
      by (simp add: Let_def check_func_def close_with_def)
  next
    case False
    then obtain j js where js: "is = j # js" by (cases "is") auto
    obtain c' t' where g: "f j = c' # t'" "\<not> isCtrlAndSpace c'" "c' \<noteq> close"
      using Cons.prems(1) [of j] js by (auto elim: item_textE)
    have comma: "\<not> isCtrlAndSpace (CHR '','')" by (simp add: isCtrlAndSpace_def schar_def)
    have r: "skip_CtrlAndSpace rest = CHR '','' # ?sp @ ?next" using False comma by (simp add: rest_def)
    have "close \<noteq> LF" "close \<noteq> CHR '' ''" using close(1) by auto
    then have h: "hd (?sp @ ?next) \<noteq> close" using g js by (auto simp: new_line_def)
    have chk: "check_func close (CHR '','' # ?sp @ ?next) = (True, ?sp @ ?next)"
      using h by (simp add: check_func_def Let_def)
    have eq: "item_loop close item add m (add i acc) (?sp @ ?next) = item_loop close item add m (add i acc) ?next"
      by (rule item_loop_skip) simp
    have "item_loop close item add m (add i acc) ?next = Inr (Some (fold add is (add i acc), w))"
      using Cons.prems False n by (intro Cons.IH) auto
    then show ?thesis unfolding v n item_loop_unfold [where item = item, OF ne it] r Let_def chk prod.case eq by simp
  qed
qed simp

section \<open>Values\<close>

text \<open>The values whose printed form is parsed back: no floating point number, no double quote.\<close>

fun printable :: "json \<Rightarrow> bool" where
  "printable (JsonObject m) \<longleftrightarrow> (\<forall>(k, v) \<in> set m. DQUOTE \<notin> set k \<and> printable v)"
| "printable (JsonArray a) \<longleftrightarrow> (\<forall>v \<in> set a. printable v)"
| "printable (JsonString s) \<longleftrightarrow> DQUOTE \<notin> set s"
| "printable (JsonDouble d) \<longleftrightarrow> False"
| "printable _ \<longleftrightarrow> True"

lemma not_ctrl_digit: "isdigit c \<Longrightarrow> \<not> isCtrlAndSpace c"
  by (simp add: isdigit_def isCtrlAndSpace_def schar_def)

lemma item_text_number:
  "\<not> isdigit close \<Longrightarrow> close \<noteq> CHR ''-'' \<Longrightarrow> item_text close (int_to_string i)"
  using hd_int_to_string [of i]
  by (auto simp: item_text_def not_ctrl_digit) (simp_all add: isCtrlAndSpace_def schar_def)

lemma item_text_value:
  assumes "close = CHR '']'' \<or> close = CHR ''}''" "printable v"
  shows "item_text close (json_toString fmt d v)"
proof (cases v)
  case (JsonInteger i)
  then show ?thesis using assms(1) by (auto intro!: item_text_number simp: isdigit_def)
qed (use assms in \<open>auto simp: item_text_def string_toString_def isCtrlAndSpace_def schar_def\<close>)

definition pair_toString :: "JsonFormatType \<Rightarrow> nat \<Rightarrow> string \<times> json \<Rightarrow> string" where
  "pair_toString fmt d kv =
     string_toString (fst kv) @ '':'' @ (if fmt = RAW then [] else '' '') @ json_toString fmt d (snd kv)"

lemma item_text_pair: "item_text (CHR ''}'') (pair_toString fmt d kv)"
  by (simp add: item_text_def pair_toString_def string_toString_def isCtrlAndSpace_def schar_def)

lemma json_toString_object:
  "json_toString fmt d (JsonObject m) =
     ''{'' @ print_items fmt d (map (pair_toString fmt (d + 1)) m) @ closing fmt d m @ ''}''"
proof -
  have "(\<lambda>(k, v). string_toString k @ '':'' @ (if fmt = RAW then [] else '' '') @ json_toString fmt (d + 1) v)
      = pair_toString fmt (d + 1)" by (simp add: pair_toString_def fun_eq_iff)
  then show ?thesis by (simp only: json_toString.simps)
qed

lemma skip_item_text: "item_text close s \<Longrightarrow> skip_CtrlAndSpace (s @ w) = s @ w"
  by (auto elim: item_textE)

lemma parse_pair_print:
  assumes "DQUOTE \<notin> set (fst kv)" "printable (snd kv)"
    and "\<And>w. stop w \<Longrightarrow> pv (json_toString fmt d (snd kv) @ w) = Inr (Some (snd kv, w))" "stop w"
  shows "parse_pair pv (pair_toString fmt d kv @ w) = Inr (Some (kv, w))"
proof -
  let ?s = "json_toString fmt d (snd kv)"
  let ?sp = "if fmt = RAW then [] else '' ''"
  have t: "item_text (CHR ''}'') ?s" using assms(2) by (intro item_text_value) auto
  have colon: "\<not> isCtrlAndSpace (CHR '':'')" by (simp add: isCtrlAndSpace_def schar_def)
  have p: "parse_string (pair_toString fmt d kv @ w) = Inr (Some (fst kv, CHR '':'' # ?sp @ ?s @ w))"
    using parse_string_print [of "fst kv" "CHR '':'' # ?sp @ ?s @ w"] assms(1)
    by (simp add: pair_toString_def)
  have s: "skip_CtrlAndSpace (?sp @ ?s @ w) = ?s @ w" using skip_item_text [OF t, of w] by (cases fmt) simp_all
  have ne: "?s @ w \<noteq> []" using t by (auto simp: item_text_def)
  show ?thesis unfolding parse_pair_def p pbind_simps Let_def skip_token [OF colon] front_simps rbind_simps list.sel s
    using ne assms(3) [OF assms(4)] by simp
qed

text \<open>The dispatch of \<open>parse_value\<close> on the first byte.\<close>

lemma value_step_dispatch:
  "value_step pv (CHR ''{'' # v) = parse_object pv (CHR ''{'' # v)"
  "value_step pv (CHR ''['' # v) = parse_array pv (CHR ''['' # v)"
  "value_step pv (DQUOTE # v) = pbind (parse_string (DQUOTE # v)) (\<lambda>s r. Inr (Some (JsonString s, r)))"
  by (simp_all add: value_step_def)

lemma value_step_number:
  "s \<noteq> [] \<Longrightarrow> isdigit (hd s) \<or> hd s = CHR ''-'' \<Longrightarrow> value_step pv s = parse_number s"
  by (auto simp: value_step_def isdigit_def)

lemma parse_array_nonempty:
  "v \<noteq> [] \<Longrightarrow> hd v \<noteq> CHR '']'' \<Longrightarrow> array_loop pv (Suc (length v)) [] v = Inr (Some (a, w)) \<Longrightarrow>
   parse_array pv (CHR ''['' # v) = Inr (Some (JsonArray a, w))"
  by (simp add: parse_array_def)

lemma parse_object_nonempty:
  "v \<noteq> [] \<Longrightarrow> hd v \<noteq> CHR ''}'' \<Longrightarrow> object_loop pv (Suc (length v)) [] v = Inr (Some (m, w)) \<Longrightarrow>
   parse_object pv (CHR ''{'' # v) = Inr (Some (JsonObject m, w))"
  by (simp add: parse_object_def)

lemma value_step_array:
  assumes "\<And>v w. v \<in> set a \<Longrightarrow> stop w \<Longrightarrow> pv (json_toString fmt (d + 1) v @ w) = Inr (Some (v, w))"
    and "printable (JsonArray a)"
  shows "value_step pv (json_toString fmt d (JsonArray a) @ w) = Inr (Some (JsonArray a, w))"
proof (cases "a = []")
  case True
  then show ?thesis by (simp add: value_step_def parse_array_def closing_def)
next
  case False
  let ?items = "print_items fmt d (map (json_toString fmt (d + 1)) a)"
  let ?v = "?items @ new_line fmt d @ CHR '']'' # w"
  have text_ok: "item_text (CHR '']'') (json_toString fmt (d + 1) v)" if "v \<in> set a" for v
    using assms(2) that by (intro item_text_value) auto
  have len: "length a \<le> Suc (length ?v)"
    using length_print_items_ge [of a "json_toString fmt (d + 1)" fmt d] text_ok by (force simp: item_text_def)
  have "array_loop pv (Suc (length ?v)) [] ?v = Inr (Some (fold array_add a [], w))"
    unfolding array_loop_def using text_ok assms(1) False len
    by (intro item_loop_print) (simp_all add: isCtrlAndSpace_def schar_def isNumberComponent_def isdigit_def)
  then have loop: "array_loop pv (Suc (length ?v)) [] ?v = Inr (Some (a, w))" by (simp only: fold_array_add append_Nil)
  have hd: "?v \<noteq> []" "hd ?v \<noteq> CHR '']''"
    using False text_ok by (cases a; auto simp: new_line_def item_text_def)+
  have t: "json_toString fmt d (JsonArray a) @ w = CHR ''['' # ?v" using False by (simp add: closing_def)
  show ?thesis unfolding t value_step_dispatch using hd loop by (rule parse_array_nonempty)
qed

lemma value_step_object:
  assumes "\<And>kv w. kv \<in> set m \<Longrightarrow> stop w \<Longrightarrow> pv (json_toString fmt (d + 1) (snd kv) @ w) = Inr (Some (snd kv, w))"
    and "printable (JsonObject m)" "keys_sorted m"
  shows "value_step pv (json_toString fmt d (JsonObject m) @ w) = Inr (Some (JsonObject m, w))"
proof (cases "m = []")
  case True
  then show ?thesis by (simp add: value_step_def parse_object_def closing_def)
next
  case False
  let ?items = "print_items fmt d (map (pair_toString fmt (d + 1)) m)"
  let ?v = "?items @ new_line fmt d @ CHR ''}'' # w"
  have pr: "DQUOTE \<notin> set (fst kv) \<and> printable (snd kv)" if "kv \<in> set m" for kv
    using assms(2) that by auto
  have len: "length m \<le> Suc (length ?v)"
    using length_print_items_ge [of m "pair_toString fmt (d + 1)" fmt d] item_text_pair by (force simp: item_text_def)
  have pair: "parse_pair pv (pair_toString fmt (d + 1) kv @ w) = Inr (Some (kv, w))"
    if "kv \<in> set m" "stop w" for kv w
    using pr [OF that(1)] assms(1) [OF that(1)] that(2) by (intro parse_pair_print) auto
  have "object_loop pv (Suc (length ?v)) [] ?v = Inr (Some (fold (\<lambda>(k, v). object_add k v) m [], w))"
    unfolding object_loop_def using item_text_pair pair False len
    by (intro item_loop_print) (simp_all add: isCtrlAndSpace_def schar_def isNumberComponent_def isdigit_def)
  moreover have "fold (\<lambda>(k, v). object_add k v) m [] = m"
    using fold_map_insert [of "[]" m] assms(3) by (simp add: object_add_def [abs_def])
  ultimately have loop: "object_loop pv (Suc (length ?v)) [] ?v = Inr (Some (m, w))" by (simp only:)
  have hd: "?v \<noteq> []" "hd ?v \<noteq> CHR ''}''"
    using False by (cases m; auto simp: new_line_def pair_toString_def string_toString_def)+
  have t: "json_toString fmt d (JsonObject m) @ w = CHR ''{'' # ?v"
    unfolding json_toString_object using False by (simp add: closing_def)
  show ?thesis unfolding t value_step_dispatch using hd loop by (rule parse_object_nonempty)
qed

lemma length_json_array: "v \<in> set a \<Longrightarrow> length (json_toString fmt (d + 1) v) < length (json_toString fmt d (JsonArray a))"
  using length_print_items [of v a "json_toString fmt (d + 1)" fmt d] by simp

lemma length_json_object:
  "kv \<in> set m \<Longrightarrow> length (json_toString fmt (d + 1) (snd kv)) < length (json_toString fmt d (JsonObject m))"
  using length_print_items [of kv m "pair_toString fmt (d + 1)" fmt d]
  unfolding json_toString_object by (simp add: pair_toString_def)

lemma parse_value_print:
  "json_wf v \<Longrightarrow> printable v \<Longrightarrow> length (json_toString fmt d v) \<le> n \<Longrightarrow> stop w \<Longrightarrow>
   parse_value n (json_toString fmt d v @ w) = Inr (Some (v, w))"
proof (induction v arbitrary: n d w)
  case (JsonObject m)
  obtain k where n: "n = Suc k" using JsonObject.prems(3) by (cases n) auto
  have "parse_value k (json_toString fmt (d + 1) (snd kv) @ w') = Inr (Some (snd kv, w'))"
    if "kv \<in> set m" "stop w'" for kv w'
    using JsonObject.prems length_json_object [OF that(1), of fmt d] that n
    by (intro JsonObject.IH [of kv]) (auto simp: snds.simps)
  then show ?case unfolding n parse_value.simps using JsonObject.prems by (intro value_step_object) auto
next
  case (JsonArray a)
  obtain k where n: "n = Suc k" using JsonArray.prems(3) by (cases n) auto
  have "parse_value k (json_toString fmt (d + 1) v @ w') = Inr (Some (v, w'))"
    if "v \<in> set a" "stop w'" for v w'
    using JsonArray.prems length_json_array [OF that(1), of fmt d] that n
    by (intro JsonArray.IH) auto
  then show ?case unfolding n parse_value.simps using JsonArray.prems by (intro value_step_array) auto
next
  case (JsonString s)
  then obtain k where "n = Suc k" by (cases n) (auto simp: string_toString_def)
  then show ?case using JsonString.prems parse_string_print [of s w]
    by (simp add: string_toString_def value_step_dispatch)
next
  case (JsonInteger i)
  then obtain k where "n = Suc k" by (cases n) auto
  moreover have "value_step (parse_value k) (int_to_string i @ w) = parse_number (int_to_string i @ w)" for k
    using hd_int_to_string [of i] by (intro value_step_number) auto
  ultimately show ?case using JsonInteger.prems parse_number_print [of i w] by simp
next
  case (JsonBoolean b)
  then obtain k where "n = Suc k" by (cases n; cases b) auto
  then show ?case by (simp add: value_step_def compare_prefix_def isdigit_def)
next
  case JsonNull
  then obtain k where "n = Suc k" by (cases n) auto
  then show ?case by (simp add: value_step_def compare_prefix_def isdigit_def)
qed simp

section \<open>The whole text\<close>

lemma skip_bom_text: "item_text close s \<Longrightarrow> skip_utf8_bom (s @ w) = s @ w"
  by (auto elim!: item_textE simp: skip_utf8_bom_def compare_prefix_def utf8_bom_def isCtrlAndSpace_def schar_def)

lemma parse_text:
  assumes "item_text close s"
  shows "parse s = (case parse_value (Suc (length s)) s of Inl e \<Rightarrow> Inl e | Inr r \<Rightarrow> Inr (map_option fst r))"
  using skip_bom_text [OF assms, of "[]"] skip_item_text [OF assms, of "[]"] by (simp add: parse_def)

lemma parse_printed:
  assumes "json_wf v" "printable v"
  shows "parse (json_toString fmt d v) = Inr (Some v)"
proof -
  have t: "item_text (CHR '']'') (json_toString fmt d v)" using assms(2) by (intro item_text_value) auto
  have "parse_value (Suc (length (json_toString fmt d v))) (json_toString fmt d v @ []) = Inr (Some (v, []))"
    using assms by (intro parse_value_print) (auto simp: stop_def)
  then show ?thesis using parse_text [OF t] by simp
qed



text \<open>The printed form of a string is read back exactly when it contains no double quote:
  the printer escapes the quote with a backslash, an escape the parser does not know, so it returns
  the null pointer.\<close>

theorem json_string_with_quote:
  "parse (json_toString fmt d (JsonString s)) = Inr (if DQUOTE \<in> set s then None else Some (JsonString s))"
proof -
  have t: "item_text (CHR '']'') (string_toString s)"
    by (simp add: item_text_def string_toString_def isCtrlAndSpace_def schar_def)
  have "parse_value (Suc n) (string_toString s) = pbind (parse_string (string_toString s)) (\<lambda>s r. Inr (Some (JsonString s, r)))" for n
    by (simp add: string_toString_def value_step_dispatch)
  moreover have "parse_string (string_toString s) = Inr (if DQUOTE \<in> set s then None else Some (s, []))"
    using parse_string_print [of s "[]"] by simp
  ultimately show ?thesis using parse_text [OF t] by simp
qed

text \<open>An array that is not closed is read past its end: after the last element the code looks at
  \<open>str[0]\<close> of the empty view.\<close>

theorem unclosed_array_reads_past_end:
  assumes "json_wf v" "printable v"
  shows "parse (CHR ''['' # json_toString fmt d v) = Inl Undefined"
proof -
  let ?s = "json_toString fmt d v"
  have t: "item_text (CHR '']'') ?s" using assms(2) by (intro item_text_value) auto
  have t': "item_text (CHR '']'') (CHR ''['' # ?s)" by (simp add: item_text_def isCtrlAndSpace_def schar_def)
  have ne: "?s \<noteq> []" "hd ?s \<noteq> CHR '']''" using t by (auto simp: item_text_def)
  have p: "parse_value (Suc (length ?s)) ?s = Inr (Some (v, []))"
    using parse_value_print [of v fmt d "Suc (length ?s)" "[]"] assms by (simp add: stop_def del: parse_value.simps)
  have sk: "skip_CtrlAndSpace ?s = ?s" using skip_item_text [OF t, of "[]"] by simp
  have "array_loop (parse_value (Suc (length ?s))) (Suc (length ?s)) [] ?s = Inl Undefined"
    unfolding array_loop_def item_loop.simps Let_def sk p
    using ne by (simp add: close_with_def skip_CtrlAndSpace_def)
  then show ?thesis unfolding parse_text [OF t'] using ne
    by (simp add: value_step_dispatch parse_array_def del: parse_value.simps(2))
      (simp add: parse_array_def value_step_dispatch)
qed

lemma unclosed_array_reads_past_end_witness: "parse (CHR ''['' # json_toString RAW 0 (JsonInteger 7)) = Inl Undefined"
  by (rule unclosed_array_reads_past_end) simp_all

text \<open>An empty array with white space between its brackets is rejected: the closing bracket is
  only recognised directly after the opening one or after an element.\<close>

theorem blank_empty_array_rejected:
  assumes "ws \<noteq> []" "\<forall>c \<in> set ws. isCtrlAndSpace c"
  shows "parse (CHR ''['' # ws @ CHR '']'' # rest) = Inr None"
proof -
  let ?s = "ws @ CHR '']'' # rest"
  have t: "item_text (CHR '']'') (CHR ''['' # ?s)" by (simp add: item_text_def isCtrlAndSpace_def schar_def)
  have close: "\<not> isCtrlAndSpace (CHR '']'')" by (simp add: isCtrlAndSpace_def schar_def)
  have sk: "skip_CtrlAndSpace ?s = CHR '']'' # rest"
    using assms(2) close by (induction ws) simp_all
  have hd: "hd ?s \<noteq> CHR '']''" using assms close by (cases ws) auto
  have step: "value_step pv (CHR '']'' # rest) = Inr None" for pv
    by (simp add: value_step_def isdigit_def compare_prefix_def)
  have "array_loop (parse_value (Suc (length ?s))) (Suc (length ?s)) [] ?s = Inr None"
    unfolding array_loop_def item_loop.simps Let_def sk by (simp add: step)
  then have "parse_array (parse_value (Suc (length ?s))) (CHR ''['' # ?s) = Inr None"
    using hd by (simp add: parse_array_def del: parse_value.simps)
  then have "parse_value (Suc (length (CHR ''['' # ?s))) (CHR ''['' # ?s) = Inr None"
    by (simp only: parse_value.simps(2) value_step_dispatch list.size add.commute) simp
  then show ?thesis unfolding parse_text [OF t] by simp
qed

lemma blank_empty_array_rejected_witness: "parse (CHR ''['' # '' '' @ CHR '']'' # []) = Inr None"
  by (rule blank_empty_array_rejected) (simp_all add: isCtrlAndSpace_def schar_def)

end
