(* ===== verification/JsonEscapes.thy ===== *)
theory JsonEscapes
  imports JsonRoundTrip
begin

unbundle bit_operations_syntax

text \<open>
  The escape sequences of JSON strings and the kinds of numbers: \<open>\u\<close> against the arithmetic
  definition of UTF-8, \<open>\x\<close>, and the choice between integer and floating point number.
\<close>

section \<open>UTF-8\<close>

definition utf8_reference :: "nat \<Rightarrow> nat list" where
  "utf8_reference cp =
     (if cp < 0x80 then [cp]
      else if cp < 0x800 then [0xC0 + cp div 64, 0x80 + cp mod 64]
      else if cp < 0x10000 then [0xE0 + cp div 4096, 0x80 + cp div 64 mod 64, 0x80 + cp mod 64]
      else [0xF0 + cp div 262144, 0x80 + cp div 4096 mod 64, 0x80 + cp div 64 mod 64, 0x80 + cp mod 64])"

lemma mask_and:
  "(n :: nat) AND 63 = n mod 64" "n AND 127 = n mod 128" "n AND 255 = n mod 256"
  using take_bit_eq_mask [of 6 n] take_bit_eq_mask [of 7 n] take_bit_eq_mask [of 8 n]
  by (simp_all add: mask_eq_exp_minus_1 take_bit_eq_mod)

text \<open>A mark above the bits of a number is added to it.\<close>

lemma or_mark:
  assumes "n < 2 ^ k"
  shows "(n :: nat) OR push_bit k m = n + push_bit k m"
proof -
  have "take_bit k n = n" using assms by (simp add: take_bit_nat_eq_self)
  then have "n AND push_bit k m = take_bit k n AND push_bit k m" by simp
  also have "\<dots> = 0" by (rule bit_eqI) (auto simp: bit_simps)
  finally have "n AND push_bit k m = 0" .
  then show ?thesis by (rule disjunctive_add_eq_or [symmetric])
qed

lemma or_marks:
  "n < 32 \<Longrightarrow> (n :: nat) OR 192 = n + 192"
  "n < 16 \<Longrightarrow> (n :: nat) OR 224 = n + 224"
  "n < 8 \<Longrightarrow> (n :: nat) OR 240 = n + 240"
  "n < 64 \<Longrightarrow> (n :: nat) OR 128 = n + 128"
  using or_mark [of n 5 6] or_mark [of n 4 14] or_mark [of n 3 30] or_mark [of n 6 2] by simp_all

lemma tail_byte: "((n :: nat) OR 128) AND 191 = 128 + n mod 64"
proof -
  have "(191 :: nat) = 63 OR 128" by simp
  moreover have "(n OR 128) AND (63 OR 128) = (n AND 63) OR 128"
    by (rule bit_eqI) (auto simp only: bit_and_iff bit_or_iff)
  ultimately have "(n OR 128) AND 191 = (n AND 63) OR 128" by simp
  then show ?thesis by (simp add: mask_and or_marks)
qed

lemma byte_char_of: "n < 256 \<Longrightarrow> byte (char_of (n :: nat)) = n"
  by simp

lemma drop6: "drop_bit 6 (n :: nat) = n div 64"
  by (simp add: drop_bit_eq_div)

lemma utf8_encode_reference:
  assumes "cp \<le> 0x10FFFF"
  shows "utf8_encode cp = Some (map char_of (utf8_reference cp))"
proof -
  have t: "utf8_tail_byte n = char_of (128 + n mod 64)" for n
    by (simp add: utf8_tail_byte_def tail_byte)
  have d: "cp div 64 div 64 = cp div 4096" "cp div 4096 div 64 = cp div 262144"
    by (simp_all add: div_mult2_eq [symmetric])
  consider "cp < 0x80" | "0x80 \<le> cp" "cp < 0x800" | "0x800 \<le> cp" "cp < 0x10000" | "0x10000 \<le> cp" by linarith
  then show ?thesis
  proof cases
    case 1
    then show ?thesis by (simp add: utf8_encode_def utf8_reference_def mask_and)
  next
    case 2
    then have "cp div 64 < 32" by (simp add: div_less_iff_less_mult)
    with 2 show ?thesis by (simp add: utf8_encode_def utf8_reference_def numeral_2_eq_2 drop6 t or_marks mask_and)
  next
    case 3
    then have "cp div 4096 < 16" by (simp add: div_less_iff_less_mult)
    with 3 show ?thesis by (simp add: utf8_encode_def utf8_reference_def numeral_2_eq_2 drop6 t or_marks mask_and d)
  next
    case 4
    then have "cp div 262144 < 8" using assms by (simp add: div_less_iff_less_mult)
    with 4 assms show ?thesis by (simp add: utf8_encode_def utf8_reference_def numeral_3_eq_3 drop6 t or_marks mask_and d)
  qed
qed

section \<open>The escapes of a string\<close>

lemma surrogate_bits:
  assumes "0xD800 \<le> a" "a \<le> 0xDBFF" "0xDC00 \<le> b" "b \<le> 0xDFFF"
  shows "push_bit 10 (a AND 0x3FF) OR ((b :: nat) AND 0x3FF) = (a - 0xD800) * 0x400 + (b - 0xDC00)"
proof -
  have m: "(n :: nat) AND 0x3FF = n mod 1024" for n
    using take_bit_eq_mask [of 10 n] by (simp add: mask_eq_exp_minus_1 take_bit_eq_mod)
  have a: "a mod 1024 = a - 0xD800" using assms by (simp add: mod_nat_eqI)
  have b: "b mod 1024 = b - 0xDC00" using assms by (simp add: mod_nat_eqI)
  have "b - 0xDC00 < 2 ^ 10" using assms by simp
  from or_mark [OF this, of "a - 0xD800"] show ?thesis
    unfolding m a b by (simp add: or.commute push_bit_eq_mult add.commute)
qed

text \<open>What a literal must become: the UTF-8 form of its code point, or nothing.\<close>

definition unicode_of :: "nat \<Rightarrow> nat option \<Rightarrow> nat option" where
  "unicode_of hi lo =
     (if hi < 0xD800 \<or> 0xDFFF < hi then Some hi
      else if 0xDBFF < hi then None
      else case lo of
             None \<Rightarrow> None
           | Some l \<Rightarrow> if 0xDC00 \<le> l \<and> l \<le> 0xDFFF
                        then Some (0x10000 + ((hi - 0xD800) * 0x400 + (l - 0xDC00))) else None)"

lemma hex4_digit_less: "hex4_digit c = Some d \<Longrightarrow> d < 16"
  by (auto simp: hex4_digit_def isdigit_def split: if_splits)

lemma hex4_loop_bound: "cs \<noteq> [] \<Longrightarrow> hex4_loop h cs < (h + 16) * 16 ^ (length cs - 1)"
proof (induction h cs rule: hex4_loop.induct)
  case (2 h c)
  then show ?case by (auto split: option.split dest: hex4_digit_less)
next
  case (3 h c c' cs)
  show ?case
  proof (cases "hex4_digit c")
    case (Some d)
    have "hex4_loop ((h + d) * 16) (c' # cs) < ((h + d) * 16 + 16) * 16 ^ (length (c' # cs) - 1)"
      using 3 Some by simp
    also have "\<dots> \<le> (h + 16) * 16 * 16 ^ (length (c' # cs) - 1)"
      using hex4_digit_less [OF Some] by (intro mult_right_mono) auto
    finally show ?thesis using Some by (simp add: algebra_simps)
  qed simp
qed simp

lemma parse_hex4_bound: "length h = 4 \<Longrightarrow> parse_hex4 h < 0x10000"
  using hex4_loop_bound [of h 0] by (cases "h = []") (simp_all add: parse_hex4_def)

text \<open>The \<open>\u\<close> escapes are exact: four hexadecimal digits give the UTF-8 form of a code point
  of the basic plane, a surrogate pair that of one of the other planes, and a half of a pair on its
  own is an error.\<close>

theorem unicode_escape_exact:
  assumes "length h = 4" "length l = 4" "take 2 r \<noteq> [BSLASH, CHR ''u'']"
  shows "utf16_literal_to_utf8 (BSLASH # CHR ''u'' # h @ r) =
      Inr (map_option (\<lambda>cp. (map char_of (utf8_reference cp), r)) (unicode_of (parse_hex4 h) None)) \<and>
    (0xD800 \<le> parse_hex4 h \<and> parse_hex4 h \<le> 0xDBFF \<longrightarrow>
     utf16_literal_to_utf8 (BSLASH # CHR ''u'' # h @ BSLASH # CHR ''u'' # l @ r) =
      Inr (map_option (\<lambda>cp. (map char_of (utf8_reference cp), r)) (unicode_of (parse_hex4 h) (Some (parse_hex4 l)))))"
proof -
  have b: "parse_hex4 h < 0x10000" "parse_hex4 l < 0x10000" using assms by (simp_all add: parse_hex4_bound)
  have 1: "utf16_literal_to_utf8 (BSLASH # CHR ''u'' # h @ r) =
      Inr (map_option (\<lambda>cp. (map char_of (utf8_reference cp), r)) (unicode_of (parse_hex4 h) None))"
    using assms b by (simp add: utf16_literal_to_utf8_def unicode_of_def Let_def utf8_encode_reference)
  have 2: "utf16_literal_to_utf8 (BSLASH # CHR ''u'' # h @ BSLASH # CHR ''u'' # l @ r) =
      Inr (map_option (\<lambda>cp. (map char_of (utf8_reference cp), r)) (unicode_of (parse_hex4 h) (Some (parse_hex4 l))))"
    if "0xD800 \<le> parse_hex4 h" "parse_hex4 h \<le> 0xDBFF"
  proof (cases "0xDC00 \<le> parse_hex4 l \<and> parse_hex4 l \<le> 0xDFFF")
    case True
    let ?cp = "0x10000 + ((parse_hex4 h - 0xD800) * 0x400 + (parse_hex4 l - 0xDC00))"
    have "(parse_hex4 h - 0xD800) * 0x400 \<le> 0x3FF * 0x400" using that by (intro mult_right_mono) auto
    then have cp: "?cp \<le> 0x10FFFF" using True by simp
    show ?thesis using assms that True surrogate_bits [of "parse_hex4 h" "parse_hex4 l"] utf8_encode_reference [OF cp]
      by (simp add: utf16_literal_to_utf8_def unicode_of_def Let_def)
  next
    case False
    then show ?thesis using assms that
      by (auto simp: utf16_literal_to_utf8_def unicode_of_def Let_def)
  qed
  from 1 2 show ?thesis by blast
qed

lemma unicode_escape_exact_witness:
  "utf16_literal_to_utf8 (BSLASH # CHR ''u'' # ''D83D'' @ BSLASH # CHR ''u'' # ''DE00'' @ [DQUOTE]) =
   Inr (Some ([CHR 0xF0, CHR 0x9F, CHR 0x98, CHR 0x80], [DQUOTE]))"
proof -
  have h: "parse_hex4 ''D83D'' = 0xD83D" "parse_hex4 ''DE00'' = 0xDE00"
    by (simp_all add: parse_hex4_def hex4_digit_def isdigit_def)
  have u: "utf8_reference 0x1F600 = [0xF0, 0x9F, 0x98, 0x80]" by (simp add: utf8_reference_def)
  have m: "map char_of [0xF0, 0x9F, 0x98, 0x80 :: nat] = [CHR 0xF0, CHR 0x9F, CHR 0x98, CHR 0x80]" by code_simp
  show ?thesis
    using unicode_escape_exact [of "''D83D''" "''DE00''" "[DQUOTE]"]
    unfolding h by (simp add: unicode_of_def u m del: list.map)
qed

text \<open>The \<open>\x\<close> escape appends the decimal text of the value of its hexadecimal digits, not the
  character with that code.\<close>

theorem hex_escape_appends_decimal:
  assumes "hexs \<noteq> []" "\<forall>c \<in> set hexs. isHex c"
  shows "parse_string (DQUOTE # BSLASH # CHR ''x'' # hexs @ DQUOTE # r) = Inr (Some (int_to_string (toBase16 hexs), r))"
proof -
  have q: "\<not> isHex DQUOTE" by (simp add: isHex_def isdigit_def)
  have t: "takeWhile isHex (hexs @ DQUOTE # r) = hexs" "dropWhile isHex (hexs @ DQUOTE # r) = DQUOTE # r"
    using assms(2) q by (simp_all add: takeWhile_append dropWhile_append)
  have "string_loop [] (BSLASH # CHR ''x'' # hexs @ DQUOTE # r) = string_loop (int_to_string (toBase16 hexs)) (DQUOTE # r)"
    using assms(1) by (subst string_loop.simps) (simp add: parse_escape_def x_escape_def t Let_def)
  then show ?thesis by (simp add: parse_string_def string_loop.simps [of _ "DQUOTE # r"])
qed

lemma hex_escape_appends_decimal_witness:
  "parse_string (DQUOTE # BSLASH # CHR ''x'' # ''41'' @ DQUOTE # []) = Inr (Some (''65'', []))"
proof -
  have "int_to_string (toBase16 ''41'') = ''65''" by code_simp
  then show ?thesis using hex_escape_appends_decimal [of "''41''" "[]"] by (simp add: isHex_def isdigit_def)
qed

section \<open>The kind of a number\<close>

text \<open>A number is taken for an integer as soon as its text does not end with a dot and its value
  fits: the fraction of \<open>1.5\<close> is dropped.\<close>

theorem fraction_dropped:
  assumes "s = takeWhile isNumberComponent v" "s \<noteq> []" "isdigit (hd s) \<or> hd s = CHR ''-''" "last s \<noteq> CHR ''.''"
    and "stod s = Some x" "of_int INT_MIN \<le> dvalue x" "dvalue x \<le> of_int INT_MAX"
  shows "parse_number v = Inr (Some (JsonInteger (trunc_int x), dropWhile isNumberComponent v))"
proof -
  let ?r = "dropWhile isNumberComponent v"
  have v: "v = s @ ?r" using assms(1) by simp
  have "stop ?r" by (cases ?r) (auto simp: stop_def dest: dropWhile_eq_Cons_conv [THEN iffD1])
  then have "number_loop (s @ ?r) True [] = ([] @ s, if s = [] then True else last s \<noteq> CHR ''.'', ?r)"
    using assms(1) by (intro number_loop_all) (auto dest: set_takeWhileD)
  then have nl: "number_loop v True [] = (s, True, ?r)" using v assms(2,4) by simp
  have "front v = Inr (hd s)" using v assms(2) by (cases s) (metis append_Cons front_simps(2) list.sel(1))+
  then show ?thesis using nl assms(3,5-7) by (auto simp: parse_number_def)
qed


lemma floor_example: "\<lfloor>3 / 2 :: rat\<rfloor> = 1"
  by (simp add: floor_eq_iff)

lemma stod_example: "stod ''1.5'' = Some (Double False (3 / 2))"
proof -
  have p: "strtod_parse ''1.5'' = Some (False, 15, - 1)"
    by (simp add: strtod_parse_def isspace_def strip_sign_def isdigit_def digits_val_def digit_val_def strtod_exponent_def)
  have v: "(15 :: rat) * 10 powi - 1 = 3 / 2" by (simp add: power_int_minus)
  have b: "bin_exponent (3 / 2) = 0" by (simp add: bin_exponent_def ilog2.simps floor_example)
  have h: "(3 / 2 :: rat) / 2 powi - 52 = of_int (3 * 2 ^ 51)" by (simp add: power_int_minus)
  have "half_even ((3 / 2 :: rat) / 2 powi - 52) = 3 * 2 ^ 51" unfolding h by (rule half_even_int)
  then have r: "round_double (3 / 2) = Some (3 / 2)"
    by (simp add: round_double_def b power_int_minus Let_def)
  show ?thesis using r by (simp add: stod_def p v)
qed

lemma fraction_dropped_witness: "parse_number ''1.5'' = Inr (Some (JsonInteger 1, []))"
  using fraction_dropped [of "''1.5''" "''1.5''" "Double False (3 / 2)"] stod_example
  by (simp add: isNumberComponent_def isdigit_def dvalue_def INT_MAX_def INT_MIN_def trunc_int_def floor_example)

end
