(* ===== verification/Calendar.thy ===== *)
theory Calendar
  imports TimeStamp "HOL-Library.Signed_Division"
begin

text \<open>
  Dates: \<open>gmtime_r\<close> and the conversions of \<open>strftime\<close> and \<open>snprintf\<close> the sources use, in the C
  locale, and the formatted output of \<open>haha_web/base/TimeStamp.h\<close> (\<open>getDate\<close>,
  \<open>toFormattedString\<close>, \<open>get_TZoffset\<close>).
\<close>

section \<open>Padded numbers\<close>

text \<open>\<open>%02d\<close>, \<open>%06d\<close> and \<open>%4d\<close>: a minimal width, filled with zeros behind the sign or with blanks.\<close>

definition zero_padded :: "nat \<Rightarrow> int \<Rightarrow> string" where
  "zero_padded w i =
     (let s = nat_to_string (nat \<bar>i\<bar>); sg = (if i < 0 then ''-'' else [])
      in sg @ replicate (w - length sg - length s) (CHR ''0'') @ s)"

definition blank_padded :: "nat \<Rightarrow> int \<Rightarrow> string" where
  "blank_padded w i = (let s = int_to_string i in replicate (w - length s) (CHR '' '') @ s)"

section \<open>The broken-down time\<close>

record tm =
  tm_year :: int
  tm_mon :: int
  tm_mday :: int
  tm_hour :: int
  tm_min :: int
  tm_sec :: int
  tm_wday :: int

text \<open>
  The date of a day number (1970-01-01 is 0) in the proleptic Gregorian calendar. The year is the
  full year and the month counts from 1: every use in the sources adds the offsets of the C structure.
\<close>

definition civil_date :: "int \<Rightarrow> int \<times> int \<times> int" where
  "civil_date day =
     (let z = day + 719468;
          era = z div 146097;
          doe = z mod 146097;
          yoe = (doe - doe div 1460 + doe div 36524 - doe div 146096) div 365;
          doy = doe - (365 * yoe + yoe div 4 - yoe div 100);
          mp = (5 * doy + 2) div 153;
          m = (if mp < 10 then mp + 3 else mp - 9)
      in (yoe + era * 400 + (if m \<le> 2 then 1 else 0), m, doy - (153 * mp + 2) div 5 + 1))"

definition gmtime_r :: "int \<Rightarrow> tm" where
  "gmtime_r t =
     (let day = t div 86400; s = t mod 86400; (y, m, d) = civil_date day
      in \<lparr>tm_year = y, tm_mon = m, tm_mday = d, tm_hour = s div 3600, tm_min = s mod 3600 div 60,
          tm_sec = s mod 60, tm_wday = (day + 4) mod 7\<rparr>)"

definition day_names :: "string list" where
  "day_names = [''Sun'', ''Mon'', ''Tue'', ''Wed'', ''Thu'', ''Fri'', ''Sat'']"

definition month_names :: "string list" where
  "month_names = [''Jan'', ''Feb'', ''Mar'', ''Apr'', ''May'', ''Jun'', ''Jul'', ''Aug'', ''Sep'',
     ''Oct'', ''Nov'', ''Dec'']"

text \<open>
  The conversions of \<open>strftime\<close> the program names; \<open>other\<close> gives the text of the remaining ones,
  which only a user's own log pattern can reach.
\<close>

definition strftime_conv :: "(char \<Rightarrow> tm \<Rightarrow> string) \<Rightarrow> char \<Rightarrow> tm \<Rightarrow> string" where
  "strftime_conv other c t =
     (if c = CHR ''Y'' then int_to_string (tm_year t)
      else if c = CHR ''m'' then zero_padded 2 (tm_mon t)
      else if c = CHR ''d'' then zero_padded 2 (tm_mday t)
      else if c = CHR ''H'' then zero_padded 2 (tm_hour t)
      else if c = CHR ''M'' then zero_padded 2 (tm_min t)
      else if c = CHR ''S'' then zero_padded 2 (tm_sec t)
      else if c = CHR ''a'' then day_names ! nat (tm_wday t)
      else if c = CHR ''b'' then month_names ! nat (tm_mon t - 1)
      else if c = CHR ''%'' then ''%''
      else other c t)"

fun strftime_text :: "(char \<Rightarrow> tm \<Rightarrow> string) \<Rightarrow> string \<Rightarrow> tm \<Rightarrow> string" where
  "strftime_text other [] t = []"
| "strftime_text other [c] t = [c]"
| "strftime_text other (c # d # f) t =
     (if c = CHR ''%'' then strftime_conv other d t @ strftime_text other f t
      else c # strftime_text other (d # f) t)"

text \<open>\<open>strftime(buf, n, \<dots>)\<close> leaves the buffer indeterminate when the text and its NUL do not fit.\<close>

definition strftime :: "(char \<Rightarrow> tm \<Rightarrow> string) \<Rightarrow> nat \<Rightarrow> string \<Rightarrow> tm \<Rightarrow> string option" where
  "strftime other n f t =
     (let s = strftime_text other f t in if length s < n then Some s else None)"

definition no_conv :: "char \<Rightarrow> tm \<Rightarrow> string" where
  "no_conv c t = []"

section \<open>The formatted output of a time stamp\<close>

text \<open>\<open>getDate\<close>: the buffer is cleared, so a text that does not fit would be the empty string.\<close>

definition getDate :: "int \<Rightarrow> string" where
  "getDate t = (case strftime no_conv 50 ''%a, %d %b %Y %H:%M:%S GMT'' (gmtime_r t) of
     None \<Rightarrow> [] | Some s \<Rightarrow> s)"

definition signed32 :: "nat \<Rightarrow> int" where
  "signed32 n = sint (word_of_nat n :: 32 word)"

definition toFormattedString :: "bool \<Rightarrow> timestamp \<Rightarrow> string" where
  "toFormattedString showMicroseconds ts =
     (let t = gmtime_r (int (get_second ts));
          date = blank_padded 4 (tm_year t) @ zero_padded 2 (tm_mon t) @ zero_padded 2 (tm_mday t)
            @ '' '' @ zero_padded 2 (tm_hour t) @ '':'' @ zero_padded 2 (tm_min t) @ '':''
            @ zero_padded 2 (tm_sec t)
      in take 63 (if showMicroseconds then date @ ''.'' @ zero_padded 6 (signed32 (get_microsecond ts))
                  else date))"

text \<open>
  \<open>get_TZoffset\<close> reads the offset back from the text \<open>%z\<close> prints, a sign and four digits; a
  shorter text makes \<open>substr\<close> or \<open>stoi\<close> throw.
\<close>

definition get_TZoffset :: "string \<Rightarrow> int res" where
  "get_TZoffset s =
     rbind (stoi (take 3 s)) (\<lambda>h.
       if length s < 3 then Inl (Raised Out_of_range)
       else rbind (stoi (hd s # drop 3 s)) (\<lambda>m. Inr (h * 3600 + m * 60)))"

definition put_time_z :: "int \<Rightarrow> string" where
  "put_time_z off =
     (let m = \<bar>off\<bar> div 60
      in (if off < 0 then ''-'' else ''+'') @ zero_padded 2 (m div 60) @ zero_padded 2 (m mod 60))"

lemma nat_to_string_two: "10 \<le> n \<Longrightarrow> n < 100 \<Longrightarrow> nat_to_string n = [digit_char (n div 10), digit_char (n mod 10)]"
  by (simp add: nat_to_string.simps [of n] nat_to_string.simps [of "n div 10"])

lemma digit_char_0: "digit_char 0 = CHR ''0''"
  by code_simp

lemma zero_padded_two:
  assumes "0 \<le> i" and "i < 100"
  shows "zero_padded 2 i = [digit_char (nat i div 10), digit_char (nat i mod 10)]"
proof (cases "i < 10")
  case True
  then have "nat_to_string (nat i) = [digit_char (nat i)]"
    using assms by (subst nat_to_string.simps) (simp add: nat_less_iff)
  with True assms show ?thesis
    by (simp add: zero_padded_def digit_char_0 nat_less_iff numeral_2_eq_2)
next
  case False
  then have "nat_to_string (nat i) = [digit_char (nat i div 10), digit_char (nat i mod 10)]"
    using assms by (intro nat_to_string_two) auto
  with False assms show ?thesis by (simp add: zero_padded_def)
qed

lemma stoi_signed_two:
  assumes "a < 10" and "b < 10" and "sg = CHR ''+'' \<or> sg = CHR ''-''"
  shows "stoi [sg, digit_char a, digit_char b] =
    Inr ((if sg = CHR ''-'' then -1 else 1) * int (10 * a + b))"
proof -
  have "dropWhile isspace [sg, digit_char a, digit_char b] = [sg, digit_char a, digit_char b]"
    using assms(3) by (auto simp: isspace_def)
  moreover have "takeWhile isdigit [digit_char a, digit_char b] = [digit_char a, digit_char b]"
    using assms by simp
  moreover have "digits_val [digit_char a, digit_char b] = 10 * a + b"
    using assms by (simp add: digits_val_def)
  ultimately show ?thesis
    using assms by (auto simp: stoi_def strip_sign_def)
qed

text \<open>The offset of the time zone, read back from the text \<open>%z\<close> prints, is the offset, to the minute,
  east and west of Greenwich.\<close>

theorem tz_offset_roundtrip:
  assumes "off mod 60 = 0" and "\<bar>off\<bar> < 360000"
  shows "get_TZoffset (put_time_z off) = Inr off"
proof -
  define m where "m = nat (\<bar>off\<bar> div 60)"
  have off: "\<bar>off\<bar> = 60 * int m"
    using assms(1) by (auto simp: m_def abs_if mod_eq_0_iff_dvd)
  have m: "m < 6000" using off assms(2) by simp
  define sg where "sg = (if off < 0 then CHR ''-'' else CHR ''+'')"
  let ?h = "m div 60" and ?r = "m mod 60"
  have h: "zero_padded 2 (int ?h) = [digit_char (?h div 10), digit_char (?h mod 10)]"
    using m by (subst zero_padded_two) (auto simp: less_mult_imp_div_less)
  have r: "zero_padded 2 (int ?r) = [digit_char (?r div 10), digit_char (?r mod 10)]"
    by (subst zero_padded_two) (auto intro: less_trans [OF mod_less_divisor])
  have "put_time_z off = [sg, digit_char (?h div 10), digit_char (?h mod 10),
      digit_char (?r div 10), digit_char (?r mod 10)]"
    using h r off by (simp add: put_time_z_def sg_def zdiv_int zmod_int)
  moreover have "stoi [sg, digit_char (?h div 10), digit_char (?h mod 10)] =
      Inr ((if sg = CHR ''-'' then -1 else 1) * int ?h)"
    using m by (subst stoi_signed_two) (auto simp: sg_def less_mult_imp_div_less)
  moreover have "stoi [sg, digit_char (?r div 10), digit_char (?r mod 10)] =
      Inr ((if sg = CHR ''-'' then -1 else 1) * int ?r)"
    by (subst stoi_signed_two) (auto simp: sg_def less_mult_imp_div_less)
  moreover have "int ?h * 3600 + int ?r * 60 = 60 * int m"
    by (simp add: zdiv_int zmod_int) presburger
  ultimately show ?thesis
    using off by (auto simp: get_TZoffset_def sg_def split: if_splits)
qed

theorem tz_offset_roundtrip_witness: "get_TZoffset (put_time_z (- 19800)) = Inr (- 19800)"
  by (rule tz_offset_roundtrip) simp_all

text \<open>
  The field after the point is not the fraction of the second: it is the whole count of microseconds
  reduced to a signed 32-bit integer, here 269729792 where the fraction is 123456.
\<close>

lemma signed32_value: "signed32 1704067199123456 = 269729792"
  by (simp add: signed32_def sint_sbintrunc' signed_take_bit_eq_if_negative bit_simps)


lemma gmtime_value: "gmtime_r 1704067199 = \<lparr>tm_year = 2023, tm_mon = 12, tm_mday = 31, tm_hour = 23,
   tm_min = 59, tm_sec = 59, tm_wday = 0\<rparr>"
  by code_simp

lemma two_dates: "zero_padded 2 12 = ''12''"  "zero_padded 2 31 = ''31''" "zero_padded 2 59 = ''59''" "zero_padded 2 23 = ''23''" "blank_padded 4 2023 = ''2023''"
  by code_simp+

lemma microseconds_text: "nat_to_string 269729792 = ''269729792''"
proof -
  have "nat_to_string 269729792 = map digit_char [2, 6, 9, 7, 2, 9, 7, 9, 2]"
    by (simp add: nat_to_string.simps)
  also have "\<dots> = ''269729792''" by code_simp
  finally show ?thesis .
qed

lemma formatted_fraction_wrong: "toFormattedString True 1704067199123456 = ''20231231 23:59:59.269729792''"
proof -
  have v: "get_second 1704067199123456 = 1704067199" "get_microsecond 1704067199123456 = 1704067199123456"
    by (simp_all add: get_second_def get_microsecond_def MicroSecondsPerSecond_def)
  have z: "zero_padded 6 269729792 = ''269729792''"
    by (simp add: zero_padded_def microseconds_text)
  show ?thesis 
  unfolding toFormattedString_def Let_def v
    by (simp add:  gmtime_value signed32_value z two_dates)
qed
end
