(* ===== verification/LogStream.thy ===== *)
theory LogStream
  imports Calendar JsonUtil
begin

text \<open>
  \<open>haha_web/log/LogUtil.h\<close> and \<open>haha_web/log/LogStream.{h,cpp}\<close>: the fixed buffers of the logger,
  the base name of a source file, and the stream that formats values into a fixed buffer.
\<close>

named_theorems fbuf_lemmas \<open>facts on the contents and the bounds of fixed buffers\<close>

section \<open>Fixed buffers\<close>

text \<open>
  The array of a buffer is not initialised: a cell is \<open>None\<close> until something is written to it.
  \<open>fb_cur\<close> is \<open>cur_ - data_\<close>; moving it past the end of the array is undefined behaviour, so the
  number of bytes left is never negative.
\<close>

record fbuf =
  fb_size :: nat
  fb_cells :: "nat \<Rightarrow> char option"
  fb_cur :: nat

definition kSmallBuffer :: nat where "kSmallBuffer = 4000"
definition kLargeBuffer :: nat where "kLargeBuffer = 4000 * 1000"
definition kbuffersMaxSize :: nat where "kbuffersMaxSize = 25"

definition new_fbuf :: "nat \<Rightarrow> fbuf" where
  "new_fbuf n = \<lparr>fb_size = n, fb_cells = \<lambda>_. None, fb_cur = 0\<rparr>"

definition fb_avail :: "fbuf \<Rightarrow> nat" where
  "fb_avail b = fb_size b - fb_cur b"

definition write_cells :: "nat \<Rightarrow> string \<Rightarrow> (nat \<Rightarrow> char option) \<Rightarrow> nat \<Rightarrow> char option" where
  "write_cells k s f = (\<lambda>i. if k \<le> i \<and> i < k + length s then Some (s ! (i - k)) else f i)"

text \<open>Writing at \<open>current()\<close> without moving it.\<close>

definition fb_poke :: "string \<Rightarrow> fbuf \<Rightarrow> fbuf res" where
  "fb_poke s b =
     (if fb_cur b + length s \<le> fb_size b
      then Inr (b\<lparr>fb_cells := write_cells (fb_cur b) s (fb_cells b)\<rparr>)
      else Inl Undefined)"

definition fb_add :: "nat \<Rightarrow> fbuf \<Rightarrow> fbuf res" where
  "fb_add n b =
     (if fb_cur b + n \<le> fb_size b then Inr (b\<lparr>fb_cur := fb_cur b + n\<rparr>) else Inl Undefined)"

definition fb_append :: "string \<Rightarrow> fbuf \<Rightarrow> fbuf res" where
  "fb_append s b =
     (if fb_avail b > length s then rbind (fb_poke s b) (fb_add (length s)) else Inr b)"

definition fb_length :: "fbuf \<Rightarrow> nat" where
  "fb_length b = fb_cur b"

definition fb_reset :: "fbuf \<Rightarrow> fbuf" where
  "fb_reset b = b\<lparr>fb_cur := 0\<rparr>"

definition fb_bzero :: "fbuf \<Rightarrow> fbuf" where
  "fb_bzero b = b\<lparr>fb_cells := (\<lambda>i. if i < fb_size b then Some NUL else fb_cells b i)\<rparr>"

text \<open>\<open>toStringView()\<close>, read byte by byte: an indeterminate cell in it is undefined behaviour.\<close>

definition fb_text :: "fbuf \<Rightarrow> string res" where
  "fb_text b =
     (let cs = map (fb_cells b) [0..<fb_cur b]
      in if None \<in> set cs then Inl Undefined else Inr (map the cs))"

text \<open>
  \<open>data()\<close> read as a C string: up to the first NUL, which must come before any indeterminate cell and
  before the end of the array.
\<close>

function fb_cstring_from :: "nat \<Rightarrow> fbuf \<Rightarrow> string res" where
  "fb_cstring_from k b =
     (if fb_size b \<le> k then Inl Undefined
      else case fb_cells b k of
        None \<Rightarrow> Inl Undefined
      | Some c \<Rightarrow> if c = NUL then Inr [] else rbind (fb_cstring_from (Suc k) b) (\<lambda>s. Inr (c # s)))"
  by pat_completeness auto
termination by (relation "measure (\<lambda>(k, b). fb_size b - k)") auto

declare fb_cstring_from.simps [simp del]

definition fb_cstring :: "fbuf \<Rightarrow> string res" where
  "fb_cstring b = fb_cstring_from 0 b"

section \<open>The base name of a source file\<close>

text \<open>\<open>strrchr\<close>: what follows the last slash, \<open>None\<close> without a slash.\<close>

fun after_last_slash :: "string \<Rightarrow> string option" where
  "after_last_slash [] = None"
| "after_last_slash (c # s) =
     (case after_last_slash s of
        Some t \<Rightarrow> Some t
      | None \<Rightarrow> if c = CHR ''/'' then Some s else None)"

definition source_file :: "string \<Rightarrow> string" where
  "source_file path = (case after_last_slash path of None \<Rightarrow> path | Some s \<Rightarrow> s)"

section \<open>Numbers\<close>

definition digits :: string where "digits = ''9876543210123456789''"
definition digitsHex :: string where "digitsHex = ''0123456789ABCDEF''"

text \<open>\<open>zero[lsd]\<close>, with \<open>zero = digits + 9\<close>: the index may be negative down to \<open>-9\<close>.\<close>

definition zero_at :: "int \<Rightarrow> char" where
  "zero_at lsd = digits ! nat (9 + lsd)"

text \<open>
  The loop of \<open>convert\<close> on the value of an integer type: the division of C++ truncates, so the
  remainders of a negative value are negative. The digits come out with the lowest one first.
\<close>

lemma abs_sdiv_10: "\<bar>i sdiv 10\<bar> = \<bar>i\<bar> div (10 :: int)"
  by (cases "i = 0") (auto simp: signed_divide_int_def abs_mult abs_sgn_eq)

function convert_loop :: "int \<Rightarrow> string" where
  "convert_loop i =
     (let lsd = i smod 10; i' = i sdiv 10
      in if i' = 0 then [zero_at lsd] else zero_at lsd # convert_loop i')"
  by pat_completeness auto
termination
proof (relation "measure (\<lambda>i. nat \<bar>i\<bar>)")
  fix i lsd i' :: int
  assume i': "i' = i sdiv 10" "i' \<noteq> 0"
  then have "\<bar>i\<bar> div 10 \<noteq> 0" using abs_sdiv_10 [of i] by simp
  then have "\<bar>i'\<bar> < \<bar>i\<bar>" using i' abs_sdiv_10 [of i] by simp
  then show "(i', i) \<in> measure (\<lambda>i. nat \<bar>i\<bar>)" by simp
qed simp

declare convert_loop.simps [simp del]

definition convert :: "int \<Rightarrow> string" where
  "convert value = rev (convert_loop value @ (if value < 0 then ''-'' else []))"

fun convertHex_loop :: "nat \<Rightarrow> string" where
  "convertHex_loop i =
     (let lsd = i mod 16; i' = i div 16
      in if i' = 0 then [digitsHex ! lsd] else digitsHex ! lsd # convertHex_loop i')"

declare convertHex_loop.simps [simp del]

definition convertHex :: "nat \<Rightarrow> string" where
  "convertHex value = rev (convertHex_loop value)"

lemma after_last_slash_None: "after_last_slash p = None \<longleftrightarrow> CHR ''/'' \<notin> set p"
  by (induction p) (auto split: option.splits)

lemma after_last_slash_Some:
  "after_last_slash p = Some s \<Longrightarrow> CHR ''/'' \<notin> set s \<and> (\<exists>d. p = d @ CHR ''/'' # s)"
proof (induction p)
  case (Cons c p)
  then show ?case
    by (cases "after_last_slash p") (auto simp: after_last_slash_None append_eq_Cons_conv split: if_splits)
qed simp

lemma source_file_basename:
  "CHR ''/'' \<notin> set (source_file p) \<and> (source_file p = p \<or> (\<exists>d. p = d @ CHR ''/'' # source_file p))"
  by (auto simp: source_file_def after_last_slash_None dest: after_last_slash_Some split: option.split)

section \<open>Formatting into a stream\<close>

text \<open>\<open>%.12g\<close>: the decimal exponent of a positive number, and its twelve significant digits.\<close>

fun ilog10 :: "nat \<Rightarrow> nat" where
  "ilog10 n = (if n < 10 then 0 else Suc (ilog10 (n div 10)))"

declare ilog10.simps [simp del]

fun neg_log10 :: "nat \<Rightarrow> rat \<Rightarrow> nat" where
  "neg_log10 0 x = 0"
| "neg_log10 (Suc fuel) x = (if 1 \<le> x then 0 else Suc (neg_log10 fuel (10 * x)))"

definition dec_exponent :: "rat \<Rightarrow> int" where
  "dec_exponent x = (if 1 \<le> x then int (ilog10 (nat \<lfloor>x\<rfloor>)) else - int (neg_log10 400 x))"

definition strip_zeros :: "string \<Rightarrow> string" where
  "strip_zeros s = rev (dropWhile (\<lambda>c. c = CHR ''0'') (rev s))"

definition with_fraction :: "string \<Rightarrow> string \<Rightarrow> string" where
  "with_fraction ip fp = (let f = strip_zeros fp in if f = [] then ip else ip @ ''.'' @ f)"

definition format_g12 :: "double \<Rightarrow> string" where
  "format_g12 d =
     (let r = dmag d; sg = (if dneg d then ''-'' else [])
      in if r = 0 then sg @ ''0''
         else let x0 = dec_exponent r;
                  m0 = half_even (r * 10 powi (11 - x0));
                  (m, x) = (if m0 = 10 ^ 12 then (10 ^ 11, x0 + 1) else (m0, x0));
                  ds = pad_digits 12 (nat m)
              in if 0 \<le> x \<and> x < 12
                 then sg @ with_fraction (take (nat x + 1) ds) (drop (nat x + 1) ds)
                 else if - 4 \<le> x \<and> x < 0
                 then sg @ with_fraction ''0'' (replicate (nat (- x - 1)) (CHR ''0'') @ ds)
                 else sg @ with_fraction (take 1 ds) (drop 1 ds)
                   @ ''e'' @ (if x < 0 then ''-'' else ''+'') @ zero_padded 2 \<bar>x\<bar>)"

definition kMaxNumericSize :: nat where "kMaxNumericSize = 48"

definition formatInteger :: "int \<Rightarrow> fbuf \<Rightarrow> fbuf res" where
  "formatInteger v b =
     (if kMaxNumericSize \<le> fb_avail b
      then rbind (fb_poke (convert v @ [NUL]) b) (fb_add (length (convert v)))
      else Inr b)"

definition out_pointer :: "nat \<Rightarrow> fbuf \<Rightarrow> fbuf res" where
  "out_pointer v b =
     (if kMaxNumericSize \<le> fb_avail b
      then rbind (fb_poke (''0x'' @ convertHex v @ [NUL]) b) (fb_add (length (convertHex v) + 2))
      else Inr b)"

text \<open>\<open>snprintf\<close> writes at most \<open>kMaxNumericSize\<close> bytes and returns the untruncated length.\<close>

definition out_double :: "double \<Rightarrow> fbuf \<Rightarrow> fbuf res" where
  "out_double v b =
     (if kMaxNumericSize \<le> fb_avail b
      then rbind (fb_poke (take (kMaxNumericSize - 1) (format_g12 v) @ [NUL]) b)
             (fb_add (length (format_g12 v)))
      else Inr b)"

definition out_bool :: "bool \<Rightarrow> fbuf \<Rightarrow> fbuf res" where
  "out_bool v = fb_append (if v then ''1'' else ''0'')"

definition out_char :: "char \<Rightarrow> fbuf \<Rightarrow> fbuf res" where
  "out_char v = fb_append [v]"

text \<open>A C string is given by its bytes before the NUL; \<open>None\<close> is the null pointer.\<close>

definition out_cstr :: "string option \<Rightarrow> fbuf \<Rightarrow> fbuf res" where
  "out_cstr v = (case v of Some s \<Rightarrow> fb_append s | None \<Rightarrow> fb_append ''(null)'')"

definition out_string :: "string \<Rightarrow> fbuf \<Rightarrow> fbuf res" where
  "out_string v = fb_append v"

definition out_buffer :: "fbuf \<Rightarrow> fbuf \<Rightarrow> fbuf res" where
  "out_buffer v b = rbind (fb_text v) (\<lambda>s. out_string s b)"

text \<open>The overloads of \<open>operator<<\<close>; every integer type goes through \<open>formatInteger\<close>.\<close>

datatype log_arg =
    A_bool bool
  | A_int int
  | A_pointer nat
  | A_double double
  | A_char char
  | A_cstr "string option"
  | A_string string

fun stream_out :: "log_arg \<Rightarrow> fbuf \<Rightarrow> fbuf res" where
  "stream_out (A_bool v) = out_bool v"
| "stream_out (A_int v) = formatInteger v"
| "stream_out (A_pointer v) = out_pointer v"
| "stream_out (A_double v) = out_double v"
| "stream_out (A_char v) = out_char v"
| "stream_out (A_cstr v) = out_cstr v"
| "stream_out (A_string v) = out_string v"

fun stream_all :: "log_arg list \<Rightarrow> fbuf \<Rightarrow> fbuf res" where
  "stream_all [] b = Inr b"
| "stream_all (a # as) b = rbind (stream_out a b) (stream_all as)"

section \<open>What a buffer holds\<close>

definition holds :: "fbuf \<Rightarrow> string \<Rightarrow> bool" where
  "holds b t \<longleftrightarrow> fb_cur b = length t \<and> length t \<le> fb_size b \<and>
     (\<forall>i < length t. fb_cells b i = Some (t ! i))"

lemma holds_new [simp, fbuf_lemmas]: "holds (new_fbuf n) []"
  by (simp add: holds_def new_fbuf_def)

lemma new_fbuf_size [simp]: "fb_size (new_fbuf n) = n"
  by (simp add: new_fbuf_def)

lemma holds_reset [simp, fbuf_lemmas]: "holds (fb_reset b) []"
  by (simp add: holds_def fb_reset_def)

lemma fb_reset_size [simp]: "fb_size (fb_reset b) = fb_size b"
  by (simp add: fb_reset_def)

lemma holds_length [fbuf_lemmas]: "holds b t \<Longrightarrow> fb_length b = length t"
  by (simp add: holds_def fb_length_def)

lemma holds_avail [fbuf_lemmas]: "holds b t \<Longrightarrow> fb_avail b = fb_size b - length t"
  by (simp add: holds_def fb_avail_def)

lemma holds_text [fbuf_lemmas]: "holds b t \<Longrightarrow> fb_text b = Inr t"
proof -
  assume h: "holds b t"
  then have "map (fb_cells b) [0..<fb_cur b] = map Some t"
    by (intro nth_equalityI) (auto simp: holds_def)
  then show "fb_text b = Inr t" by (simp add: fb_text_def comp_def)
qed

text \<open>Writing a text, and possibly more behind it, and moving over the text.\<close>

lemma holds_poke_add:
  assumes "holds b t" and "length t + length s + length x \<le> fb_size b"
  obtains b' where "rbind (fb_poke (s @ x) b) (fb_add (length s)) = Inr b'"
    and "holds b' (t @ s)" and "fb_size b' = fb_size b"
proof
  let ?b = "b\<lparr>fb_cells := write_cells (fb_cur b) (s @ x) (fb_cells b), fb_cur := fb_cur b + length s\<rparr>"
  show "rbind (fb_poke (s @ x) b) (fb_add (length s)) = Inr ?b"
    using assms by (simp add: fb_poke_def fb_add_def holds_def)
  show "holds ?b (t @ s)"
    unfolding holds_def
  proof (intro conjI allI impI)
    fix i assume i: "i < length (t @ s)"
    then have "\<not> i < length t \<Longrightarrow> i - length t < length s" by auto
    with i show "fb_cells ?b i = Some ((t @ s) ! i)"
      using assms by (cases "i < length t") (simp_all add: holds_def write_cells_def nth_append)
  qed (use assms in \<open>simp_all add: holds_def\<close>)
  show "fb_size ?b = fb_size b" by simp
qed

lemma holds_append:
  assumes "holds b t"
  obtains b' where "fb_append s b = Inr b'" and "fb_size b' = fb_size b"
    and "holds b' (if length t + length s < fb_size b then t @ s else t)"
proof (cases "length t + length s < fb_size b")
  case True
  obtain b' where "rbind (fb_poke (s @ []) b) (fb_add (length s)) = Inr b'"
    and "holds b' (t @ s)" "fb_size b' = fb_size b"
    by (rule holds_poke_add [OF assms, of s "[]"]) (use True in auto)
  moreover have "fb_append s b = rbind (fb_poke (s @ []) b) (fb_add (length s))"
  proof -
    have "length s < fb_size b - length t" using True by linarith
    then show ?thesis using holds_avail [OF assms] by (simp add: fb_append_def)
  qed
  ultimately show ?thesis using True by (intro that) simp_all
next
  case False
  then have "\<not> length s < fb_size b - length t" by linarith
  then have "fb_append s b = Inr b" using holds_avail [OF assms] by (simp add: fb_append_def)
  with False assms show ?thesis by (intro that) simp_all
qed

section \<open>The digits\<close>

lemma zero_at_digit: "\<bar>d\<bar> < 10 \<Longrightarrow> zero_at d = digit_char (nat \<bar>d\<bar>)"
proof -
  assume "\<bar>d\<bar> < 10"
  then have "d \<in> set [-9..9]" by auto
  moreover have "\<forall>d \<in> set [-9..9]. zero_at d = digit_char (nat \<bar>d\<bar>)" by code_simp
  ultimately show ?thesis by blast
qed

lemma abs_smod_10: "\<bar>i smod 10\<bar> = \<bar>i\<bar> mod (10 :: int)"
  by (auto simp: smod_int_alt_def abs_mult abs_sgn_eq)

lemma convert_loop_digits: "convert_loop i = rev (nat_to_string (nat \<bar>i\<bar>))"
proof (induction i rule: convert_loop.induct)
  case (1 i)
  have lsd: "zero_at (i smod 10) = digit_char (nat (\<bar>i\<bar> mod 10))"
    using abs_smod_10 [of i] by (simp add: zero_at_digit)
  have quot: "nat \<bar>i sdiv 10\<bar> = nat \<bar>i\<bar> div 10"
    using abs_sdiv_10 [of i] by (simp add: nat_div_distrib)
  show ?case
  proof (cases "i sdiv 10 = 0")
    case True
    then have "\<bar>i\<bar> < 10" using abs_sdiv_10 [of i] by (simp add: div_eq_0_iff)
    then show ?thesis using True lsd
      by (simp add: convert_loop.simps [of i] nat_to_string.simps [of "nat \<bar>i\<bar>"])
  next
    case False
    then have "\<not> \<bar>i\<bar> < 10" using abs_sdiv_10 [of i] by auto
    then have "\<not> nat \<bar>i\<bar> < 10" by simp
    then show ?thesis using False lsd quot 1
      by (simp add: convert_loop.simps [of i] nat_to_string.simps [of "nat \<bar>i\<bar>"] nat_mod_distrib)
  qed
qed

lemma convert_decimal [simp]: "convert v = int_to_string v"
  by (simp add: convert_def convert_loop_digits int_to_string_def)

lemma nat_to_string_length: "n < 10 ^ Suc k \<Longrightarrow> length (nat_to_string n) \<le> Suc k"
proof (induction k arbitrary: n)
  case 0
  then show ?case by (simp add: nat_to_string.simps)
next
  case (Suc k)
  then have "n div 10 < 10 ^ Suc k" by (simp add: div_less_iff_less_mult mult.commute)
  from Suc.IH [OF this] show ?case by (subst nat_to_string.simps) simp
qed

lemma int_to_string_length: "- (2 ^ 63) \<le> v \<Longrightarrow> v < 2 ^ 64 \<Longrightarrow> length (int_to_string v) \<le> 20"
  using nat_to_string_length [of "nat \<bar>v\<bar>" 19] nat_to_string_length [of "nat \<bar>v\<bar>" 18]
  by (auto simp: int_to_string_def)

lemma convertHex_length: "v < 16 ^ Suc k \<Longrightarrow> length (convertHex v) \<le> Suc k"
proof -
  have "length (convertHex_loop v) \<le> Suc k" if "v < 16 ^ Suc k"
    using that
  proof (induction k arbitrary: v)
    case 0
    then show ?case by (simp add: convertHex_loop.simps)
  next
    case (Suc k)
    then have "v div 16 < 16 ^ Suc k" by (simp add: div_less_iff_less_mult mult.commute)
    from Suc.IH [OF this] show ?case by (subst convertHex_loop.simps) (simp add: Let_def)
  qed
  then show "v < 16 ^ Suc k \<Longrightarrow> length (convertHex v) \<le> Suc k" by (simp add: convertHex_def)
qed


section \<open>What a stream holds\<close>

fun arg_text :: "log_arg \<Rightarrow> string" where
  "arg_text (A_bool v) = (if v then ''1'' else ''0'')"
| "arg_text (A_int v) = int_to_string v"
| "arg_text (A_pointer v) = ''0x'' @ convertHex v"
| "arg_text (A_double v) = format_g12 v"
| "arg_text (A_char v) = [v]"
| "arg_text (A_cstr v) = (case v of Some s \<Rightarrow> s | None \<Rightarrow> ''(null)'')"
| "arg_text (A_string v) = v"

text \<open>The values of the integer types, and doubles whose text is shorter than the 48 bytes kept for it.\<close>

fun arg_ok :: "log_arg \<Rightarrow> bool" where
  "arg_ok (A_int v) \<longleftrightarrow> - (2 ^ 63) \<le> v \<and> v < 2 ^ 64"
| "arg_ok (A_pointer v) \<longleftrightarrow> v < 2 ^ 64"
| "arg_ok (A_double v) \<longleftrightarrow> length (format_g12 v) < 48"
| "arg_ok _ \<longleftrightarrow> True"

text \<open>The room an overload asks for before it writes at all.\<close>

fun arg_room :: "log_arg \<Rightarrow> nat" where
  "arg_room (A_int v) = 48"
| "arg_room (A_pointer v) = 48"
| "arg_room (A_double v) = 48"
| "arg_room a = Suc (length (arg_text a))"

lemma arg_text_room: "arg_ok a \<Longrightarrow> length (arg_text a) < arg_room a"
proof (cases a)
  case (A_int v)
  then show "arg_ok a \<Longrightarrow> ?thesis" using int_to_string_length [of v] by simp
next
  case (A_pointer v)
  then show "arg_ok a \<Longrightarrow> ?thesis" using convertHex_length [of v 15] by simp
qed simp_all

lemma numeric_out:
  assumes "holds b t" and "length s < 48" and "length x \<le> 1"
    and out: "out = (if kMaxNumericSize \<le> fb_avail b then rbind (fb_poke (s @ x) b) (fb_add (length s)) else Inr b)"
  obtains b' where "out = Inr b'" and "fb_size b' = fb_size b"
    and "holds b' (if length t + 48 \<le> fb_size b then t @ s else t)"
proof (cases "length t + 48 \<le> fb_size b")
  case True
  then have room: "length t + length s + length x \<le> fb_size b" using assms by linarith
  have "kMaxNumericSize \<le> fb_avail b" using True holds_avail [OF assms(1)] by (simp add: kMaxNumericSize_def)
  with out have out': "out = rbind (fb_poke (s @ x) b) (fb_add (length s))" by simp
  obtain b' where "rbind (fb_poke (s @ x) b) (fb_add (length s)) = Inr b'"
      "holds b' (t @ s)" "fb_size b' = fb_size b"
    by (rule holds_poke_add [OF assms(1) room])
  with out' True show ?thesis by (intro that) simp_all
next
  case False
  then have "\<not> kMaxNumericSize \<le> fb_avail b"
    using holds_avail [OF assms(1)] by (auto simp: kMaxNumericSize_def)
  with False assms(1) out show ?thesis by (intro that [of b]) simp_all
qed

lemma stream_out_holds:
  assumes h: "holds b t" and ok: "arg_ok a"
  obtains b' where "stream_out a b = Inr b'" and "fb_size b' = fb_size b"
    and "holds b' (if length t + arg_room a \<le> fb_size b then t @ arg_text a else t)"
proof (cases "arg_room a = 48 \<and> (\<exists>v. a = A_int v \<or> (\<exists>v. a = A_pointer v) \<or> (\<exists>v. a = A_double v))")
  case True
  have len: "length (arg_text a) < 48" using arg_text_room [OF ok] True by simp
  have "stream_out a b = (if kMaxNumericSize \<le> fb_avail b
      then rbind (fb_poke (arg_text a @ [NUL]) b) (fb_add (length (arg_text a))) else Inr b)"
    using True len
    by (auto simp: formatInteger_def out_pointer_def out_double_def kMaxNumericSize_def)
  then obtain b' where "stream_out a b = Inr b'" "fb_size b' = fb_size b"
      "holds b' (if length t + 48 \<le> fb_size b then t @ arg_text a else t)"
    by (rule numeric_out [OF h len, of "[NUL]", rotated]) simp_all
  with True show ?thesis by (intro that) simp_all
next
  case False
  then have "stream_out a b = fb_append (arg_text a) b" "arg_room a = Suc (length (arg_text a))"
    by (cases a; auto simp: out_bool_def out_char_def out_cstr_def out_string_def split: option.splits)+
  moreover obtain b' where "fb_append (arg_text a) b = Inr b'" "fb_size b' = fb_size b"
      "holds b' (if length t + length (arg_text a) < fb_size b then t @ arg_text a else t)"
    by (rule holds_append [OF h])
  ultimately show ?thesis by (intro that) (simp_all add: Suc_le_eq)
qed

text \<open>What is kept of a list of arguments in a buffer of a given size.\<close>

fun kept :: "nat \<Rightarrow> string \<Rightarrow> log_arg list \<Rightarrow> string" where
  "kept n t [] = t"
| "kept n t (a # as) = kept n (if length t + arg_room a \<le> n then t @ arg_text a else t) as"

lemma stream_all_holds:
  assumes "holds b t" and "list_all arg_ok as"
  obtains b' where "stream_all as b = Inr b'" and "fb_size b' = fb_size b"
    and "holds b' (kept (fb_size b) t as)"
  using assms
proof (induction as arbitrary: b t thesis)
  case Nil
  then show ?case by simp
next
  case (Cons a as)
  obtain b1 where 1: "stream_out a b = Inr b1" "fb_size b1 = fb_size b"
      "holds b1 (if length t + arg_room a \<le> fb_size b then t @ arg_text a else t)"
    by (rule stream_out_holds [OF Cons.prems(2), of a]) (use Cons.prems(3) in simp_all)
  obtain b2 where "stream_all as b1 = Inr b2" "fb_size b2 = fb_size b1"
      "holds b2 (kept (fb_size b1) (if length t + arg_room a \<le> fb_size b then t @ arg_text a else t) as)"
    by (rule Cons.IH [OF _ 1(3)]) (use Cons.prems(3) in simp_all)
  with 1 show ?case by (intro Cons.prems(1)) simp_all
qed

lemma kept_all:
  assumes "list_all arg_ok as"
    and "length t + length (concat (map arg_text as)) + 48 \<le> n"
  shows "kept n t as = t @ concat (map arg_text as)"
  using assms
proof (induction as arbitrary: t)
  case (Cons a as)
  have "arg_room a \<le> Suc (length (arg_text a)) \<or> arg_room a = 48" by (cases a) simp_all
  with Cons.prems have "length t + arg_room a \<le> n" by auto
  with Cons show ?case by simp
qed simp

lemma kept_length: "list_all arg_ok as \<Longrightarrow> length t \<le> n \<Longrightarrow> length (kept n t as) \<le> n"
proof (induction as arbitrary: t)
  case (Cons a as)
  then have "length (arg_text a) < arg_room a" by (simp add: arg_text_room)
  with Cons show ?case by auto
qed simp

text \<open>C37: any sequence of values streamed into a fresh buffer is formatted without ever writing outside
  the array; the buffer holds the texts of the values that fit, each whole or not at all, in order, and
  all of them when 48 bytes remain at the end.\<close>

theorem log_stream_exact:
  assumes "list_all arg_ok as"
  shows "\<exists>b. stream_all as (new_fbuf n) = Inr b \<and> fb_text b = Inr (kept n [] as) \<and>
    length (kept n [] as) \<le> n \<and>
    (length (concat (map arg_text as)) + 48 \<le> n \<longrightarrow> kept n [] as = concat (map arg_text as))"
proof -
  obtain b where "stream_all as (new_fbuf n) = Inr b" "holds b (kept n [] as)"
    by (rule stream_all_holds [OF holds_new assms]) simp
  with assms show ?thesis
    by (auto simp: holds_text kept_all kept_length)
qed

theorem log_stream_exact_witness:
  "\<exists>b. stream_all [A_string ''n='', A_int (- 7), A_char LF] (new_fbuf 4000) = Inr b \<and>
     fb_text b = Inr (''n=-7'' @ [LF])"
proof -
  have t: "int_to_string (- 7) = ''-7''" by code_simp
  show ?thesis
    using log_stream_exact [of "[A_string ''n='', A_int (- 7), A_char LF]" 4000] t by auto
qed

end
