(* ===== verification/LogFormat.thy ===== *)
theory LogFormat
  imports LogStream
begin

text \<open>
  \<open>haha_web/log/LogInfo.{h,cpp}\<close> and \<open>haha_web/log/LogFormatter.{h,cpp}\<close>: the levels, a log record,
  the compilation of a pattern into format items, and formatting a record into a stream.
\<close>

section \<open>Levels\<close>

datatype LogLevel = LV_UNKNOW | LV_DEBUG | LV_INFO | LV_WARN | LV_ERROR | LV_FATAL

fun level_value :: "LogLevel \<Rightarrow> nat" where
  "level_value LV_UNKNOW = 0"
| "level_value LV_DEBUG = 1"
| "level_value LV_INFO = 2"
| "level_value LV_WARN = 3"
| "level_value LV_ERROR = 4"
| "level_value LV_FATAL = 5"

instantiation LogLevel :: linorder
begin

definition less_eq_LogLevel :: "LogLevel \<Rightarrow> LogLevel \<Rightarrow> bool" where
  "a \<le> b \<longleftrightarrow> level_value a \<le> level_value b"

definition less_LogLevel :: "LogLevel \<Rightarrow> LogLevel \<Rightarrow> bool" where
  "a < b \<longleftrightarrow> level_value a < level_value b"

instance
proof
  fix a b :: LogLevel
  show "a \<le> b \<Longrightarrow> b \<le> a \<Longrightarrow> a = b"
    by (cases a; cases b) (simp_all add: less_eq_LogLevel_def)
qed (auto simp: less_eq_LogLevel_def less_LogLevel_def)

end

fun level_toString :: "LogLevel \<Rightarrow> string" where
  "level_toString LV_DEBUG = ''DEBUG''"
| "level_toString LV_INFO = ''INFO''"
| "level_toString LV_WARN = ''WARN''"
| "level_toString LV_ERROR = ''ERROR''"
| "level_toString LV_FATAL = ''FATAL''"
| "level_toString LV_UNKNOW = ''UNKNOW''"

definition level_FromString :: "string \<Rightarrow> LogLevel" where
  "level_FromString s =
     (if s = ''debug'' then LV_DEBUG else if s = ''info'' then LV_INFO
      else if s = ''warn'' then LV_WARN else if s = ''error'' then LV_ERROR
      else if s = ''fatal'' then LV_FATAL
      else if s = ''DEBUG'' then LV_DEBUG else if s = ''INFO'' then LV_INFO
      else if s = ''WARN'' then LV_WARN else if s = ''ERROR'' then LV_ERROR
      else if s = ''FATAL'' then LV_FATAL
      else LV_UNKNOW)"

lemma level_roundtrip: "level_FromString (level_toString l) = l"
  by (cases l) (simp_all add: level_FromString_def)

section \<open>Log records\<close>

text \<open>
  The time is the number of seconds \<open>to_time_t\<close> gives; the name of the thread is not part of the
  record: it is read when the record is formatted, in the thread that formats it.
\<close>

record log_info =
  li_logger :: string
  li_file :: string
  li_line :: "32 word"
  li_elapse :: "32 word"
  li_thread :: "32 word"
  li_time :: int
  li_stream :: fbuf
  li_level :: LogLevel

definition new_log_info ::
  "string \<Rightarrow> LogLevel \<Rightarrow> string \<Rightarrow> 32 word \<Rightarrow> 32 word \<Rightarrow> 32 word \<Rightarrow> int \<Rightarrow> log_info" where
  "new_log_info logger level file line elapse thread time =
     \<lparr>li_logger = logger, li_file = source_file file, li_line = line, li_elapse = elapse,
      li_thread = thread, li_time = time, li_stream = new_fbuf kSmallBuffer, li_level = level\<rparr>"

text \<open>\<open>format(fmt, \<dots>)\<close>: \<open>None\<close> when \<open>vasprintf\<close> fails, otherwise the text it allocated.\<close>

definition info_format :: "string option \<Rightarrow> log_info \<Rightarrow> log_info res" where
  "info_format text info =
     (case text of
        None \<Rightarrow> Inr info
      | Some s \<Rightarrow> rbind (fb_append s (li_stream info)) (\<lambda>b. Inr (info\<lparr>li_stream := b\<rparr>)))"

section \<open>Format items\<close>

datatype format_item =
    MessageFormatItem
  | LevelFormatItem
  | ElapseFormatItem
  | NameFormatItem
  | ThreadIdFormatItem
  | ThreadNameFormatItem
  | DateTimeFormatItem string
  | FilenameFormatItem
  | LineFormatItem
  | NewLineFormatItem
  | StringFormatItem string
  | TabFormatItem

text \<open>What formatting reads besides the record: the name of the thread, the time zone, the C library.\<close>

record format_env =
  fe_thread_name :: string
  fe_tz_offset :: int
  fe_conv :: "char \<Rightarrow> tm \<Rightarrow> string"

definition default_date_format :: string where
  "default_date_format = ''%Y-%m-%d %H:%M:%S''"

definition new_date_item :: "string \<Rightarrow> format_item" where
  "new_date_item fmt = DateTimeFormatItem (if fmt = [] then default_date_format else fmt)"

definition c_string :: "string \<Rightarrow> string" where
  "c_string s = takeWhile (\<lambda>c. c \<noteq> NUL) s"

text \<open>A date longer than 63 bytes leaves the local array indeterminate, and it is streamed.\<close>

definition date_format :: "format_env \<Rightarrow> string \<Rightarrow> log_info \<Rightarrow> fbuf \<Rightarrow> fbuf res" where
  "date_format env fmt info os =
     (case strftime (fe_conv env) 64 (c_string fmt) (gmtime_r (li_time info + fe_tz_offset env)) of
        None \<Rightarrow> Inl Undefined
      | Some date \<Rightarrow> out_cstr (Some (c_string date)) os)"

fun item_format :: "format_env \<Rightarrow> format_item \<Rightarrow> log_info \<Rightarrow> fbuf \<Rightarrow> fbuf res" where
  "item_format env MessageFormatItem info os = out_buffer (li_stream info) os"
| "item_format env LevelFormatItem info os = out_cstr (Some (level_toString (li_level info))) os"
| "item_format env ElapseFormatItem info os = formatInteger (uint (li_elapse info)) os"
| "item_format env NameFormatItem info os = out_string (li_logger info) os"
| "item_format env ThreadIdFormatItem info os = formatInteger (uint (li_thread info)) os"
| "item_format env ThreadNameFormatItem info os = out_string (fe_thread_name env) os"
| "item_format env (DateTimeFormatItem fmt) info os = date_format env fmt info os"
| "item_format env FilenameFormatItem info os = fb_append (li_file info) os"
| "item_format env LineFormatItem info os = formatInteger (sint (li_line info)) os"
| "item_format env NewLineFormatItem info os = out_char LF os"
| "item_format env (StringFormatItem s) info os = out_string s os"
| "item_format env TabFormatItem info os = out_cstr (Some [TAB]) os"

section \<open>Compiling a pattern\<close>

text \<open>A piece of the pattern: ordinary text, or the name and the braced argument of a conversion.\<close>

datatype piece = Plain string | Conv string string

text \<open>
  The inner loop from the byte behind a percent sign. The name runs to the first byte that is no
  letter and no closing brace; an opening brace starts the argument, which runs to the closing brace.
  The result is the name, the argument, whether the final status is 0, and what follows.
\<close>

fun scan_arg :: "string \<Rightarrow> (string \<times> string) option" where
  "scan_arg [] = None"
| "scan_arg (c # r) =
     (if c = CHR ''}'' then Some ([], r)
      else map_option (\<lambda>(fmt, r'). (c # fmt, r')) (scan_arg r))"

fun scan_conv :: "string \<Rightarrow> string \<Rightarrow> (string \<times> string \<times> string) option" where
  "scan_conv name [] = Some (name, [], [])"
| "scan_conv name (c # r) =
     (if c = CHR ''{'' then map_option (\<lambda>(fmt, r'). (name, fmt, r')) (scan_arg r)
      else if \<not> isalpha c \<and> c \<noteq> CHR ''}'' then Some (name, [], c # r)
      else scan_conv (name @ [c]) r)"

lemma scan_arg_length: "scan_arg s = Some (fmt, r) \<Longrightarrow> length r < length s"
  by (induction s arbitrary: fmt r) (fastforce split: if_splits)+

lemma scan_conv_length: "scan_conv name s = Some (n, fmt, r) \<Longrightarrow> length r \<le> length s"
proof (induction name s rule: scan_conv.induct)
  case (2 name c s)
  then show ?case using scan_arg_length by (fastforce split: if_splits)
qed simp

definition flush_plain :: "string \<Rightarrow> piece list" where
  "flush_plain ns = (if ns = [] then [] else [Plain ns])"

definition pattern_error :: string where
  "pattern_error = ''<<pattern_error>>''"

text \<open>
  The outer loop of \<open>init\<close>: the pending ordinary text and the rest of the pattern give the pieces and
  the error flag. After \<open>%%\<close> only the first of the two signs is skipped; after an unclosed argument the
  scan goes on behind the percent sign, with the pending text still pending.
\<close>

function init_loop :: "string \<Rightarrow> string \<Rightarrow> piece list \<times> bool" where
  "init_loop ns [] = (flush_plain ns, False)"
| "init_loop ns (c # r) =
     (if c \<noteq> CHR ''%'' then init_loop (ns @ [c]) r
      else if r \<noteq> [] \<and> hd r = CHR ''%'' then init_loop (ns @ ''%'') r
      else case scan_conv [] r of
        Some (name, fmt, r') \<Rightarrow>
          (let (ps, e) = init_loop [] r' in (flush_plain ns @ Conv name fmt # ps, e))
      | None \<Rightarrow> (let (ps, e) = init_loop ns r in (Plain pattern_error # ps, True)))"
  by pat_completeness auto
termination
  by (relation "measure (\<lambda>(ns, s). length s)") (auto dest: scan_conv_length)

text \<open>The table of the conversions.\<close>

definition find_item :: "string \<Rightarrow> string \<Rightarrow> format_item option" where
  "find_item name fmt =
     (if name = ''m'' then Some MessageFormatItem
      else if name = ''p'' then Some LevelFormatItem
      else if name = ''r'' then Some ElapseFormatItem
      else if name = ''c'' then Some NameFormatItem
      else if name = ''t'' then Some ThreadIdFormatItem
      else if name = ''n'' then Some NewLineFormatItem
      else if name = ''d'' then Some (new_date_item fmt)
      else if name = ''f'' then Some FilenameFormatItem
      else if name = ''l'' then Some LineFormatItem
      else if name = ''T'' then Some TabFormatItem
      else if name = ''N'' then Some ThreadNameFormatItem
      else None)"

fun piece_item :: "piece \<Rightarrow> format_item \<times> bool" where
  "piece_item (Plain s) = (StringFormatItem s, False)"
| "piece_item (Conv name fmt) =
     (case find_item name fmt of
        None \<Rightarrow> (StringFormatItem (''<<error_format %'' @ name @ ''>>''), True)
      | Some it \<Rightarrow> (it, False))"

record formatter =
  f_pattern :: string
  f_items :: "format_item list"
  f_error :: bool

definition new_formatter :: "string \<Rightarrow> formatter" where
  "new_formatter pattern =
     (let (ps, e) = init_loop [] pattern; its = map piece_item ps
      in \<lparr>f_pattern = pattern, f_items = map fst its, f_error = (e \<or> (\<exists>it \<in> set its. snd it))\<rparr>)"

fun format_items :: "format_env \<Rightarrow> format_item list \<Rightarrow> log_info \<Rightarrow> fbuf \<Rightarrow> fbuf res" where
  "format_items env [] info os = Inr os"
| "format_items env (it # its) info os =
     rbind (item_format env it info os) (format_items env its info)"

definition formatter_format :: "format_env \<Rightarrow> formatter \<Rightarrow> log_info \<Rightarrow> fbuf \<Rightarrow> fbuf res" where
  "formatter_format env f info os = format_items env (f_items f) info os"

section \<open>Patterns and items\<close>

fun item_name :: "format_item \<Rightarrow> char" where
  "item_name MessageFormatItem = CHR ''m''"
| "item_name LevelFormatItem = CHR ''p''"
| "item_name ElapseFormatItem = CHR ''r''"
| "item_name NameFormatItem = CHR ''c''"
| "item_name ThreadIdFormatItem = CHR ''t''"
| "item_name ThreadNameFormatItem = CHR ''N''"
| "item_name (DateTimeFormatItem fmt) = CHR ''d''"
| "item_name FilenameFormatItem = CHR ''f''"
| "item_name LineFormatItem = CHR ''l''"
| "item_name NewLineFormatItem = CHR ''n''"
| "item_name TabFormatItem = CHR ''T''"
| "item_name (StringFormatItem s) = NUL"

text \<open>The pattern that stands for a list of items.\<close>

fun show_item :: "format_item \<Rightarrow> string" where
  "show_item (StringFormatItem s) = s"
| "show_item (DateTimeFormatItem fmt) = ''%d{'' @ fmt @ ''}''"
| "show_item it = [CHR ''%'', item_name it]"

definition show_items :: "format_item list \<Rightarrow> string" where
  "show_items its = concat (map show_item its)"

text \<open>
  The item lists a pattern can stand for: ordinary text is not empty, has no percent sign and is not
  followed by more ordinary text; a conversion without argument is not followed by a letter or a brace.
\<close>

fun starts_plain :: "format_item list \<Rightarrow> bool" where
  "starts_plain (StringFormatItem s # its) = True"
| "starts_plain its = False"

fun ends_name :: "format_item list \<Rightarrow> bool" where
  "ends_name (StringFormatItem (c # s) # its) \<longleftrightarrow> \<not> isalpha c \<and> c \<noteq> CHR ''{'' \<and> c \<noteq> CHR ''}''"
| "ends_name its \<longleftrightarrow> True"

fun items_ok :: "format_item list \<Rightarrow> bool" where
  "items_ok [] = True"
| "items_ok (StringFormatItem s # its) \<longleftrightarrow>
     s \<noteq> [] \<and> CHR ''%'' \<notin> set s \<and> \<not> starts_plain its \<and> items_ok its"
| "items_ok (DateTimeFormatItem fmt # its) \<longleftrightarrow> fmt \<noteq> [] \<and> CHR ''}'' \<notin> set fmt \<and> items_ok its"
| "items_ok (it # its) \<longleftrightarrow> ends_name its \<and> items_ok its"

lemma init_loop_plain:
  "CHR ''%'' \<notin> set s \<Longrightarrow> init_loop ns (s @ r) = init_loop (ns @ s) r"
  by (induction s arbitrary: ns) auto

lemma scan_arg_brace: "CHR ''}'' \<notin> set fmt \<Longrightarrow> scan_arg (fmt @ CHR ''}'' # r) = Some (fmt, r)"
  by (induction fmt) auto

lemma show_items_Cons [simp]: "show_items [] = []" "show_items (it # its) = show_item it @ show_items its"
  by (simp_all add: show_items_def)

lemma scan_conv_ends:
  assumes "items_ok its" and "ends_name its" and "isalpha c"
  shows "scan_conv [] (c # show_items its) = Some ([c], [], show_items its)"
proof -
  have c: "c \<noteq> CHR ''{''" "c \<noteq> CHR ''}''" using assms(3) by (auto simp: isalpha_def isupper_def islower_def)
  have "show_items its = [] \<or> (\<exists>d t. show_items its = d # t \<and> \<not> isalpha d \<and> d \<noteq> CHR ''{'' \<and> d \<noteq> CHR ''}'')"
  proof (cases its)
    case (Cons it its')
    show ?thesis
    proof (cases it)
      case (StringFormatItem s)
      then show ?thesis using Cons assms by (cases s) auto
    qed (use Cons in \<open>simp_all add: isalpha_def isupper_def islower_def\<close>)
  qed simp
  then show ?thesis using c assms(3) by auto
qed

definition compiled :: "string \<Rightarrow> format_item list \<Rightarrow> piece list \<times> bool \<Rightarrow> bool" where
  "compiled ns its r \<longleftrightarrow>
     map piece_item (fst r) = map (\<lambda>it. (it, False)) ((if ns = [] then [] else [StringFormatItem ns]) @ its)
     \<and> \<not> snd r"

lemma compiled_conv:
  assumes "compiled [] its (init_loop [] r')" and "scan_conv [] r = Some (name, fmt, r')"
    and "find_item name fmt = Some it" and "r \<noteq> []" "hd r \<noteq> CHR ''%''"
  shows "compiled ns (it # its) (init_loop ns (CHR ''%'' # r))"
  using assms by (auto simp: compiled_def flush_plain_def split: prod.split)

lemma compiled_letter:
  assumes "\<And>ns. ns \<noteq> [] \<longrightarrow> \<not> starts_plain its \<Longrightarrow> compiled ns its (init_loop ns (show_items its))"
    and "items_ok its" and "ends_name its" and "isalpha c" and "c \<noteq> CHR ''%''"
    and "find_item [c] [] = Some it"
  shows "compiled ns (it # its) (init_loop ns (CHR ''%'' # c # show_items its))"
  using assms by (intro compiled_conv [OF _ scan_conv_ends]) simp_all

lemma compile_items:
  "items_ok its \<Longrightarrow> (ns \<noteq> [] \<longrightarrow> \<not> starts_plain its) \<Longrightarrow> compiled ns its (init_loop ns (show_items its))"
proof (induction its arbitrary: ns rule: items_ok.induct)
  case 1
  then show ?case by (simp add: compiled_def flush_plain_def)
next
  case (2 s its)
  then have "compiled s its (init_loop s (show_items its))" by simp
  with 2 show ?case by (auto simp: init_loop_plain compiled_def)
next
  case (3 fmt its)
  then have "compiled [] its (init_loop [] (show_items its))" by simp
  then show ?case
    using 3 compiled_conv [of its "show_items its" "''d{'' @ fmt @ ''}'' @ show_items its" "''d''" fmt]
    by (simp add: scan_arg_brace find_item_def new_date_item_def isalpha_def isupper_def islower_def)
qed (simp_all del: init_loop.simps add: compiled_letter find_item_def isalpha_def isupper_def islower_def)

text \<open>C38: a pattern compiles to exactly the items it stands for, without error: ordinary text,
  conversions with one letter and dates with their own format, in any order.\<close>

theorem pattern_compiles:
  "items_ok its \<Longrightarrow>
   f_items (new_formatter (show_items its)) = its \<and> \<not> f_error (new_formatter (show_items its))"
proof -
  assume "items_ok its"
  then have c: "compiled [] its (init_loop [] (show_items its))" by (simp add: compile_items)
  obtain ps e where pe: "init_loop [] (show_items its) = (ps, e)" by fastforce
  from c pe have ps: "map piece_item ps = map (\<lambda>it. (it, False)) its" and "\<not> e"
    by (simp_all add: compiled_def)
  have "map fst (map piece_item ps) = its" unfolding ps by (simp add: comp_def)
  moreover have "\<forall>it \<in> set (map piece_item ps). \<not> snd it" unfolding ps by auto
  ultimately show ?thesis using \<open>\<not> e\<close> by (simp add: new_formatter_def pe Let_def del: map_map)
qed

definition default_items :: "format_item list" where
  "default_items = [DateTimeFormatItem default_date_format, TabFormatItem, ThreadIdFormatItem, TabFormatItem,
     ThreadNameFormatItem, TabFormatItem, TabFormatItem, StringFormatItem ''['', LevelFormatItem, StringFormatItem '']'',
     TabFormatItem, StringFormatItem ''['', NameFormatItem, StringFormatItem '']'', TabFormatItem,
     FilenameFormatItem, StringFormatItem '':'', LineFormatItem, TabFormatItem, MessageFormatItem, NewLineFormatItem]"

definition default_pattern :: string where
  "default_pattern = ''%d{%Y-%m-%d %H:%M:%S}%T%t%T%N%T%T[%p]%T[%c]%T%f:%l%T%m%n''"


text \<open>The default pattern of the loggers.\<close>

theorem pattern_compiles_witness:
  "f_items (new_formatter default_pattern) = default_items \<and> \<not> f_error (new_formatter default_pattern)"
proof -
  have "show_items default_items = default_pattern"
    by (simp add: default_items_def default_pattern_def default_date_format_def)
  moreover have "items_ok default_items"
 by code_simp
  ultimately show ?thesis using pattern_compiles [of default_items] by simp
qed

text \<open>
  \<open>%%\<close> does not give a percent sign: the second sign starts a conversion of its own, so a pattern that
  ends in \<open>%%\<close> is in error and ends in the complaint about an empty conversion.
\<close>

lemma percent_not_escaped:
  assumes "CHR ''%'' \<notin> set s"
  shows "f_error (new_formatter (s @ ''%%'')) \<and>
    f_items (new_formatter (s @ ''%%'')) =
      [StringFormatItem (s @ ''%''), StringFormatItem ''<<error_format %>>'']"
  using init_loop_plain [OF assms, of "[]" "''%%''"]
  by (simp add: new_formatter_def flush_plain_def find_item_def)

section \<open>Formatting a record\<close>

text \<open>The value an item streams; \<open>None\<close> for a date that does not fit into its array.\<close>

fun item_arg :: "format_env \<Rightarrow> log_info \<Rightarrow> format_item \<Rightarrow> log_arg option" where
  "item_arg env info MessageFormatItem = (case fb_text (li_stream info) of Inl _ \<Rightarrow> None | Inr s \<Rightarrow> Some (A_string s))"
| "item_arg env info LevelFormatItem = Some (A_cstr (Some (level_toString (li_level info))))"
| "item_arg env info ElapseFormatItem = Some (A_int (uint (li_elapse info)))"
| "item_arg env info NameFormatItem = Some (A_string (li_logger info))"
| "item_arg env info ThreadIdFormatItem = Some (A_int (uint (li_thread info)))"
| "item_arg env info ThreadNameFormatItem = Some (A_string (fe_thread_name env))"
| "item_arg env info (DateTimeFormatItem fmt) =
     map_option (\<lambda>date. A_cstr (Some (c_string date)))
       (strftime (fe_conv env) 64 (c_string fmt) (gmtime_r (li_time info + fe_tz_offset env)))"
| "item_arg env info FilenameFormatItem = Some (A_string (li_file info))"
| "item_arg env info LineFormatItem = Some (A_int (sint (li_line info)))"
| "item_arg env info NewLineFormatItem = Some (A_char LF)"
| "item_arg env info (StringFormatItem s) = Some (A_string s)"
| "item_arg env info TabFormatItem = Some (A_cstr (Some [TAB]))"

lemma item_format_arg:
  "item_arg env info it = Some a \<Longrightarrow> item_format env it info = stream_out a"
  by (cases it)
     (auto simp: fun_eq_iff out_buffer_def out_string_def date_format_def split: sum.splits)

lemma uint32_range: "- (2 ^ 63) \<le> uint (w :: 32 word)" "uint (w :: 32 word) < 2 ^ 64"
  using uint_lt2p [of w] order_trans [OF _ uint_ge_0, of "- (2 ^ 63)" w] by simp_all

lemma item_arg_ok: "item_arg env info it = Some a \<Longrightarrow> arg_ok a"
proof (cases it)
  case ElapseFormatItem
  then show "item_arg env info it = Some a \<Longrightarrow> ?thesis"
    using uint32_range [of "li_elapse info"] by auto
next
  case ThreadIdFormatItem
  then show "item_arg env info it = Some a \<Longrightarrow> ?thesis"
    using uint32_range [of "li_thread info"] by auto
next
  case LineFormatItem
  then show "item_arg env info it = Some a \<Longrightarrow> ?thesis"
    using sint_range_size [of "li_line info"] by (auto simp: word_size)
qed (auto split: sum.splits)

lemma format_items_args:
  "list_all2 (\<lambda>it a. item_arg env info it = Some a) its as \<Longrightarrow> format_items env its info = stream_all as"
  by (induction rule: list_all2_induct) (rule ext, simp add: item_format_arg)+

definition item_args :: "format_env \<Rightarrow> log_info \<Rightarrow> format_item list \<Rightarrow> log_arg list" where
  "item_args env info its = map (\<lambda>it. the (item_arg env info it)) its"

definition printable :: "format_env \<Rightarrow> log_info \<Rightarrow> format_item list \<Rightarrow> bool" where
  "printable env info its \<longleftrightarrow> (\<forall>it \<in> set its. item_arg env info it \<noteq> None)"

text \<open>The text of a log line: what is kept of the values of the items.\<close>

definition line_text :: "format_env \<Rightarrow> formatter \<Rightarrow> log_info \<Rightarrow> string" where
  "line_text env f info = kept kSmallBuffer [] (item_args env info (f_items f))"

lemma item_args_ok: "printable env info its \<Longrightarrow> list_all arg_ok (item_args env info its)"
  by (fastforce simp: printable_def item_args_def list_all_iff intro: item_arg_ok)

lemma format_holds:
  assumes "printable env info (f_items f)"
  obtains b where "formatter_format env f info (new_fbuf kSmallBuffer) = Inr b"
    and "fb_size b = kSmallBuffer" and "holds b (line_text env f info)"
proof -
  have "list_all2 (\<lambda>it a. item_arg env info it = Some a) (f_items f) (item_args env info (f_items f))"
    using assms by (auto simp: printable_def item_args_def list_all2_map2 list_all2_same)
  then have "formatter_format env f info (new_fbuf kSmallBuffer) =
      stream_all (item_args env info (f_items f)) (new_fbuf kSmallBuffer)"
    by (simp add: formatter_format_def format_items_args)
  moreover obtain b where "stream_all (item_args env info (f_items f)) (new_fbuf kSmallBuffer) = Inr b"
      "fb_size b = fb_size (new_fbuf kSmallBuffer)"
      "holds b (kept (fb_size (new_fbuf kSmallBuffer)) [] (item_args env info (f_items f)))"
    by (rule stream_all_holds [OF holds_new item_args_ok [OF assms]])
  ultimately show ?thesis by (intro that) (simp_all add: line_text_def)
qed

lemma line_text_length: "printable env info (f_items f) \<Longrightarrow> length (line_text env f info) \<le> kSmallBuffer"
  by (simp add: line_text_def item_args_ok kept_length)

end
