(* ===== verification/LogFile.thy ===== *)
theory LogFile
  imports LogFormat
begin

text \<open>
  \<open>haha_web/log/LogFile.{h,cpp}\<close>: a file that lines are appended to, and the log file that starts a new
  one when the current file is large or a day is over.
\<close>

section \<open>AppendFile\<close>

text \<open>
  A call of \<open>fwrite_unlocked\<close> takes some bytes and leaves the error flag of the stream set or not;
  the disk answers the calls in order, and takes everything once its answers are used up. What
  \<open>fwrite\<close> took belongs to the file: \<open>stdio\<close> passes it on in order when its buffer is full, at
  \<open>fflush\<close> and at \<open>fclose\<close>.
\<close>

record fwrite_answer =
  fw_taken :: nat
  fw_error :: bool

record append_file =
  af_name :: string
  af_data :: string
  af_writtenBytes :: nat

definition new_append_file :: "string \<Rightarrow> append_file" where
  "new_append_file name = \<lparr>af_name = name, af_data = [], af_writtenBytes = 0\<rparr>"

text \<open>The loop of \<open>append\<close>: the bytes still to write, and the count of those written. Bytes taken by
  a call that sets the error flag are not counted.\<close>

fun af_loop :: "fwrite_answer list \<Rightarrow> string \<Rightarrow> nat \<Rightarrow> append_file \<Rightarrow> nat \<times> append_file \<times> fwrite_answer list" where
  "af_loop [] rest written f = (written + length rest, f\<lparr>af_data := af_data f @ rest\<rparr>, [])"
| "af_loop (a # disk) rest written f =
     (if rest = [] then (written, f, a # disk)
      else let n = min (fw_taken a) (length rest);
               f' = f\<lparr>af_data := af_data f @ take n rest\<rparr>
           in if n \<noteq> length rest \<and> fw_error a then (written, f', disk)
              else af_loop disk (drop n rest) (written + n) f')"

definition af_append :: "fwrite_answer list \<Rightarrow> string \<Rightarrow> append_file \<Rightarrow> append_file \<times> fwrite_answer list" where
  "af_append disk logline f =
     (let (written, f', disk') = af_loop disk logline 0 f
      in (f'\<lparr>af_writtenBytes := af_writtenBytes f' + written\<rparr>, disk'))"

section \<open>LogFile\<close>

text \<open>
  \<open>lf_old\<close> are the files that were closed, oldest first. Each call of \<open>time(NULL)\<close> takes the next
  reading of the clock; \<open>lf_host\<close> is the name of the host, \<open>lf_pid\<close> the number of the process and
  \<open>lf_opens\<close> tells for which names \<open>fopen\<close> succeeds (the constructor of \<open>AppendFile\<close> asserts that it
  did). The date in a name has 17 bytes for years of four digits; the array it is written to has 32.
\<close>

record log_file =
  lf_basename :: string
  lf_rollSize :: nat
  lf_flushInterval :: int
  lf_checkEveryN :: int
  lf_count :: int
  lf_startOfPeriod :: int
  lf_lastRoll :: int
  lf_lastFlush :: int
  lf_file :: "append_file option"
  lf_old :: "append_file list"
  lf_clock :: "nat \<Rightarrow> int"
  lf_reads :: nat
  lf_host :: string
  lf_pid :: int
  lf_disk :: "fwrite_answer list"
  lf_opens :: "string \<Rightarrow> bool"

definition kRollPerSeconds :: int where "kRollPerSeconds = 60 * 60 * 24"

definition read_clock :: "log_file \<Rightarrow> int \<times> log_file" where
  "read_clock f = (lf_clock f (lf_reads f), f\<lparr>lf_reads := Suc (lf_reads f)\<rparr>)"

definition getLogFileName :: "log_file \<Rightarrow> int \<Rightarrow> string" where
  "getLogFileName f now =
     lf_basename f
     @ (case strftime no_conv 32 ''.%Y%m%d-%H%M%S.'' (gmtime_r now) of None \<Rightarrow> [] | Some s \<Rightarrow> s)
     @ lf_host f @ ''.'' @ int_to_string (lf_pid f) @ ''.log''"

definition period_of :: "int \<Rightarrow> int" where
  "period_of now = now sdiv kRollPerSeconds * kRollPerSeconds"

definition rollFile :: "log_file \<Rightarrow> (bool \<times> log_file) res" where
  "rollFile f =
     (let (now, f) = read_clock f; filename = getLogFileName f now; start = period_of now
      in if now > lf_lastRoll f
         then rbind (check_assert (lf_opens f filename)) (\<lambda>_.
           Inr (True, f\<lparr>lf_lastRoll := now, lf_lastFlush := now, lf_startOfPeriod := start,
                        lf_old := lf_old f @ (case lf_file f of None \<Rightarrow> [] | Some a \<Rightarrow> [a]),
                        lf_file := Some (new_append_file filename)\<rparr>))
         else Inr (False, f))"

definition new_log_file ::
  "(nat \<Rightarrow> int) \<Rightarrow> string \<Rightarrow> int \<Rightarrow> (string \<Rightarrow> bool) \<Rightarrow> fwrite_answer list \<Rightarrow> string \<Rightarrow> nat \<Rightarrow> int \<Rightarrow> int
    \<Rightarrow> log_file res" where
  "new_log_file clock host pid opens disk basename rollSize flushInterval checkEveryN =
     rbind (check_assert (CHR ''/'' \<notin> set basename)) (\<lambda>_.
       map_sum id snd (rollFile
         \<lparr>lf_basename = basename, lf_rollSize = rollSize, lf_flushInterval = flushInterval,
          lf_checkEveryN = checkEveryN, lf_count = 0, lf_startOfPeriod = 0, lf_lastRoll = 0,
          lf_lastFlush = 0, lf_file = None, lf_old = [], lf_clock = clock, lf_reads = 0,
          lf_host = host, lf_pid = pid, lf_disk = disk, lf_opens = opens\<rparr>))"

text \<open>\<open>fflush\<close> passes the bytes on and leaves the content of the file as it is; the pointer to the
  file must not be null.\<close>

definition lf_flush :: "log_file \<Rightarrow> log_file res" where
  "lf_flush f = (case lf_file f of None \<Rightarrow> Inl Undefined | Some a \<Rightarrow> Inr f)"

definition append_unlocked :: "string \<Rightarrow> log_file \<Rightarrow> log_file res" where
  "append_unlocked logline f =
     (case lf_file f of
        None \<Rightarrow> Inl Undefined
      | Some a \<Rightarrow>
          let (a', disk') = af_append (lf_disk f) logline a;
              f = f\<lparr>lf_file := Some a', lf_disk := disk'\<rparr>
          in if af_writtenBytes a' > lf_rollSize f then map_sum id snd (rollFile f)
             else let f = f\<lparr>lf_count := lf_count f + 1\<rparr>
             in if lf_count f \<ge> lf_checkEveryN f
                then let (now, f) = read_clock (f\<lparr>lf_count := 0\<rparr>)
                     in if period_of now \<noteq> lf_startOfPeriod f then map_sum id snd (rollFile f)
                        else if now - lf_lastFlush f > lf_flushInterval f
                        then lf_flush (f\<lparr>lf_lastFlush := now\<rparr>)
                        else Inr f
                else Inr f)"

definition lf_append :: "string \<Rightarrow> log_file \<Rightarrow> log_file res" where
  "lf_append logline f = append_unlocked logline f"

fun lf_append_all :: "string list \<Rightarrow> log_file \<Rightarrow> log_file res" where
  "lf_append_all [] f = Inr f"
| "lf_append_all (s # ss) f = rbind (lf_append s f) (lf_append_all ss)"

section \<open>What the files contain\<close>

definition lf_files :: "log_file \<Rightarrow> append_file list" where
  "lf_files f = lf_old f @ (case lf_file f of None \<Rightarrow> [] | Some a \<Rightarrow> [a])"

definition lf_data :: "log_file \<Rightarrow> string" where
  "lf_data f = concat (map af_data (lf_files f))"

text \<open>A disk without write errors (calls may still take only part of the bytes) on which every file
  can be opened.\<close>

definition disk_ok :: "log_file \<Rightarrow> bool" where
  "disk_ok f \<longleftrightarrow> (\<forall>a \<in> set (lf_disk f). \<not> fw_error a) \<and> (\<forall>name. lf_opens f name)"

definition file_ok :: "append_file \<Rightarrow> bool" where
  "file_ok a \<longleftrightarrow> af_writtenBytes a = length (af_data a)"

definition lf_inv :: "log_file \<Rightarrow> bool" where
  "lf_inv f \<longleftrightarrow> disk_ok f \<and> lf_file f \<noteq> None \<and> (\<forall>a \<in> set (lf_files f). file_ok a)"

lemma af_loop_all:
  assumes "\<forall>a \<in> set disk. \<not> fw_error a"
  obtains disk' where "af_loop disk rest w f = (w + length rest, f\<lparr>af_data := af_data f @ rest\<rparr>, disk')"
    and "\<forall>a \<in> set disk'. \<not> fw_error a"
  using assms
proof (induction disk rest w f arbitrary: thesis rule: af_loop.induct)
  case (2 a disk rest w f)
  show ?case
  proof (cases "rest = []")
    case True
    then show ?thesis using 2 by (cases f) simp
  next
    case False
    let ?n = "min (fw_taken a) (length rest)"
    let ?f = "f\<lparr>af_data := af_data f @ take ?n rest\<rparr>"
    obtain disk' where "af_loop disk (drop ?n rest) (w + ?n) ?f =
        (w + ?n + length (drop ?n rest), ?f\<lparr>af_data := af_data ?f @ drop ?n rest\<rparr>, disk')"
      and "\<forall>a \<in> set disk'. \<not> fw_error a"
      by (rule 2(1) [OF False refl refl]) (use 2(3) in auto)
    with False 2(3) show ?thesis by (intro 2(2)) simp_all
  qed
qed simp

lemma af_append_all:
  assumes "\<forall>a \<in> set disk. \<not> fw_error a" and "file_ok f"
  obtains disk' where
    "af_append disk s f = (f\<lparr>af_data := af_data f @ s, af_writtenBytes := length (af_data f @ s)\<rparr>, disk')"
    and "\<forall>a \<in> set disk'. \<not> fw_error a"
proof -
  obtain disk' where "af_loop disk s 0 f = (0 + length s, f\<lparr>af_data := af_data f @ s\<rparr>, disk')"
      "\<forall>a \<in> set disk'. \<not> fw_error a"
    by (rule af_loop_all [OF assms(1)])
  with assms(2) show ?thesis by (intro that) (simp_all add: af_append_def file_ok_def)
qed

text \<open>Rolling keeps what was written and can only add an empty file at the end.\<close>

definition rolled :: "log_file \<Rightarrow> log_file \<Rightarrow> bool" where
  "rolled f f' \<longleftrightarrow>
     (map af_data (lf_files f') = map af_data (lf_files f) \<or>
      map af_data (lf_files f') = map af_data (lf_files f) @ [[]])"

text \<open>A clock that advances between any two readings.\<close>

definition clock_advances :: "log_file \<Rightarrow> bool" where
  "clock_advances f \<longleftrightarrow> strict_mono (lf_clock f) \<and> lf_lastRoll f < lf_clock f (lf_reads f)"

lemma clock_advances_read:
  "clock_advances f \<Longrightarrow> lf_clock f' = lf_clock f \<Longrightarrow> lf_reads f' = Suc (lf_reads f) \<Longrightarrow>
   lf_lastRoll f' \<le> lf_clock f (lf_reads f) \<Longrightarrow> clock_advances f'"
  using strict_monoD [of "lf_clock f" "lf_reads f" "Suc (lf_reads f)"]
  by (auto simp: clock_advances_def intro: le_less_trans)

lemma rollFile_ok:
  assumes "lf_inv f"
  obtains b f' where "rollFile f = Inr (b, f')" and "lf_inv f'" and "rolled f f'"
    and "lf_rollSize f' = lf_rollSize f"
    and "clock_advances f \<Longrightarrow>
      clock_advances f' \<and> map af_data (lf_files f') = map af_data (lf_files f) @ [[]]"
proof -
  obtain a where a: "lf_file f = Some a" using assms by (auto simp: lf_inv_def)
  let ?now = "lf_clock f (lf_reads f)"
  let ?f = "f\<lparr>lf_reads := Suc (lf_reads f)\<rparr>"
  let ?g = "?f\<lparr>lf_lastRoll := ?now, lf_lastFlush := ?now, lf_startOfPeriod := period_of ?now,
    lf_old := lf_old f @ [a], lf_file := Some (new_append_file (getLogFileName ?f ?now))\<rparr>"
  show ?thesis
  proof (cases "?now > lf_lastRoll f")
    case True
    then have "rollFile f = Inr (True, ?g)"
      using assms a by (simp add: rollFile_def read_clock_def Let_def lf_inv_def disk_ok_def)
    then show ?thesis
    proof (rule that)
      show "lf_inv ?g"
        using assms a by (auto simp: lf_inv_def disk_ok_def lf_files_def file_ok_def new_append_file_def)
      show "rolled f ?g"
        using a by (simp add: rolled_def lf_files_def new_append_file_def)
      show "clock_advances f \<Longrightarrow>
          clock_advances ?g \<and> map af_data (lf_files ?g) = map af_data (lf_files f) @ [[]]"
        using a clock_advances_read [of f ?g] by (simp add: lf_files_def new_append_file_def)
    qed simp
  next
    case False
    then have "rollFile f = Inr (False, ?f)"
      using a by (simp add: rollFile_def read_clock_def Let_def)
    then show ?thesis
    proof (rule that)
      show "lf_inv ?f" using assms by (simp add: lf_inv_def disk_ok_def lf_files_def)
      show "rolled f ?f" by (simp add: rolled_def lf_files_def)
    qed (use False in \<open>simp_all add: clock_advances_def\<close>)
  qed
qed

text \<open>What follows the writing of a line.\<close>

definition after_write :: "append_file \<Rightarrow> log_file \<Rightarrow> log_file res" where
  "after_write a f =
     (let now = lf_clock f (lf_reads f); g = f\<lparr>lf_count := 0, lf_reads := Suc (lf_reads f)\<rparr>
      in if af_writtenBytes a > lf_rollSize f then map_sum id snd (rollFile f)
         else if lf_count f + 1 \<ge> lf_checkEveryN f
         then if period_of now \<noteq> lf_startOfPeriod f then map_sum id snd (rollFile g)
              else if now - lf_lastFlush f > lf_flushInterval f then Inr (g\<lparr>lf_lastFlush := now\<rparr>)
              else Inr g
         else Inr (f\<lparr>lf_count := lf_count f + 1\<rparr>))"

lemma lf_append_after_write:
  assumes "lf_file f = Some a" and "af_append (lf_disk f) s a = (a', disk')"
  shows "lf_append s f = after_write a' (f\<lparr>lf_file := Some a', lf_disk := disk'\<rparr>)"
  using assms
  by (simp add: lf_append_def append_unlocked_def after_write_def Let_def read_clock_def lf_flush_def)

lemma kept_simple:
  "lf_inv f \<Longrightarrow> lf_inv (f\<lparr>lf_count := c, lf_reads := n\<rparr>) \<and> lf_inv (f\<lparr>lf_count := c\<rparr>) \<and>
     lf_inv (f\<lparr>lf_count := c, lf_reads := n, lf_lastFlush := u\<rparr>)"
  "lf_files (f\<lparr>lf_count := c, lf_reads := n\<rparr>) = lf_files f" "lf_files (f\<lparr>lf_count := c\<rparr>) = lf_files f"
  "lf_files (f\<lparr>lf_count := c, lf_reads := n, lf_lastFlush := u\<rparr>) = lf_files f"
  by (simp_all add: lf_inv_def disk_ok_def lf_files_def)

lemma roll_after_write:
  assumes "lf_inv f"
  shows "\<exists>f'. map_sum id snd (rollFile f) = Inr f' \<and> lf_inv f' \<and> lf_rollSize f' = lf_rollSize f \<and> rolled f f' \<and>
    (clock_advances f \<longrightarrow> clock_advances f' \<and> map af_data (lf_files f') = map af_data (lf_files f) @ [[]])"
  by (rule rollFile_ok [OF assms]) auto

lemma after_write_ok:
  assumes "lf_inv f"
  shows "\<exists>f'. after_write a f = Inr f' \<and> lf_inv f' \<and> lf_rollSize f' = lf_rollSize f \<and> rolled f f' \<and>
    (clock_advances f \<longrightarrow> clock_advances f' \<and>
       (af_writtenBytes a > lf_rollSize f \<longrightarrow> map af_data (lf_files f') = map af_data (lf_files f) @ [[]]))"
proof (cases "af_writtenBytes a > lf_rollSize f")
  case True
  with roll_after_write [OF assms] show ?thesis by (simp add: after_write_def)
next
  case False
  let ?g = "f\<lparr>lf_count := 0, lf_reads := Suc (lf_reads f)\<rparr>"
  have adv: "clock_advances f \<Longrightarrow> clock_advances ?g"
    by (rule clock_advances_read) (auto simp: clock_advances_def)
  have "\<exists>f'. map_sum id snd (rollFile ?g) = Inr f' \<and> lf_inv f' \<and> lf_rollSize f' = lf_rollSize f \<and> rolled f f' \<and>
      (clock_advances f \<longrightarrow> clock_advances f')"
    using roll_after_write [of ?g] kept_simple(1) [OF assms] adv by (auto simp: rolled_def kept_simple)
  moreover have "clock_advances f \<Longrightarrow> clock_advances (f\<lparr>lf_count := lf_count f + 1\<rparr>)"
      "clock_advances ?g \<Longrightarrow> clock_advances (?g\<lparr>lf_lastFlush := u\<rparr>)" for u
    by (simp_all add: clock_advances_def)
  ultimately show ?thesis
    using False kept_simple(1) [OF assms] adv
    by (auto simp: after_write_def Let_def rolled_def kept_simple)
qed

text \<open>One line: it goes to the end of the last file, and a new file may follow.\<close>

lemma lf_append_step:
  assumes "lf_inv f" and "map af_data (lf_files f) = ds @ [d]"
  obtains f' where "lf_append s f = Inr f'" and "lf_inv f'" and "lf_rollSize f' = lf_rollSize f"
    and "map af_data (lf_files f') = ds @ [d @ s] \<or> map af_data (lf_files f') = ds @ [d @ s, []]"
    and "clock_advances f \<Longrightarrow> clock_advances f' \<and>
      (length (d @ s) > lf_rollSize f \<longrightarrow> map af_data (lf_files f') = ds @ [d @ s, []])"
proof -
  obtain a where a: "lf_file f = Some a" using assms by (auto simp: lf_inv_def)
  with assms(2) have d: "af_data a = d" and ds: "map af_data (lf_old f) = ds"
    by (simp_all add: lf_files_def)
  have "\<forall>x \<in> set (lf_disk f). \<not> fw_error x" "file_ok a"
    using assms(1) a by (simp_all add: lf_inv_def disk_ok_def lf_files_def)
  then obtain disk' where app: "af_append (lf_disk f) s a =
      (a\<lparr>af_data := af_data a @ s, af_writtenBytes := length (af_data a @ s)\<rparr>, disk')"
    and disk': "\<forall>x \<in> set disk'. \<not> fw_error x"
    by (rule af_append_all)
  let ?a = "a\<lparr>af_data := af_data a @ s, af_writtenBytes := length (af_data a @ s)\<rparr>"
  let ?f = "f\<lparr>lf_file := Some ?a, lf_disk := disk'\<rparr>"
  have inv: "lf_inv ?f"
    using assms(1) a disk' by (simp add: lf_inv_def disk_ok_def lf_files_def file_ok_def)
  have files: "map af_data (lf_files ?f) = ds @ [d @ s]" using d ds by (simp add: lf_files_def)
  obtain f' where f': "lf_append s f = Inr f'" "lf_inv f'" "lf_rollSize f' = lf_rollSize ?f" "rolled ?f f'"
      "clock_advances ?f \<Longrightarrow> clock_advances f' \<and>
        (length (d @ s) > lf_rollSize f \<longrightarrow> map af_data (lf_files f') = map af_data (lf_files ?f) @ [[]])"
    using after_write_ok [OF inv, of ?a] lf_append_after_write [OF a app] d by auto
  show ?thesis
    by (rule that [OF f'(1,2)]) (use f'(3-5) files in \<open>auto simp: rolled_def clock_advances_def\<close>)
qed

lemma new_log_file_ok:
  assumes "CHR ''/'' \<notin> set basename" and "0 < clock 0" and "\<forall>name. opens name"
    and "\<forall>a \<in> set disk. \<not> fw_error a"
  obtains f where "new_log_file clock host pid opens disk basename roll flush every = Inr f"
    and "lf_inv f" and "map af_data (lf_files f) = [[]]" and "lf_rollSize f = roll"
    and "strict_mono clock \<Longrightarrow> clock_advances f"
proof -
  let ?f = "snd (projr (rollFile
         \<lparr>lf_basename = basename, lf_rollSize = roll, lf_flushInterval = flush,
          lf_checkEveryN = every, lf_count = 0, lf_startOfPeriod = 0, lf_lastRoll = 0,
          lf_lastFlush = 0, lf_file = None, lf_old = [], lf_clock = clock, lf_reads = 0,
          lf_host = host, lf_pid = pid, lf_disk = disk, lf_opens = opens\<rparr>))"
  show ?thesis
    by (rule that [of ?f])
       (use assms in \<open>simp_all add: new_log_file_def rollFile_def read_clock_def Let_def lf_inv_def disk_ok_def
          lf_files_def file_ok_def new_append_file_def clock_advances_def strict_mono_def\<close>)
qed

text \<open>Any number of lines: every line is in one file as a whole, in order, and with a clock that
  advances no file is larger than the limit by more than its last line.\<close>

definition split_into :: "string list \<Rightarrow> string list \<Rightarrow> bool" where
  "split_into lines datas \<longleftrightarrow> (\<exists>gs. concat gs = lines \<and> datas = map concat gs)"

lemma split_into_snoc:
  assumes "split_into lines (ds @ [d])"
  shows "split_into (lines @ [s]) (ds @ [d @ s])" and "split_into (lines @ [s]) (ds @ [d @ s, []])"
proof -
  obtain gs where gs: "concat gs = lines" "ds @ [d] = map concat gs"
    using assms by (auto simp: split_into_def)
  then obtain hs g where g: "gs = hs @ [g]" "map concat hs = ds" "concat g = d"
    by (cases gs rule: rev_cases) auto
  show "split_into (lines @ [s]) (ds @ [d @ s])"
    unfolding split_into_def by (intro exI [of _ "hs @ [g @ [s]]"]) (use gs g in auto)
  show "split_into (lines @ [s]) (ds @ [d @ s, []])"
    unfolding split_into_def by (intro exI [of _ "hs @ [g @ [s], []]"]) (use gs g in auto)
qed

definition sizes_ok :: "nat \<Rightarrow> nat \<Rightarrow> string list \<Rightarrow> bool" where
  "sizes_ok roll m datas \<longleftrightarrow> (\<forall>d \<in> set datas. length d \<le> roll + m) \<and> length (last datas) \<le> roll"

lemma sizes_ok_snoc:
  assumes "sizes_ok roll m (ds @ [d])" and "length s \<le> m"
    and "x = ds @ [d @ s] \<or> x = ds @ [d @ s, []]" and "length (d @ s) > roll \<longrightarrow> x = ds @ [d @ s, []]"
  shows "sizes_ok roll m x"
  using assms by (auto simp: sizes_ok_def not_less)

lemma lf_append_all_ok:
  assumes "lf_inv f" and "split_into lines (map af_data (lf_files f))"
  obtains f' where "lf_append_all ss f = Inr f'" and "lf_inv f'"
    and "split_into (lines @ ss) (map af_data (lf_files f'))"
    and "clock_advances f \<Longrightarrow> \<forall>s \<in> set ss. length s \<le> m \<Longrightarrow>
      sizes_ok (lf_rollSize f) m (map af_data (lf_files f)) \<Longrightarrow>
      sizes_ok (lf_rollSize f) m (map af_data (lf_files f'))"
  using assms
proof (induction ss arbitrary: f lines thesis)
  case (Cons s ss)
  have "lf_files f \<noteq> []" using Cons.prems(2) by (auto simp: lf_inv_def lf_files_def)
  then obtain ds d where ds: "map af_data (lf_files f) = ds @ [d]"
    by (cases "map af_data (lf_files f)" rule: rev_cases) auto
  from lf_append_step [OF Cons.prems(2) ds] obtain g where g: "lf_append s f = Inr g" "lf_inv g"
      "lf_rollSize g = lf_rollSize f"
      "map af_data (lf_files g) = ds @ [d @ s] \<or> map af_data (lf_files g) = ds @ [d @ s, []]"
      "clock_advances f \<Longrightarrow> clock_advances g \<and>
        (length (d @ s) > lf_rollSize f \<longrightarrow> map af_data (lf_files g) = ds @ [d @ s, []])"
    by blast
  have "split_into (lines @ [s]) (map af_data (lf_files g))"
    using g(4) split_into_snoc [of lines ds d s] Cons.prems(3) ds by auto
  from Cons.IH [OF _ g(2) this] obtain f' where f': "lf_append_all ss g = Inr f'" "lf_inv f'"
      "split_into ((lines @ [s]) @ ss) (map af_data (lf_files f'))"
      "clock_advances g \<Longrightarrow> \<forall>s \<in> set ss. length s \<le> m \<Longrightarrow>
        sizes_ok (lf_rollSize g) m (map af_data (lf_files g)) \<Longrightarrow>
        sizes_ok (lf_rollSize g) m (map af_data (lf_files f'))"
    by blast
  have sizes: "sizes_ok (lf_rollSize f) m (map af_data (lf_files g))"
    if "clock_advances f" "length s \<le> m" "sizes_ok (lf_rollSize f) m (map af_data (lf_files f))"
    using sizes_ok_snoc [of "lf_rollSize f" m ds d s] that g(4,5) unfolding ds by blast
  show ?case
    by (rule Cons.prems(1) [of f']) (use f' g sizes in auto)
qed simp

text \<open>C33: whatever part of the bytes each write takes, as long as no write fails, every line
  appended to a log file ends up in one file, whole, and the lines keep their order over the files; with a
  clock that advances between readings, a file exceeds the rolling size by less than its last line.\<close>

theorem log_lines_kept:
  assumes "CHR ''/'' \<notin> set basename" and "0 < clock 0" and "\<forall>name. opens name"
    and "\<forall>a \<in> set disk. \<not> fw_error a" and "\<forall>s \<in> set lines. length s \<le> m"
  shows "\<exists>f. rbind (new_log_file clock host pid opens disk basename roll flush every) (lf_append_all lines) = Inr f \<and>
    split_into lines (map af_data (lf_files f)) \<and>
    (strict_mono clock \<longrightarrow> sizes_ok roll m (map af_data (lf_files f)))"
proof -
  obtain f where f: "new_log_file clock host pid opens disk basename roll flush every = Inr f"
      "lf_inv f" "map af_data (lf_files f) = [[]]" "lf_rollSize f = roll"
      "strict_mono clock \<Longrightarrow> clock_advances f"
    using new_log_file_ok [where basename = basename and clock = clock and opens = opens and disk = disk
        and host = host and pid = pid and roll = roll and flush = flush and every = every] assms(1-4)
    by metis
  have "split_into [] (map af_data (lf_files f))"
    unfolding split_into_def f(3) by (intro exI [of _ "[[]]"]) simp
  from lf_append_all_ok [OF f(2) this, of lines m] obtain g where "lf_append_all lines f = Inr g"
      "split_into ([] @ lines) (map af_data (lf_files g))"
      "clock_advances f \<Longrightarrow> \<forall>s \<in> set lines. length s \<le> m \<Longrightarrow>
        sizes_ok (lf_rollSize f) m (map af_data (lf_files f)) \<Longrightarrow>
        sizes_ok (lf_rollSize f) m (map af_data (lf_files g))"
    by blast
  with f assms(5) show ?thesis by (auto simp: sizes_ok_def)
qed

theorem log_lines_kept_witness:
  "\<exists>f. rbind (new_log_file (\<lambda>n. 1700000000 + int n) ''host'' 42 (\<lambda>_. True)
        [\<lparr>fw_taken = 1, fw_error = False\<rparr>] ''app_sync'' 8 3 1024) (lf_append_all [''hello'', ''world'', ''again'']) = Inr f \<and>
     split_into [''hello'', ''world'', ''again''] (map af_data (lf_files f)) \<and>
     sizes_ok 8 5 (map af_data (lf_files f))"
proof -
  have "strict_mono (\<lambda>n. 1700000000 + int n)" by (simp add: strict_mono_def)
  then show ?thesis
    using log_lines_kept [of "''app_sync''" "\<lambda>n. 1700000000 + int n" "\<lambda>_. True"
        "[\<lparr>fw_taken = 1, fw_error = False\<rparr>]" "[''hello'', ''world'', ''again'']" 5 "''host''" 42 8 3 1024]
    by simp
qed

lemma lf_append_data:
  assumes "lf_inv f"
  obtains f' where "lf_append s f = Inr f'" and "lf_inv f'" and "lf_data f' = lf_data f @ s"
proof -
  have "lf_files f \<noteq> []" using assms by (auto simp: lf_inv_def lf_files_def)
  then obtain ds d where ds: "map af_data (lf_files f) = ds @ [d]"
    by (cases "map af_data (lf_files f)" rule: rev_cases) auto
  from lf_append_step [OF assms ds, of s] obtain f' where "lf_append s f = Inr f'" "lf_inv f'"
      "map af_data (lf_files f') = ds @ [d @ s] \<or> map af_data (lf_files f') = ds @ [d @ s, []]"
    by metis
  with ds show ?thesis by (intro that [of f']) (auto simp: lf_data_def)
qed

lemma lf_flush_ok [simp]: "lf_inv f \<Longrightarrow> lf_flush f = Inr f"
  by (auto simp: lf_inv_def lf_flush_def)

end
