(* ===== verification/LogAppender.thy ===== *)
theory LogAppender
  imports LogFile
begin

text \<open>
  \<open>haha_web/log/LogAppender.{h,cpp}\<close>: the appenders that write each record at once, to the standard
  output or to a log file, and the appender that collects records in large buffers which another
  thread writes.
\<close>

section \<open>What every appender has\<close>

record appender_base =
  ap_level :: LogLevel
  ap_formatter :: "formatter option"

definition new_appender_base :: appender_base where
  "new_appender_base = \<lparr>ap_level = LV_DEBUG, ap_formatter = None\<rparr>"

definition ap_setLevel :: "LogLevel \<Rightarrow> appender_base \<Rightarrow> appender_base" where
  "ap_setLevel l a = a\<lparr>ap_level := l\<rparr>"

definition ap_setFormatter :: "formatter option \<Rightarrow> appender_base \<Rightarrow> appender_base" where
  "ap_setFormatter f a = a\<lparr>ap_formatter := f\<rparr>"

definition ap_hasFormatter :: "appender_base \<Rightarrow> bool" where
  "ap_hasFormatter a \<longleftrightarrow> ap_formatter a \<noteq> None"

text \<open>A fresh stream with the formatted record; calling through a null formatter is undefined.\<close>

definition format_record :: "format_env \<Rightarrow> appender_base \<Rightarrow> log_info \<Rightarrow> fbuf res" where
  "format_record env a info =
     (case ap_formatter a of
        None \<Rightarrow> Inl Undefined
      | Some f \<Rightarrow> formatter_format env f info (new_fbuf kSmallBuffer))"

section \<open>Synchronous appenders\<close>

text \<open>The array of the stream goes to \<open>std::cout\<close> as a C string.\<close>

definition stdout_append :: "format_env \<Rightarrow> log_info \<Rightarrow> appender_base \<Rightarrow> string \<Rightarrow> string res" where
  "stdout_append env info a out =
     (if li_level info \<ge> ap_level a
      then rbind (format_record env a info) (\<lambda>stream.
             rbind (fb_cstring stream) (\<lambda>s. Inr (out @ s)))
      else Inr out)"

record sync_file_appender =
  sf_base :: appender_base
  sf_file :: log_file

definition sync_file_append :: "format_env \<Rightarrow> log_info \<Rightarrow> sync_file_appender \<Rightarrow> sync_file_appender res" where
  "sync_file_append env info a =
     (if li_level info \<ge> ap_level (sf_base a)
      then rbind (format_record env (sf_base a) info) (\<lambda>stream.
             rbind (fb_text stream) (\<lambda>s.
               rbind (lf_append s (sf_file a)) (\<lambda>f. Inr (a\<lparr>sf_file := f\<rparr>))))
      else Inr a)"

section \<open>The asynchronous appender\<close>

text \<open>
  \<open>unique_ptr\<close>s are options: \<open>None\<close> after the buffer was moved away. \<open>aa_notify\<close> is the function that
  wakes the writing thread, if it was set, and \<open>aa_notified\<close> counts its calls.
\<close>

record async_appender =
  aa_base :: appender_base
  aa_current :: "fbuf option"
  aa_next :: "fbuf option"
  aa_buffers :: "fbuf option list"
  aa_new1 :: "fbuf option"
  aa_new2 :: "fbuf option"
  aa_toWrite :: "fbuf option list"
  aa_notify :: bool
  aa_notified :: nat
  aa_file :: log_file

definition new_large_buffer :: fbuf where
  "new_large_buffer = new_fbuf kLargeBuffer"

definition new_async_appender :: "log_file \<Rightarrow> async_appender" where
  "new_async_appender f =
     \<lparr>aa_base = new_appender_base, aa_current = Some new_large_buffer, aa_next = Some new_large_buffer,
      aa_buffers = [], aa_new1 = Some (fb_bzero new_large_buffer), aa_new2 = Some (fb_bzero new_large_buffer),
      aa_toWrite = [], aa_notify = False, aa_notified = 0, aa_file = f\<rparr>"

definition aa_empty :: "async_appender \<Rightarrow> bool" where
  "aa_empty a \<longleftrightarrow> aa_buffers a = []"

definition aa_setNotifyFunc :: "async_appender \<Rightarrow> async_appender" where
  "aa_setNotifyFunc a = a\<lparr>aa_notify := True\<rparr>"

text \<open>The critical section of \<open>append\<close>.\<close>

definition aa_push :: "string \<Rightarrow> async_appender \<Rightarrow> async_appender res" where
  "aa_push line a =
     (case aa_current a of
        None \<Rightarrow> Inl Undefined
      | Some cur \<Rightarrow>
          if fb_avail cur > length line
          then rbind (fb_append line cur) (\<lambda>cur. Inr (a\<lparr>aa_current := Some cur\<rparr>))
          else let a = a\<lparr>aa_buffers := aa_buffers a @ [Some cur]\<rparr>;
                   cur = (case aa_next a of Some b \<Rightarrow> b | None \<Rightarrow> new_large_buffer);
                   a = a\<lparr>aa_next := None\<rparr>
               in rbind (fb_append line cur) (\<lambda>cur.
                    Inr (a\<lparr>aa_current := Some cur,
                           aa_notified := aa_notified a + (if aa_notify a then 1 else 0)\<rparr>)))"

definition async_append :: "format_env \<Rightarrow> log_info \<Rightarrow> async_appender \<Rightarrow> async_appender res" where
  "async_append env info a =
     (if li_level info \<ge> ap_level (aa_base a)
      then rbind (format_record env (aa_base a) info) (\<lambda>stream.
             rbind (fb_text stream) (\<lambda>line. aa_push line a))
      else Inr a)"

text \<open>The first half of \<open>flush\<close>: the assertions and the critical section.\<close>

definition empty_spare :: "fbuf option \<Rightarrow> bool" where
  "empty_spare b = (case b of None \<Rightarrow> False | Some b \<Rightarrow> fb_length b = 0)"

definition flush_swap :: "async_appender \<Rightarrow> async_appender res" where
  "flush_swap a =
     rbind (check_assert (empty_spare (aa_new1 a))) (\<lambda>_.
     rbind (check_assert (empty_spare (aa_new2 a))) (\<lambda>_.
     rbind (check_assert (aa_toWrite a = [])) (\<lambda>_.
       let a = a\<lparr>aa_buffers := aa_buffers a @ [aa_current a]\<rparr>;
           a = a\<lparr>aa_current := aa_new1 a, aa_new1 := None\<rparr>;
           a = a\<lparr>aa_toWrite := aa_buffers a, aa_buffers := aa_toWrite a\<rparr>
       in Inr (if aa_next a = None then a\<lparr>aa_next := aa_new2 a, aa_new2 := None\<rparr> else a))))"

fun write_buffers :: "fbuf option list \<Rightarrow> log_file \<Rightarrow> log_file res" where
  "write_buffers [] f = Inr f"
| "write_buffers (None # bs) f = Inl Undefined"
| "write_buffers (Some b # bs) f =
     rbind (fb_text b) (\<lambda>s. rbind (lf_append s f) (write_buffers bs))"

definition refill :: "fbuf option \<Rightarrow> fbuf option list \<Rightarrow> (fbuf option \<times> fbuf option list) res" where
  "refill spare bs =
     (case spare of
        Some b \<Rightarrow> Inr (spare, bs)
      | None \<Rightarrow>
          rbind (check_assert (bs \<noteq> [])) (\<lambda>_.
            case last bs of
              None \<Rightarrow> Inl Undefined
            | Some b \<Rightarrow> Inr (Some (fb_reset b), butlast bs)))"

text \<open>
  The second half, outside the lock: at most \<open>kbuffersMaxSize\<close> buffers are written, behind a line that
  says how many were dropped; the spare buffers are replaced by written ones.
\<close>

definition flush_write :: "string \<Rightarrow> async_appender \<Rightarrow> async_appender res" where
  "flush_write dropped a =
     rbind (check_assert (aa_toWrite a \<noteq> [])) (\<lambda>_.
     rbind (if length (aa_toWrite a) > kbuffersMaxSize
            then rbind (lf_append dropped (aa_file a)) (\<lambda>f. Inr (take kbuffersMaxSize (aa_toWrite a), f))
            else Inr (aa_toWrite a, aa_file a)) (\<lambda>(bs, f).
     rbind (write_buffers bs f) (\<lambda>f.
     rbind (refill (aa_new1 a) (if length bs > 2 then take 2 bs else bs)) (\<lambda>(n1, bs).
     rbind (refill (aa_new2 a) bs) (\<lambda>(n2, bs).
     rbind (lf_flush f) (\<lambda>f.
       Inr (a\<lparr>aa_new1 := n1, aa_new2 := n2, aa_toWrite := [], aa_file := f\<rparr>)))))))"

text \<open>The line about dropped buffers; \<open>snprintf\<close> cuts it to the array of 256 bytes.\<close>

definition dropped_line :: "timestamp \<Rightarrow> nat \<Rightarrow> string" where
  "dropped_line now n =
     take 255 (''Dropped log messages at '' @ toFormattedString True now @ '', ''
       @ nat_to_string n @ '' larger buffers'' @ [LF])"

definition async_flush :: "timestamp \<Rightarrow> async_appender \<Rightarrow> async_appender res" where
  "async_flush now a =
     rbind (flush_swap a) (\<lambda>a.
       flush_write (dropped_line now (length (aa_toWrite a) - kbuffersMaxSize)) a)"

text \<open>The destructor of \<open>FileAsyncLogAppender\<close>.\<close>

definition async_destroy :: "async_appender \<Rightarrow> log_file res" where
  "async_destroy a = lf_flush (aa_file a)"

end
