(* ===== verification/LogAsync.thy ===== *)
theory LogAsync
  imports LogAppender
begin

text \<open>
  The asynchronous appender against its contract: whatever the order in which threads append records
  and the writing thread flushes, no assertion fails, no moved-away buffer is used, and what is in the
  files followed by what is still in the buffers is what was logged, in order.
\<close>

section \<open>The buffers of the asynchronous appender\<close>

text \<open>A buffer of the appender that holds a text.\<close>

definition buf_is :: "fbuf option \<Rightarrow> string \<Rightarrow> bool" where
  "buf_is o' t \<longleftrightarrow> (\<exists>b. o' = Some b \<and> fb_size b = kLargeBuffer \<and> holds b t)"

text \<open>A buffer is handed over only when a line does not fit any more.\<close>

definition full_text :: "string \<Rightarrow> bool" where
  "full_text t \<longleftrightarrow> kLargeBuffer \<le> length t + kSmallBuffer"

text \<open>
  What holds between any two critical sections: the texts of the buffers waiting to be written by a
  flush in progress (\<open>ws\<close>, empty when no flush is in progress), of the full buffers, and of the current one.
\<close>

record async_view =
  av_busy :: bool
  av_write :: "string list"
  av_full :: "string list"
  av_current :: string

definition aa_rep :: "async_appender \<Rightarrow> async_view \<Rightarrow> bool" where
  "aa_rep a v \<longleftrightarrow>
     list_all2 buf_is (aa_toWrite a) (av_write v) \<and>
     list_all2 buf_is (aa_buffers a) (av_full v) \<and> list_all full_text (av_full v) \<and>
     buf_is (aa_current a) (av_current v) \<and>
     (aa_next a = None \<or> buf_is (aa_next a) []) \<and> (aa_next a = None \<longrightarrow> av_full v \<noteq> []) \<and>
     (if av_busy v
      then aa_new1 a = None \<and> av_write v \<noteq> [] \<and>
        (buf_is (aa_new2 a) [] \<or> (aa_new2 a = None \<and> 2 \<le> length (av_write v)))
      else av_write v = [] \<and> buf_is (aa_new1 a) [] \<and> buf_is (aa_new2 a) []) \<and>
     lf_inv (aa_file a)"

definition unwritten :: "async_view \<Rightarrow> string" where
  "unwritten v = concat (av_write v) @ concat (av_full v) @ av_current v"

lemma buf_is_new: "buf_is (Some new_large_buffer) []"
  by (simp add: buf_is_def new_large_buffer_def)

lemma buf_is_bzero: "buf_is (Some (fb_bzero new_large_buffer)) []"
  by (simp add: buf_is_def new_large_buffer_def fb_bzero_def holds_def new_fbuf_def)

lemma new_async_rep:
  "lf_inv f \<Longrightarrow> aa_rep (new_async_appender f) \<lparr>av_busy = False, av_write = [], av_full = [], av_current = []\<rparr>"
  by (simp add: aa_rep_def new_async_appender_def buf_is_new buf_is_bzero)

text \<open>Appending a line moves it behind what is not yet written.\<close>

definition pushed :: "string \<Rightarrow> async_view \<Rightarrow> async_view" where
  "pushed line v =
     (if length (av_current v) + length line < kLargeBuffer then v\<lparr>av_current := av_current v @ line\<rparr>
      else v\<lparr>av_full := av_full v @ [av_current v], av_current := line\<rparr>)"

lemma unwritten_pushed [simp]: "unwritten (pushed line v) = unwritten v @ line"
  by (simp add: pushed_def unwritten_def)

lemma buf_is_append:
  assumes "buf_is (Some b) t" and "length t + length line < kLargeBuffer"
  obtains b' where "fb_append line b = Inr b'" and "buf_is (Some b') (t @ line)"
proof -
  have h: "holds b t" and s: "fb_size b = kLargeBuffer" using assms(1) by (auto simp: buf_is_def)
  obtain b' where "fb_append line b = Inr b'" "fb_size b' = fb_size b"
      "holds b' (if length t + length line < fb_size b then t @ line else t)"
    by (rule holds_append [OF h])
  with assms(2) s show ?thesis by (intro that) (simp_all add: buf_is_def)
qed

lemma aa_push_ok:
  assumes rep: "aa_rep a v" and line: "length line \<le> kSmallBuffer"
  obtains a' where "aa_push line a = Inr a'" and "aa_rep a' (pushed line v)"
    and "aa_file a' = aa_file a" and "aa_base a' = aa_base a"
proof -
  obtain b where b: "aa_current a = Some b" "buf_is (Some b) (av_current v)"
    using rep by (auto simp: aa_rep_def buf_is_def)
  have avail: "fb_avail b = kLargeBuffer - length (av_current v)"
    using b(2) by (auto simp: buf_is_def holds_avail)
  show ?thesis
  proof (cases "length (av_current v) + length line < kLargeBuffer")
    case True
    obtain b' where b': "fb_append line b = Inr b'" "buf_is (Some b') (av_current v @ line)"
      by (rule buf_is_append [OF b(2) True])
    have "length line < fb_avail b" using True avail by linarith
    then have "aa_push line a = Inr (a\<lparr>aa_current := Some b'\<rparr>)" using b b' by (simp add: aa_push_def)
    then show ?thesis
      by (rule that) (use rep b' True in \<open>simp_all add: aa_rep_def pushed_def\<close>)
  next
    case False
    define c where "c = (case aa_next a of Some b \<Rightarrow> b | None \<Rightarrow> new_large_buffer)"
    have c: "buf_is (Some c) []"
      using rep buf_is_new by (auto simp: c_def aa_rep_def split: option.split)
    have small: "length ([] :: string) + length line < kLargeBuffer"
      using line by (simp add: kSmallBuffer_def kLargeBuffer_def)
    obtain c' where c': "fb_append line c = Inr c'" "buf_is (Some c') ([] @ line)"
      by (rule buf_is_append [OF c small])
    have full: "full_text (av_current v)" using False line by (simp add: full_text_def)
    have "\<not> length line < fb_avail b" using False avail by linarith
    then have "aa_push line a = Inr (a\<lparr>aa_buffers := aa_buffers a @ [Some b], aa_next := None,
        aa_current := Some c', aa_notified := aa_notified a + (if aa_notify a then 1 else 0)\<rparr>)"
      using b(1) c'(1) by (simp add: aa_push_def Let_def c_def)
    then show ?thesis
      by (rule that)
         (use rep b c' False full in \<open>simp_all add: aa_rep_def pushed_def list_all2_appendI\<close>)
  qed
qed

text \<open>The two halves of a flush.\<close>

lemma flush_swap_ok:
  assumes rep: "aa_rep a v" and "\<not> av_busy v"
  obtains a' where "flush_swap a = Inr a'"
    and "aa_rep a' \<lparr>av_busy = True, av_write = av_full v @ [av_current v], av_full = [], av_current = []\<rparr>"
    and "aa_file a' = aa_file a" and "aa_base a' = aa_base a"
proof -
  have spare: "empty_spare (aa_new1 a)" "empty_spare (aa_new2 a)" "aa_toWrite a = []"
    using assms by (auto simp: aa_rep_def buf_is_def empty_spare_def holds_length)
  let ?a = "a\<lparr>aa_buffers := [], aa_current := aa_new1 a, aa_new1 := None,
    aa_toWrite := aa_buffers a @ [aa_current a]\<rparr>"
  let ?a' = "if aa_next a = None then ?a\<lparr>aa_next := aa_new2 a, aa_new2 := None\<rparr> else ?a"
  have swap: "flush_swap a = Inr ?a'" using spare by (simp add: flush_swap_def Let_def)
  have full: "list_all2 buf_is (aa_buffers a @ [aa_current a]) (av_full v @ [av_current v])"
    using rep by (simp add: aa_rep_def list_all2_appendI)
  have two: "aa_next a = None \<Longrightarrow> 2 \<le> length (av_full v @ [av_current v])"
    using rep by (cases "av_full v") (simp_all add: aa_rep_def)
  show ?thesis
    by (rule that [OF swap])
       (use assms full two in \<open>auto simp: aa_rep_def buf_is_def\<close>)
qed

lemma write_buffers_ok:
  assumes "list_all2 buf_is bs ts" and "lf_inv f"
  obtains f' where "write_buffers bs f = Inr f'" and "lf_inv f'" and "lf_data f' = lf_data f @ concat ts"
  using assms
proof (induction bs ts arbitrary: f thesis rule: list_all2_induct)
  case (Cons b bs t ts)
  then obtain c where c: "b = Some c" "fb_text c = Inr t" by (auto simp: buf_is_def holds_text)
  obtain g where g: "lf_append t f = Inr g" "lf_inv g" "lf_data g = lf_data f @ t"
    by (rule lf_append_data [OF Cons.prems(2)])
  obtain f' where "write_buffers bs g = Inr f'" "lf_inv f'" "lf_data f' = lf_data g @ concat ts"
    by (rule Cons.IH [OF _ g(2)])
  with c g show ?case by (intro Cons.prems(1)) simp_all
qed simp

lemma buf_is_reset: "buf_is (Some b) t \<Longrightarrow> buf_is (Some (fb_reset b)) []"
  by (simp add: buf_is_def)

lemma refill_ok:
  assumes "buf_is spare [] \<or> (spare = None \<and> bs \<noteq> [])" and "list_all2 buf_is bs ts"
  obtains s bs' ts' where "refill spare bs = Inr (s, bs')" and "buf_is s []"
    and "list_all2 buf_is bs' ts'" and "length bs' = (if spare = None then length bs - 1 else length bs)"
proof (cases spare)
  case None
  with assms obtain cs b where bs: "bs = cs @ [b]" by (cases bs rule: rev_cases) (auto simp: buf_is_def)
  with assms(2) obtain us t where "ts = us @ [t]" "list_all2 buf_is cs us" "buf_is b t"
    by (auto simp: list_all2_append1 list_all2_Cons1)
  moreover from this obtain c where "b = Some c" by (auto simp: buf_is_def)
  ultimately show ?thesis
    using None bs by (intro that) (auto simp: refill_def intro: buf_is_reset)
next
  case (Some b)
  with assms show ?thesis by (intro that) (auto simp: refill_def)
qed

lemma flush_write_ok:
  assumes rep: "aa_rep a v" and busy: "av_busy v" and few: "length (av_write v) \<le> kbuffersMaxSize"
  obtains a' where "flush_write dropped a = Inr a'"
    and "aa_rep a' (v\<lparr>av_busy := False, av_write := []\<rparr>)"
    and "lf_data (aa_file a') = lf_data (aa_file a) @ concat (av_write v)"
    and "aa_base a' = aa_base a"
proof -
  have tw: "list_all2 buf_is (aa_toWrite a) (av_write v)" and ne: "av_write v \<noteq> []"
    and n1: "aa_new1 a = None"
    and n2: "buf_is (aa_new2 a) [] \<or> (aa_new2 a = None \<and> 2 \<le> length (av_write v))"
    and lf: "lf_inv (aa_file a)"
    using rep busy by (simp_all add: aa_rep_def)
  have len: "length (aa_toWrite a) = length (av_write v)" using tw by (rule list_all2_lengthD)
  obtain f where f: "write_buffers (aa_toWrite a) (aa_file a) = Inr f" "lf_inv f"
      "lf_data f = lf_data (aa_file a) @ concat (av_write v)"
    by (rule write_buffers_ok [OF tw lf])
  define bs where "bs = (if length (aa_toWrite a) > 2 then take 2 (aa_toWrite a) else aa_toWrite a)"
  define ts where "ts = (if length (aa_toWrite a) > 2 then take 2 (av_write v) else av_write v)"
  have bs: "list_all2 buf_is bs ts" using tw by (simp add: bs_def ts_def list_all2_takeI)
  have bs_ne: "aa_new1 a = None \<and> bs \<noteq> []" and two: "2 \<le> length (av_write v) \<Longrightarrow> length bs = 2"
    using n1 ne len by (auto simp: bs_def)
  obtain s1 bs1 ts1 where r1: "refill (aa_new1 a) bs = Inr (s1, bs1)" "buf_is s1 []"
      "list_all2 buf_is bs1 ts1" "length bs1 = (if aa_new1 a = None then length bs - 1 else length bs)"
    by (rule refill_ok [OF disjI2 [OF bs_ne] bs])
  have "buf_is (aa_new2 a) [] \<or> (aa_new2 a = None \<and> bs1 \<noteq> [])"
    using n2 two n1 r1(4) by auto
  then obtain s2 bs2 ts2 where r2: "refill (aa_new2 a) bs1 = Inr (s2, bs2)" "buf_is s2 []"
    by (rule refill_ok [OF _ r1(3)])
  have "flush_write dropped a =
      Inr (a\<lparr>aa_new1 := s1, aa_new2 := s2, aa_toWrite := [], aa_file := f\<rparr>)"
  proof -
    have "aa_toWrite a \<noteq> []" "\<not> length (aa_toWrite a) > kbuffersMaxSize" using ne len few by auto
    then show ?thesis
      using r1(1) [unfolded bs_def] r2(1) f by (simp add: flush_write_def)
  qed
  then show ?thesis
    by (rule that) (use rep busy f r1 r2 in \<open>simp_all add: aa_rep_def\<close>)
qed


section \<open>Interleavings\<close>

text \<open>
  Any number of threads append; one thread flushes. The critical sections of \<open>append\<close> and of \<open>flush\<close>
  exclude each other, and the second half of a flush touches only what the flushing thread owns: an
  execution is a sequence of these three steps in which the halves of the flushes alternate.
\<close>

datatype log_step = Log log_info | Swap | Write string

fun async_step :: "format_env \<Rightarrow> log_step \<Rightarrow> async_appender \<Rightarrow> async_appender res" where
  "async_step env (Log info) a = async_append env info a"
| "async_step env Swap a = flush_swap a"
| "async_step env (Write dropped) a = flush_write dropped a"

fun async_run :: "format_env \<Rightarrow> log_step list \<Rightarrow> async_appender \<Rightarrow> async_appender res" where
  "async_run env [] a = Inr a"
| "async_run env (x # xs) a = rbind (async_step env x a) (async_run env xs)"

fun alternating :: "bool \<Rightarrow> log_step list \<Rightarrow> bool" where
  "alternating busy [] = True"
| "alternating busy (Log info # xs) = alternating busy xs"
| "alternating busy (Swap # xs) \<longleftrightarrow> \<not> busy \<and> alternating True xs"
| "alternating busy (Write d # xs) \<longleftrightarrow> busy \<and> alternating False xs"

fun busy_after :: "bool \<Rightarrow> log_step list \<Rightarrow> bool" where
  "busy_after busy [] = busy"
| "busy_after busy (Log info # xs) = busy_after busy xs"
| "busy_after busy (Swap # xs) = busy_after True xs"
| "busy_after busy (Write d # xs) = busy_after False xs"

text \<open>The line of a record, empty when its level is below that of the appender.\<close>

definition logged :: "format_env \<Rightarrow> LogLevel \<Rightarrow> formatter \<Rightarrow> log_info \<Rightarrow> string" where
  "logged env level f info = (if li_level info \<ge> level then line_text env f info else [])"

fun step_text :: "format_env \<Rightarrow> LogLevel \<Rightarrow> formatter \<Rightarrow> log_step \<Rightarrow> string" where
  "step_text env level f (Log info) = logged env level f info"
| "step_text env level f x = []"

fun step_printable :: "format_env \<Rightarrow> formatter \<Rightarrow> log_step \<Rightarrow> bool" where
  "step_printable env f (Log info) \<longleftrightarrow> printable env info (f_items f)"
| "step_printable env f x \<longleftrightarrow> True"

text \<open>
  The bytes logged between one exchange of the buffers and the next stay below the room of
  \<open>kbuffersMaxSize\<close> buffers, each used up to its last 4000 bytes.
\<close>

definition burst_limit :: nat where
  "burst_limit = kbuffersMaxSize * (kLargeBuffer - kSmallBuffer)"

fun bursts_ok :: "format_env \<Rightarrow> LogLevel \<Rightarrow> formatter \<Rightarrow> nat \<Rightarrow> log_step list \<Rightarrow> bool" where
  "bursts_ok env level f n [] \<longleftrightarrow> n < burst_limit"
| "bursts_ok env level f n (Swap # xs) \<longleftrightarrow> n < burst_limit \<and> bursts_ok env level f 0 xs"
| "bursts_ok env level f n (x # xs) \<longleftrightarrow> bursts_ok env level f (n + length (step_text env level f x)) xs"

lemma full_texts_length:
  "list_all full_text ts \<Longrightarrow> length ts * (kLargeBuffer - kSmallBuffer) \<le> length (concat ts)"
  by (induction ts) (auto simp: full_text_def kLargeBuffer_def kSmallBuffer_def)

lemma format_record_line:
  assumes "ap_formatter b = Some f" and "printable env info (f_items f)"
  obtains s where "format_record env b info = Inr s" and "holds s (line_text env f info)"
proof -
  obtain s where "formatter_format env f info (new_fbuf kSmallBuffer) = Inr s" "holds s (line_text env f info)"
    using format_holds [OF assms(2)] by metis
  with assms(1) show ?thesis by (intro that) (simp_all add: format_record_def)
qed

lemma async_append_ok:
  assumes rep: "aa_rep a v" and f: "ap_formatter (aa_base a) = Some f"
    and info: "printable env info (f_items f)"
  obtains a' v' where "async_append env info a = Inr a'" and "aa_rep a' v'"
    and "unwritten v' = unwritten v @ logged env (ap_level (aa_base a)) f info"
    and "av_busy v' = av_busy v" and "av_write v' = av_write v"
    and "aa_file a' = aa_file a" and "aa_base a' = aa_base a"
proof (cases "li_level info \<ge> ap_level (aa_base a)")
  case True
  obtain s where s: "format_record env (aa_base a) info = Inr s" "holds s (line_text env f info)"
    by (rule format_record_line [OF f info])
  obtain a' where a': "aa_push (line_text env f info) a = Inr a'" "aa_rep a' (pushed (line_text env f info) v)"
      "aa_file a' = aa_file a" "aa_base a' = aa_base a"
    by (rule aa_push_ok [OF rep line_text_length [of env info f, OF info]])
  have "async_append env info a = Inr a'"
    using True s a' by (simp add: async_append_def holds_text)
  then show ?thesis
    by (rule that [OF _ a'(2)]) (use True a' in \<open>simp_all add: logged_def, simp_all add: pushed_def\<close>)
next
  case False
  then have "async_append env info a = Inr a" by (simp add: async_append_def)
  then show ?thesis by (rule that [OF _ rep]) (use False in \<open>simp_all add: logged_def\<close>)
qed

text \<open>The bytes logged since the last exchange.\<close>

definition recent :: "async_view \<Rightarrow> nat" where
  "recent v = length (concat (av_full v) @ av_current v)"

definition few_written :: "async_view \<Rightarrow> bool" where
  "few_written v \<longleftrightarrow> length (av_write v) \<le> kbuffersMaxSize"

lemma recent_unwritten: "length (unwritten v) = length (concat (av_write v)) + recent v"
  by (simp add: unwritten_def recent_def)

lemma few_full:
  assumes "aa_rep a v" and "recent v < burst_limit"
  shows "Suc (length (av_full v)) \<le> kbuffersMaxSize"
proof -
  have "length (av_full v) * (kLargeBuffer - kSmallBuffer) \<le> recent v"
    using full_texts_length [of "av_full v"] assms(1) by (simp add: aa_rep_def recent_def)
  also have "\<dots> < kbuffersMaxSize * (kLargeBuffer - kSmallBuffer)"
    using assms(2) by (simp add: burst_limit_def)
  finally show ?thesis by (simp add: kLargeBuffer_def kSmallBuffer_def)
qed

lemma async_run_ok:
  assumes "aa_rep a v" and "few_written v" and "ap_formatter (aa_base a) = Some f"
    and "ap_level (aa_base a) = level"
    and "alternating (av_busy v) xs" and "list_all (step_printable env f) xs"
    and "bursts_ok env level f (recent v) xs"
  obtains a' v' where "async_run env xs a = Inr a'" and "aa_rep a' v'"
    and "av_busy v' = busy_after (av_busy v) xs"
    and "lf_data (aa_file a') @ unwritten v' =
      lf_data (aa_file a) @ unwritten v @ concat (map (step_text env level f) xs)"
  using assms
proof (induction xs arbitrary: a v thesis)
  case (Cons x xs)
  show ?case
  proof (cases x)
    case (Log info)
    obtain b w where b: "async_append env info a = Inr b" "aa_rep b w"
        "unwritten w = unwritten v @ logged env level f info"
        "av_busy w = av_busy v" "av_write w = av_write v" "aa_file b = aa_file a" "aa_base b = aa_base a"
      using async_append_ok [OF Cons.prems(2) Cons.prems(4), of env info] Cons.prems Log by auto
    have r: "recent w = recent v + length (logged env level f info)"
      using arg_cong [OF b(3), of length] b(5) by (simp add: recent_unwritten)
    obtain a' v' where "async_run env xs b = Inr a'" "aa_rep a' v'" "av_busy v' = busy_after (av_busy w) xs"
        "lf_data (aa_file a') @ unwritten v' =
          lf_data (aa_file b) @ unwritten w @ concat (map (step_text env level f) xs)"
      by (rule Cons.IH [OF _ b(2)]) (use Cons.prems Log b r in \<open>simp_all add: few_written_def\<close>)
    with b Log show ?thesis by (intro Cons.prems(1)) simp_all
  next
    case Swap
    let ?w = "\<lparr>av_busy = True, av_write = av_full v @ [av_current v], av_full = [], av_current = []\<rparr>"
    have idle: "\<not> av_busy v" and burst: "recent v < burst_limit" using Cons.prems Swap by simp_all
    obtain b where b: "flush_swap a = Inr b" "aa_rep b ?w" "aa_file b = aa_file a" "aa_base b = aa_base a"
      by (rule flush_swap_ok [OF Cons.prems(2) idle])
    have few: "few_written ?w" using few_full [OF Cons.prems(2) burst] by (simp add: few_written_def)
    have un: "unwritten ?w = unwritten v"
      using Cons.prems(2) idle by (simp add: unwritten_def aa_rep_def)
    obtain a' v' where "async_run env xs b = Inr a'" "aa_rep a' v'" "av_busy v' = busy_after (av_busy ?w) xs"
        "lf_data (aa_file a') @ unwritten v' =
          lf_data (aa_file b) @ unwritten ?w @ concat (map (step_text env level f) xs)"
      by (rule Cons.IH [OF _ b(2) few]) (use Cons.prems Swap b in \<open>simp_all add: recent_def\<close>)
    with b Swap un show ?thesis by (intro Cons.prems(1)) simp_all
  next
    case (Write d)
    let ?w = "v\<lparr>av_busy := False, av_write := []\<rparr>"
    have busy: "av_busy v" and few: "length (av_write v) \<le> kbuffersMaxSize"
      using Cons.prems Write by (simp_all add: few_written_def)
    obtain b where b: "flush_write d a = Inr b" "aa_rep b ?w"
        "lf_data (aa_file b) = lf_data (aa_file a) @ concat (av_write v)" "aa_base b = aa_base a"
      by (rule flush_write_ok [OF Cons.prems(2) busy few])
    obtain a' v' where "async_run env xs b = Inr a'" "aa_rep a' v'" "av_busy v' = busy_after (av_busy ?w) xs"
        "lf_data (aa_file a') @ unwritten v' =
          lf_data (aa_file b) @ unwritten ?w @ concat (map (step_text env level f) xs)"
      by (rule Cons.IH [OF _ b(2)]) (use Cons.prems Write b in \<open>simp_all add: few_written_def recent_def\<close>)
    with b Write show ?thesis by (intro Cons.prems(1)) (simp_all add: unwritten_def)
  qed
qed simp

section \<open>Nothing is lost between the files and the buffers\<close>

definition buf_text :: "fbuf option \<Rightarrow> string" where
  "buf_text o' = (case o' of None \<Rightarrow> [] | Some b \<Rightarrow> (case fb_text b of Inl _ \<Rightarrow> [] | Inr s \<Rightarrow> s))"

definition aa_pending :: "async_appender \<Rightarrow> string" where
  "aa_pending a = concat (map buf_text (aa_toWrite a @ aa_buffers a @ [aa_current a]))"

lemma buf_is_text: "buf_is o' t \<Longrightarrow> buf_text o' = t"
  by (auto simp: buf_is_def buf_text_def holds_text)

lemma aa_pending_rep: "aa_rep a v \<Longrightarrow> aa_pending a = unwritten v"
proof -
  assume rep: "aa_rep a v"
  have "list_all2 buf_is (aa_toWrite a @ aa_buffers a @ [aa_current a]) (av_write v @ av_full v @ [av_current v])"
    using rep by (simp add: aa_rep_def list_all2_appendI)
  then have "map buf_text (aa_toWrite a @ aa_buffers a @ [aa_current a]) = av_write v @ av_full v @ [av_current v]"
    by (induction rule: list_all2_induct) (simp_all add: buf_is_text)
  then show ?thesis by (simp add: aa_pending_def unwritten_def del: map_append)
qed

definition formatted_with :: "formatter \<Rightarrow> async_appender \<Rightarrow> async_appender" where
  "formatted_with f a = a\<lparr>aa_base := ap_setFormatter (Some f) (aa_base a)\<rparr>"

text \<open>C16: for every interleaving of appends with the halves of the flushes in which less than
  99,900,000 bytes are logged between two exchanges of the buffers, the asynchronous appender reaches the
  end without a failed assertion or undefined behaviour, and the contents of the files followed by the
  buffers are the lines of the records of sufficient level, in the order of their appends.\<close>

theorem async_log_complete:
  assumes "lf_inv file" and "alternating False xs" and "list_all (step_printable env f) xs"
    and "bursts_ok env LV_DEBUG f 0 xs"
  shows "\<exists>a. async_run env xs (formatted_with f (new_async_appender file)) = Inr a \<and>
    lf_data (aa_file a) @ aa_pending a = lf_data file @ concat (map (step_text env LV_DEBUG f) xs)"
proof -
  let ?a = "formatted_with f (new_async_appender file)"
  let ?v = "\<lparr>av_busy = False, av_write = [], av_full = [], av_current = []\<rparr>"
  have rep: "aa_rep ?a ?v"
    using new_async_rep [OF assms(1)] by (simp add: formatted_with_def aa_rep_def)
  have base: "ap_formatter (aa_base ?a) = Some f" "ap_level (aa_base ?a) = LV_DEBUG" "aa_file ?a = file"
    by (simp_all add: formatted_with_def ap_setFormatter_def new_async_appender_def new_appender_base_def)
  have v: "few_written ?v" "recent ?v = 0" "unwritten ?v = []"
    by (simp_all add: few_written_def recent_def unwritten_def)
  obtain a' v' where "async_run env xs ?a = Inr a'" "aa_rep a' v'"
      "lf_data (aa_file a') @ unwritten v' =
        lf_data (aa_file ?a) @ unwritten ?v @ concat (map (step_text env LV_DEBUG f) xs)"
    by (rule async_run_ok [OF rep v(1) base(1,2), of xs env]) (use assms v in simp_all)
  with base v show ?thesis by (auto simp: aa_pending_rep)
qed

definition demo_format_env :: format_env where
  "demo_format_env = \<lparr>fe_thread_name = ''main'', fe_tz_offset = 0, fe_conv = no_conv\<rparr>"

definition demo_formatter :: formatter where
  "demo_formatter = \<lparr>f_pattern = ''[%p]%n'',
     f_items = [StringFormatItem ''['', LevelFormatItem, StringFormatItem '']'', NewLineFormatItem],
     f_error = False\<rparr>"

definition demo_info :: log_info where
  "demo_info = new_log_info ''root'' LV_WARN ''src/main.cpp'' 12 0 7 1700000000"

definition demo_log_file :: log_file where
  "demo_log_file =
     \<lparr>lf_basename = ''app'', lf_rollSize = 1000, lf_flushInterval = 3, lf_checkEveryN = 1024,
      lf_count = 0, lf_startOfPeriod = 0, lf_lastRoll = 0, lf_lastFlush = 0,
      lf_file = Some (new_append_file ''app.log''), lf_old = [], lf_clock = (\<lambda>n. 1700000000 + int n),
      lf_reads = 1, lf_host = ''h'', lf_pid = 1, lf_disk = [], lf_opens = (\<lambda>_. True)\<rparr>"

lemma demo_log_file_ok: "lf_inv demo_log_file" "lf_data demo_log_file = []"
  by (simp_all add: lf_inv_def disk_ok_def lf_files_def file_ok_def lf_data_def demo_log_file_def new_append_file_def)

lemma demo_printable: "printable demo_format_env demo_info (f_items demo_formatter)"
  by (simp add: printable_def demo_formatter_def)

lemma demo_line: "line_text demo_format_env demo_formatter demo_info = ''[WARN]'' @ [LF]"
  by (simp add: line_text_def item_args_def demo_formatter_def demo_info_def new_log_info_def kSmallBuffer_def)

lemma demo_logged: "logged demo_format_env LV_DEBUG demo_formatter demo_info = ''[WARN]'' @ [LF]"
  by (simp add: logged_def demo_line) (simp add: demo_info_def new_log_info_def less_eq_LogLevel_def)

theorem async_log_complete_witness:
  "\<exists>a. async_run demo_format_env [Log demo_info, Swap, Log demo_info, Write []]
        (formatted_with demo_formatter (new_async_appender demo_log_file)) = Inr a \<and>
     lf_data (aa_file a) @ aa_pending a = ''[WARN]'' @ LF # ''[WARN]'' @ [LF]"
  using async_log_complete [OF demo_log_file_ok(1), of "[Log demo_info, Swap, Log demo_info, Write []]"
      demo_format_env demo_formatter]
  by (simp add: demo_printable demo_logged demo_log_file_ok burst_limit_def kbuffersMaxSize_def
      kLargeBuffer_def kSmallBuffer_def)

end
