(* ===== verification/Config.thy ===== *)
theory Config
  imports JsonValue
begin

text \<open>
  \<open>haha_web/config/config.{h,cpp}\<close>: the configuration, a table of all members of a JSON file under
  their dotted paths.
\<close>

section \<open>The table\<close>

text \<open>\<open>ListAllMember\<close>: the node itself under its prefix, unless that is empty, then the members.\<close>

function ListAllMember :: "string \<Rightarrow> json \<Rightarrow> (string \<times> json) list" where
  "ListAllMember pre node =
     (if pre \<noteq> [] then [(pre, node)] else [])
     @ (case node of
          JsonObject m \<Rightarrow>
            concat (map (\<lambda>it. ListAllMember (if pre = [] then fst it else pre @ ''.'' @ fst it) (snd it)) m)
        | _ \<Rightarrow> [])"
  by pat_completeness auto
termination
  by (relation "measure (\<lambda>(p, j). size j)")
     (auto simp: less_Suc_eq_le elim!: size_list_estimation' [where f = "size_prod (\<lambda>x. 0) size"])

declare ListAllMember.simps [simp del]

text \<open>
  The constructor: nothing is in the table when the file could not be read or parsed (\<open>None\<close>) or is not
  an object. \<open>insert\<close> keeps the first entry of a key.
\<close>

definition new_config :: "json option \<Rightarrow> (string \<times> json) list" where
  "new_config file =
     (case file of
        None \<Rightarrow> []
      | Some j \<Rightarrow> if getType j \<noteq> Object then [] else ListAllMember [] j)"

definition config_find :: "string \<Rightarrow> (string \<times> json) list \<Rightarrow> json option" where
  "config_find key cfg = map_of cfg key"

definition query_string :: "string \<Rightarrow> string \<Rightarrow> (string \<times> json) list \<Rightarrow> string" where
  "query_string key dflt cfg = (case config_find key cfg of Some (JsonString v) \<Rightarrow> v | _ \<Rightarrow> dflt)"

definition query_int :: "string \<Rightarrow> int \<Rightarrow> (string \<times> json) list \<Rightarrow> int" where
  "query_int key dflt cfg = (case config_find key cfg of Some (JsonInteger v) \<Rightarrow> v | _ \<Rightarrow> dflt)"

definition query_double :: "string \<Rightarrow> double \<Rightarrow> (string \<times> json) list \<Rightarrow> double" where
  "query_double key dflt cfg = (case config_find key cfg of Some (JsonDouble v) \<Rightarrow> v | _ \<Rightarrow> dflt)"

definition query_bool :: "string \<Rightarrow> bool \<Rightarrow> (string \<times> json) list \<Rightarrow> bool" where
  "query_bool key dflt cfg = (case config_find key cfg of Some (JsonBoolean v) \<Rightarrow> v | _ \<Rightarrow> dflt)"

section \<open>Paths\<close>

text \<open>Following a path of keys through nested objects.\<close>

fun lookup_path :: "json \<Rightarrow> string list \<Rightarrow> json option" where
  "lookup_path j [] = Some j"
| "lookup_path (JsonObject m) (k # ks) = Option.bind (map_of m k) (\<lambda>v. lookup_path v ks)"
| "lookup_path j (k # ks) = None"

definition plain_key :: "string \<Rightarrow> bool" where
  "plain_key k \<longleftrightarrow> k \<noteq> [] \<and> CHR ''.'' \<notin> set k"

text \<open>Objects whose keys are distinct, not empty and without dots, at every depth objects are nested.\<close>

fun plain_keys :: "json \<Rightarrow> bool" where
  "plain_keys (JsonObject m) \<longleftrightarrow>
     distinct (map fst m) \<and> (\<forall>it \<in> set m. plain_key (fst it) \<and> plain_keys (snd it))"
| "plain_keys j \<longleftrightarrow> True"

definition dots :: "string list \<Rightarrow> string" where
  "dots ks = concat (map (\<lambda>k. CHR ''.'' # k) ks)"

fun dotted :: "string list \<Rightarrow> string" where
  "dotted [] = []"
| "dotted (k # ks) = k @ dots ks"

text \<open>All paths of a value, in the order of the table.\<close>

function all_paths :: "json \<Rightarrow> (string list \<times> json) list" where
  "all_paths j = ([], j) #
     (case j of
        JsonObject m \<Rightarrow> concat (map (\<lambda>it. map (\<lambda>(ks, w). (fst it # ks, w)) (all_paths (snd it))) m)
      | _ \<Rightarrow> [])"
  by pat_completeness auto
termination
  by (relation "measure size")
     (auto simp: less_Suc_eq_le elim!: size_list_estimation' [where f = "size_prod (\<lambda>x. 0) size"])

declare all_paths.simps [simp del]

lemma dots_Cons [simp]: "dots [] = []" "dots (k # ks) = CHR ''.'' # k @ dots ks"
  by (simp_all add: dots_def)

lemma all_paths_leaf: "getType j \<noteq> Object \<Longrightarrow> all_paths j = [([], j)]"
  by (cases j) (simp_all add: all_paths.simps)

lemma all_paths_object:
  "all_paths (JsonObject m) = ([], JsonObject m) #
     concat (map (\<lambda>it. map (\<lambda>(ks, w). (fst it # ks, w)) (all_paths (snd it))) m)"
  by (subst all_paths.simps) simp

text \<open>The table lists the paths, dotted, behind the prefix.\<close>

lemma ListAllMember_prefix:
  "p \<noteq> [] \<Longrightarrow> plain_keys j \<Longrightarrow> ListAllMember p j = map (\<lambda>(ks, w). (p @ dots ks, w)) (all_paths j)"
proof (induction j arbitrary: p rule: all_paths.induct)
  case (1 j)
  show ?case
  proof (cases j)
    case (JsonObject m)
    have "ListAllMember (p @ ''.'' @ fst it) (snd it) =
        map (\<lambda>(ks, w). (p @ dots ks, w)) (map (\<lambda>(ks, w). (fst it # ks, w)) (all_paths (snd it)))"
      if "it \<in> set m" for it
      using 1(1) [OF JsonObject that, of "p @ ''.'' @ fst it"] 1(3) JsonObject that
      by (simp add: comp_def case_prod_unfold)
    then have eq: "map (\<lambda>it. ListAllMember (p @ ''.'' @ fst it) (snd it)) m =
        map (\<lambda>it. map (\<lambda>(ks, w). (p @ dots ks, w)) (map (\<lambda>(ks, w). (fst it # ks, w)) (all_paths (snd it)))) m"
      by (intro map_cong refl)
    have "ListAllMember p j = (p, j) # concat (map (\<lambda>it. ListAllMember (p @ ''.'' @ fst it) (snd it)) m)"
      using 1(2) JsonObject by (subst ListAllMember.simps) simp
    then show ?thesis
      unfolding eq JsonObject by (simp add: all_paths_object map_concat comp_def)
  qed (use 1(2) in \<open>simp_all add: ListAllMember.simps all_paths_leaf\<close>)
qed

lemma ListAllMember_root:
  assumes "plain_keys (JsonObject m)"
  shows "ListAllMember [] (JsonObject m) = map (\<lambda>(ks, w). (dotted ks, w)) (tl (all_paths (JsonObject m)))"
proof -
  have "ListAllMember (fst it) (snd it) =
      map (\<lambda>(ks, w). (dotted ks, w)) (map (\<lambda>(ks, w). (fst it # ks, w)) (all_paths (snd it)))"
    if "it \<in> set m" for it
    using ListAllMember_prefix [of "fst it" "snd it"] assms that
    by (simp add: plain_key_def comp_def case_prod_unfold)
  then have eq: "map (\<lambda>it. ListAllMember (fst it) (snd it)) m =
      map (\<lambda>it. map (\<lambda>(ks, w). (dotted ks, w)) (map (\<lambda>(ks, w). (fst it # ks, w)) (all_paths (snd it)))) m"
    by (intro map_cong refl)
  have "ListAllMember [] (JsonObject m) = concat (map (\<lambda>it. ListAllMember (fst it) (snd it)) m)"
    by (subst ListAllMember.simps) simp
  then show ?thesis
    unfolding eq by (simp add: all_paths_object map_concat comp_def)
qed

text \<open>Dotted paths of plain keys determine the paths.\<close>

lemma dots_inject:
  "list_all plain_key ks \<Longrightarrow> list_all plain_key ls \<Longrightarrow> dots ks = dots ls \<Longrightarrow> ks = ls"
proof (induction ks arbitrary: ls)
  case Nil
  then show ?case by (cases ls) auto
next
  case (Cons k ks)
  then obtain l ls' where ls: "ls = l # ls'" by (cases ls) auto
  have tk: "takeWhile (\<lambda>c. c \<noteq> CHR ''.'') (x @ dots xs) = x" if "plain_key x" for x xs
    using that by (cases xs) (auto simp: plain_key_def takeWhile_append takeWhile_eq_all_conv)
  have eq: "k @ dots ks = l @ dots ls'" using Cons.prems ls by simp
  have "k = l" using tk [of k ks] tk [of l ls'] Cons.prems ls eq by simp
  with eq Cons ls show ?case by simp
qed

lemma dotted_inject:
  assumes "list_all plain_key ks" "list_all plain_key ls" "ks \<noteq> []" "ls \<noteq> []" "dotted ks = dotted ls"
  shows "ks = ls"
proof -
  have "dots ks = CHR ''.'' # dotted ks" "dots ls = CHR ''.'' # dotted ls"
    using assms(3,4) by (cases ks; cases ls; simp)+
  with assms show ?thesis by (intro dots_inject) simp_all
qed

lemma all_paths_plain: "plain_keys j \<Longrightarrow> (ks, w) \<in> set (all_paths j) \<Longrightarrow> list_all plain_key ks"
proof (induction j arbitrary: ks w rule: all_paths.induct)
  case (1 j)
  then show ?case
    by (cases j) (fastforce simp: all_paths_object all_paths_leaf)+
qed

lemma map_of_inj:
  assumes "\<And>ls w. (ls, w) \<in> set xs \<Longrightarrow> f ls = f ks \<Longrightarrow> ls = ks"
  shows "map_of (map (\<lambda>(ls, w). (f ls, w)) xs) (f ks) = map_of xs ks"
  using assms
proof (induction xs)
  case (Cons x xs)
  have "f (fst x) = f ks \<Longrightarrow> fst x = ks" using Cons.prems [of "fst x" "snd x"] by simp
  then show ?case using Cons by (cases x) auto
qed simp

text \<open>The paths lead to what is found by following them.\<close>

lemma map_of_all_paths: "plain_keys j \<Longrightarrow> map_of (all_paths j) ks = lookup_path j ks"
proof (induction j arbitrary: ks rule: all_paths.induct)
  case (1 j)
  show ?case
  proof (cases j)
    case (JsonObject m)
    show ?thesis
    proof (cases ks)
      case (Cons k ls)
      have "map_of (concat (map (\<lambda>it. map (\<lambda>(ks, w). (fst it # ks, w)) (all_paths (snd it))) n)) (k # ls) =
          Option.bind (map_of n k) (\<lambda>v. lookup_path v ls)"
        if "distinct (map fst n)" "set n \<subseteq> set m" for n
        using that
      proof (induction n)
        case (Cons it n)
        have it: "map_of (all_paths (snd it)) ls = lookup_path (snd it) ls"
          using 1(1) [OF JsonObject, of it] Cons.prems 1(2) JsonObject by auto
        show ?case
        proof (cases "fst it = k")
          case True
          have "map_of n k = None" using Cons.prems True by (auto simp: map_of_eq_None_iff)
          moreover have "map_of (map (\<lambda>(ks, w). (fst it # ks, w)) (all_paths (snd it))) (fst it # ls) =
              map_of (all_paths (snd it)) ls"
            by (rule map_of_inj) simp
          ultimately show ?thesis
            using Cons it True by (cases it) (auto simp: map_add_def split: option.split)
        next
          case False
          then have "map_of (map (\<lambda>(ks, w). (fst it # ks, w)) (all_paths (snd it))) (k # ls) = None"
            by (auto simp: map_of_eq_None_iff)
          with Cons False show ?thesis by (cases it) (simp add: map_add_def)
        qed
      qed simp
      from this [of m] show ?thesis using 1(2) JsonObject Cons by (simp add: all_paths_object)
    qed (simp add: JsonObject all_paths_object)
  qed (cases ks; simp add: all_paths_leaf)+
qed

lemma config_paths:
  assumes "plain_keys (JsonObject m)" and "ks \<noteq> []" and "list_all plain_key ks"
  shows "config_find (dotted ks) (new_config (Some (JsonObject m))) = lookup_path (JsonObject m) ks"
proof -
  let ?ps = "all_paths (JsonObject m)"
  have "config_find (dotted ks) (new_config (Some (JsonObject m))) =
      map_of (map (\<lambda>(ks, w). (dotted ks, w)) (tl ?ps)) (dotted ks)"
    by (simp add: config_find_def new_config_def ListAllMember_root [OF assms(1)])
  also have "\<dots> = map_of (tl ?ps) ks"
  proof (rule map_of_inj)
    fix ls w assume ls: "(ls, w) \<in> set (tl ?ps)" "dotted ls = dotted ks"
    then have "(ls, w) \<in> set ?ps" by (auto simp: all_paths_object)
    then have "list_all plain_key ls" using all_paths_plain [OF assms(1)] by blast
    moreover have "ls \<noteq> []" using ls(1) by (auto simp: all_paths_object)
    ultimately show "ls = ks" using assms ls(2) by (intro dotted_inject) simp_all
  qed
  also have "\<dots> = map_of ?ps ks" using assms(2) by (simp add: all_paths_object)
  also have "\<dots> = lookup_path (JsonObject m) ks" by (rule map_of_all_paths [OF assms(1)])
  finally show ?thesis .
qed

text \<open>C39: the value the configuration holds under a dotted path is the one that is found by following
  the keys of the path through the nested objects of the file, and there is none where the path leads
  nowhere.\<close>

theorem config_follows_paths:
  assumes "plain_keys (JsonObject m)" and "ks \<noteq> []" and "list_all plain_key ks"
  shows "config_find (dotted ks) (new_config (Some (JsonObject m))) = lookup_path (JsonObject m) ks"
  using assms by (rule config_paths)

definition demo_config :: "(string \<times> json) list" where
  "demo_config = [(''log'', JsonObject [(''open'', JsonBoolean True)]),
     (''server'', JsonObject [(''ip'', JsonString ''0.0.0.0''), (''port'', JsonInteger 9190)])]"

theorem config_follows_paths_witness:
  "config_find ''server.port'' (new_config (Some (JsonObject demo_config))) = Some (JsonInteger 9190)"
proof -
  have "dotted [''server'', ''port''] = ''server.port''" by simp
  then show ?thesis
    using config_follows_paths [of demo_config "[''server'', ''port'']"]
    by (simp add: demo_config_def plain_key_def)
qed

text \<open>
  A key that itself contains a dot shadows a path, or is shadowed by it: the first in the order of the
  keys stays.
\<close>

lemma dotted_key_shadows:
  "config_find ''a.b'' (new_config (Some (JsonObject
     [(''a'', JsonObject [(''b'', JsonInteger 1)]), (''a.b'', JsonInteger 2)]))) = Some (JsonInteger 1)"
  by (simp add: config_find_def new_config_def ListAllMember.simps)

end
