(* ===== verification/Logger.thy ===== *)
theory Logger
  imports LogAsync Config
begin

text \<open>
  \<open>haha_web/log/Logger.{h,cpp}\<close> and \<open>haha_web/log/LoggerManager.{h,cpp}\<close>: loggers hand a record to their
  appenders; the synchronous one at once, the asynchronous one with a thread that flushes the appenders.
\<close>

section \<open>Appenders as objects\<close>

text \<open>The kinds of appenders; an appender to the standard output has the text written so far.\<close>

datatype appender =
    StdoutSync appender_base string
  | FileSync sync_file_appender
  | FileAsync async_appender

text \<open>Appenders are shared: a logger holds their places in a store.\<close>

type_synonym appender_store = "appender list"

fun base_of :: "appender \<Rightarrow> appender_base" where
  "base_of (StdoutSync b out) = b"
| "base_of (FileSync a) = sf_base a"
| "base_of (FileAsync a) = aa_base a"

fun on_base :: "(appender_base \<Rightarrow> appender_base) \<Rightarrow> appender \<Rightarrow> appender" where
  "on_base g (StdoutSync b out) = StdoutSync (g b) out"
| "on_base g (FileSync a) = FileSync (a\<lparr>sf_base := g (sf_base a)\<rparr>)"
| "on_base g (FileAsync a) = FileAsync (a\<lparr>aa_base := g (aa_base a)\<rparr>)"

fun appender_append :: "format_env \<Rightarrow> log_info \<Rightarrow> appender \<Rightarrow> appender res" where
  "appender_append env info (StdoutSync b out) =
     map_sum id (StdoutSync b) (stdout_append env info b out)"
| "appender_append env info (FileSync a) = map_sum id FileSync (sync_file_append env info a)"
| "appender_append env info (FileAsync a) = map_sum id FileAsync (async_append env info a)"

fun appender_flush :: "timestamp \<Rightarrow> appender \<Rightarrow> appender res" where
  "appender_flush now (FileAsync a) = map_sum id FileAsync (async_flush now a)"
| "appender_flush now a = Inr a"

fun appender_setNotify :: "appender \<Rightarrow> appender" where
  "appender_setNotify (FileAsync a) = FileAsync (aa_setNotifyFunc a)"
| "appender_setNotify a = a"

fun appender_empty :: "appender \<Rightarrow> bool" where
  "appender_empty (FileAsync a) = aa_empty a"
| "appender_empty a = True"

definition need_formatter :: "formatter \<Rightarrow> nat \<Rightarrow> appender_store \<Rightarrow> appender_store" where
  "need_formatter f i st =
     (if ap_hasFormatter (base_of (st ! i)) then st
      else st[i := on_base (ap_setFormatter (Some f)) (st ! i)])"

section \<open>Loggers\<close>

record logger =
  lg_name :: string
  lg_level :: LogLevel
  lg_appenders :: "nat list"
  lg_formatter :: formatter

definition configured_pattern :: "(string \<times> json) list \<Rightarrow> string" where
  "configured_pattern cfg = query_string ''log.default_format'' default_pattern cfg"

definition new_logger ::
  "(string \<times> json) list \<Rightarrow> string \<Rightarrow> nat option \<Rightarrow> appender_store \<Rightarrow> logger \<times> appender_store" where
  "new_logger cfg name appender st =
     (let f = new_formatter (configured_pattern cfg);
          l = \<lparr>lg_name = name, lg_level = LV_DEBUG, lg_appenders = [], lg_formatter = f\<rparr>
      in case appender of
           None \<Rightarrow> (l, st)
         | Some i \<Rightarrow> (l\<lparr>lg_appenders := [i]\<rparr>, need_formatter f i st))"

definition lg_setLevel :: "LogLevel \<Rightarrow> logger \<Rightarrow> logger" where
  "lg_setLevel v l = l\<lparr>lg_level := v\<rparr>"

definition lg_setFormatter :: "formatter \<Rightarrow> logger \<times> appender_store \<Rightarrow> logger \<times> appender_store" where
  "lg_setFormatter f ls =
     (let l = (fst ls)\<lparr>lg_formatter := f\<rparr> in (l, fold (need_formatter f) (lg_appenders l) (snd ls)))"

definition lg_setPattern :: "string \<Rightarrow> logger \<times> appender_store \<Rightarrow> logger \<times> appender_store" where
  "lg_setPattern val ls =
     (let f = new_formatter val in if f_error f then ls else lg_setFormatter f ls)"

definition addAppender :: "nat \<Rightarrow> logger \<times> appender_store \<Rightarrow> logger \<times> appender_store" where
  "addAppender i ls =
     (let l = fst ls
      in (l\<lparr>lg_appenders := lg_appenders l @ [i]\<rparr>, need_formatter (lg_formatter l) i (snd ls)))"

definition delAppender :: "nat \<Rightarrow> logger \<Rightarrow> logger" where
  "delAppender i l = l\<lparr>lg_appenders := remove1 i (lg_appenders l)\<rparr>"

definition clearAppenders :: "logger \<Rightarrow> logger" where
  "clearAppenders l = l\<lparr>lg_appenders := []\<rparr>"

text \<open>The loop over the appenders.\<close>

fun append_each :: "format_env \<Rightarrow> log_info \<Rightarrow> nat list \<Rightarrow> appender_store \<Rightarrow> appender_store res" where
  "append_each env info [] st = Inr st"
| "append_each env info (i # is) st =
     (if i < length st
      then rbind (appender_append env info (st ! i)) (\<lambda>a. append_each env info is (st[i := a]))
      else Inl Undefined)"

section \<open>The synchronous logger\<close>

text \<open>The default appender is the last argument; it is used while the logger has no other.\<close>

definition new_sync_logger ::
  "(string \<times> json) list \<Rightarrow> string \<Rightarrow> nat option \<Rightarrow> appender_store \<Rightarrow> logger \<times> appender_store \<times> appender" where
  "new_sync_logger cfg name appender st =
     (let (l, st) = new_logger cfg name appender st
      in (l, st, StdoutSync (ap_setFormatter (Some (lg_formatter l)) new_appender_base) []))"

definition sync_log ::
  "format_env \<Rightarrow> log_info \<Rightarrow> logger \<Rightarrow> appender_store \<times> appender \<Rightarrow> (appender_store \<times> appender) res" where
  "sync_log env info l sd =
     (if li_level info \<ge> lg_level l
      then if lg_appenders l \<noteq> []
           then map_sum id (\<lambda>st. (st, snd sd)) (append_each env info (lg_appenders l) (fst sd))
           else map_sum id (\<lambda>d. (fst sd, d)) (appender_append env info (snd sd))
      else Inr sd)"

section \<open>The asynchronous logger\<close>

definition async_log :: "format_env \<Rightarrow> log_info \<Rightarrow> logger \<Rightarrow> appender_store \<Rightarrow> appender_store res" where
  "async_log env info l st =
     (if li_level info \<ge> lg_level l then append_each env info (lg_appenders l) st else Inr st)"

definition async_addAppender :: "nat \<Rightarrow> logger \<times> appender_store \<Rightarrow> logger \<times> appender_store" where
  "async_addAppender i ls = addAppender i (fst ls, (snd ls)[i := appender_setNotify (snd ls ! i)])"

text \<open>One turn of \<open>task\<close>, after the wait: every appender that has full buffers is flushed.\<close>

fun flush_each :: "timestamp \<Rightarrow> nat list \<Rightarrow> appender_store \<Rightarrow> appender_store res" where
  "flush_each now [] st = Inr st"
| "flush_each now (i # is) st =
     (if i < length st
      then rbind (if appender_empty (st ! i) then Inr (st ! i) else appender_flush now (st ! i))
             (\<lambda>a. flush_each now is (st[i := a]))
      else Inl Undefined)"

definition task_turn :: "timestamp \<Rightarrow> logger \<Rightarrow> appender_store \<Rightarrow> appender_store res" where
  "task_turn now l st = flush_each now (lg_appenders l) st"

section \<open>The logger manager\<close>

definition log_open :: "(string \<times> json) list \<Rightarrow> bool" where
  "log_open cfg = query_bool ''log.open'' True cfg"

definition getLogger :: "(string \<times> json) list \<Rightarrow> (string \<rightharpoonup> logger) \<Rightarrow> string \<Rightarrow> logger option" where
  "getLogger cfg loggers name = (if \<not> log_open cfg then None else loggers name)"

definition default_sync_log_file :: string where "default_sync_log_file = ''app_sync''"
definition default_async_log_file :: string where "default_async_log_file = ''app_async''"
definition default_roll_size :: nat where "default_roll_size = 50 * 1000 * 1000"
definition default_flush_interval :: int where "default_flush_interval = 3"

text \<open>The first call of a root getter; \<open>file\<close> is the log file its appender opens.\<close>

definition getSyncFileRoot ::
  "(string \<times> json) list \<Rightarrow> log_file \<Rightarrow> appender_store \<Rightarrow> (logger \<times> appender_store \<times> appender) option" where
  "getSyncFileRoot cfg file st =
     (if \<not> log_open cfg then None
      else Some (new_sync_logger cfg ''sync_file_root'' (Some (length st))
        (st @ [FileSync \<lparr>sf_base = new_appender_base, sf_file = file\<rparr>])))"

definition getAsyncFileRoot ::
  "(string \<times> json) list \<Rightarrow> log_file \<Rightarrow> appender_store \<Rightarrow> (logger \<times> appender_store) option" where
  "getAsyncFileRoot cfg file st =
     (if \<not> log_open cfg then None
      else Some (new_logger cfg ''async_file_root'' (Some (length st)) (st @ [FileAsync (new_async_appender file)])))"

definition getSyncStdoutRoot ::
  "(string \<times> json) list \<Rightarrow> appender_store \<Rightarrow> (logger \<times> appender_store \<times> appender) option" where
  "getSyncStdoutRoot cfg st =
     (if \<not> log_open cfg then None
      else Some (new_sync_logger cfg ''sync_stdout_root'' (Some (length st)) (st @ [StdoutSync new_appender_base []])))"

text \<open>
  \<open>HAHA_LOG_LEVEL\<close>: whether a record is made at all; the logger is a pointer that is read only when
  logging is on.
\<close>

definition log_enabled :: "(string \<times> json) list \<Rightarrow> logger option \<Rightarrow> LogLevel \<Rightarrow> bool res" where
  "log_enabled cfg l level =
     (if \<not> log_open cfg then Inr False
      else case l of None \<Rightarrow> Inl Undefined | Some l \<Rightarrow> Inr (lg_level l \<le> level))"

end
