(* ===== verification/LogSpec.thy ===== *)
theory LogSpec
  imports Logger
begin

text \<open>
  The logging system as a whole: what an appender promises to a logger, that the appenders to files keep
  it, what a logger achieves with such appenders; and where the system falls short: the appender to the
  standard output, and the asynchronous logger with little to log.
\<close>

section \<open>The contract of an appender\<close>

locale log_sink =
  fixes put :: "log_info \<Rightarrow> 'a \<Rightarrow> 'a res"
    and ready :: "'a \<Rightarrow> bool"
    and out :: "'a \<Rightarrow> string"
    and line :: "'a \<Rightarrow> log_info \<Rightarrow> string"
    and accepts :: "'a \<Rightarrow> log_info \<Rightarrow> bool"
  assumes put_out: "ready a \<Longrightarrow> accepts a i \<Longrightarrow>
    \<exists>a'. put i a = Inr a' \<and> ready a' \<and> out a' = out a @ line a i \<and> line a' = line a \<and> accepts a' = accepts a"
begin

fun put_all :: "log_info list \<Rightarrow> 'a \<Rightarrow> 'a res" where
  "put_all [] a = Inr a"
| "put_all (i # is) a = rbind (put i a) (put_all is)"

lemma put_all_out:
  "ready a \<Longrightarrow> list_all (accepts a) is \<Longrightarrow>
   \<exists>a'. put_all is a = Inr a' \<and> ready a' \<and> out a' = out a @ concat (map (line a) is) \<and>
     line a' = line a \<and> accepts a' = accepts a"
proof (induction "is" arbitrary: a)
  case (Cons i "is")
  then obtain b where "put i a = Inr b" "ready b" "out b = out a @ line a i" "line b = line a"
      "accepts b = accepts a"
    using put_out [of a i] by auto
  with Cons show ?case by fastforce
qed simp

end

definition base_line :: "format_env \<Rightarrow> appender_base \<Rightarrow> log_info \<Rightarrow> string" where
  "base_line env b info =
     (case ap_formatter b of None \<Rightarrow> [] | Some f \<Rightarrow> logged env (ap_level b) f info)"

definition base_accepts :: "format_env \<Rightarrow> appender_base \<Rightarrow> log_info \<Rightarrow> bool" where
  "base_accepts env b info =
     (case ap_formatter b of None \<Rightarrow> False | Some f \<Rightarrow> printable env info (f_items f))"

definition sync_ready :: "sync_file_appender \<Rightarrow> bool" where
  "sync_ready a \<longleftrightarrow> lf_inv (sf_file a)"

definition async_ready :: "async_appender \<Rightarrow> bool" where
  "async_ready a \<longleftrightarrow> (\<exists>v. aa_rep a v)"

lemma sync_put_out:
  assumes "sync_ready a" and "base_accepts env (sf_base a) i"
  shows "\<exists>a'. sync_file_append env i a = Inr a' \<and> sync_ready a' \<and>
    lf_data (sf_file a') = lf_data (sf_file a) @ base_line env (sf_base a) i \<and> sf_base a' = sf_base a"
proof -
  obtain f where f: "ap_formatter (sf_base a) = Some f" "printable env i (f_items f)"
    using assms(2) by (auto simp: base_accepts_def split: option.splits)
  obtain s where s: "format_record env (sf_base a) i = Inr s" "holds s (line_text env f i)"
    by (rule format_record_line [OF f])
  obtain g where "lf_append (line_text env f i) (sf_file a) = Inr g" "lf_inv g"
      "lf_data g = lf_data (sf_file a) @ line_text env f i"
    using lf_append_data assms(1) unfolding sync_ready_def by metis
  with f s assms(1) show ?thesis
    by (auto simp: sync_file_append_def holds_text base_line_def logged_def sync_ready_def)
qed

lemma async_put_out:
  assumes "async_ready a" and "base_accepts env (aa_base a) i"
  shows "\<exists>a'. async_append env i a = Inr a' \<and> async_ready a' \<and>
    lf_data (aa_file a') @ aa_pending a' = (lf_data (aa_file a) @ aa_pending a) @ base_line env (aa_base a) i \<and>
    aa_base a' = aa_base a"
proof -
  obtain f where f: "ap_formatter (aa_base a) = Some f" "printable env i (f_items f)"
    using assms(2) by (auto simp: base_accepts_def split: option.splits)
  obtain v where v: "aa_rep a v" using assms(1) by (auto simp: async_ready_def)
  obtain a' v' where "async_append env i a = Inr a'" "aa_rep a' v'"
      "unwritten v' = unwritten v @ logged env (ap_level (aa_base a)) f i"
      "aa_file a' = aa_file a" "aa_base a' = aa_base a"
    using async_append_ok [OF v f] by metis
  with f v show ?thesis
    by (auto simp: async_ready_def base_line_def aa_pending_rep)
qed

interpretation sync_sink: log_sink "sync_file_append env" sync_ready "\<lambda>a. lf_data (sf_file a)"
    "\<lambda>a. base_line env (sf_base a)" "\<lambda>a. base_accepts env (sf_base a)" for env
  by unfold_locales (use sync_put_out in fastforce)

interpretation async_sink: log_sink "async_append env" async_ready "\<lambda>a. lf_data (aa_file a) @ aa_pending a"
    "\<lambda>a. base_line env (aa_base a)" "\<lambda>a. base_accepts env (aa_base a)" for env
  by unfold_locales (use async_put_out in fastforce)

text \<open>The appenders of a logger: those to files keep the contract.\<close>

fun appender_ready :: "appender \<Rightarrow> bool" where
  "appender_ready (StdoutSync b out) = False"
| "appender_ready (FileSync a) = sync_ready a"
| "appender_ready (FileAsync a) = async_ready a"

fun appender_out :: "appender \<Rightarrow> string" where
  "appender_out (StdoutSync b out) = out"
| "appender_out (FileSync a) = lf_data (sf_file a)"
| "appender_out (FileAsync a) = lf_data (aa_file a) @ aa_pending a"

interpretation file_sink: log_sink "appender_append env" appender_ready appender_out
    "\<lambda>a. base_line env (base_of a)" "\<lambda>a. base_accepts env (base_of a)" for env
proof
  fix env a i
  assume "appender_ready a" "base_accepts env (base_of a) i"
  then show "\<exists>a'. appender_append env i a = Inr a' \<and> appender_ready a' \<and>
      appender_out a' = appender_out a @ base_line env (base_of a) i \<and>
      base_line env (base_of a') = base_line env (base_of a) \<and>
      base_accepts env (base_of a') = base_accepts env (base_of a)"
    using sync_sink.put_out async_sink.put_out by (cases a) fastforce+
qed

section \<open>A logger and its appenders\<close>

definition extended :: "format_env \<Rightarrow> log_info list \<Rightarrow> appender \<Rightarrow> appender \<Rightarrow> bool" where
  "extended env is a a' \<longleftrightarrow>
     appender_ready a' \<and> appender_out a' = appender_out a @ concat (map (base_line env (base_of a)) is) \<and>
     base_line env (base_of a') = base_line env (base_of a) \<and>
     base_accepts env (base_of a') = base_accepts env (base_of a)"

definition attached :: "format_env \<Rightarrow> nat list \<Rightarrow> log_info list \<Rightarrow> appender_store \<Rightarrow> bool" where
  "attached env ids is st \<longleftrightarrow> distinct ids \<and>
     (\<forall>j \<in> set ids. j < length st \<and> appender_ready (st ! j) \<and> list_all (base_accepts env (base_of (st ! j))) is)"

definition reached :: "format_env \<Rightarrow> nat list \<Rightarrow> log_info list \<Rightarrow> appender_store \<Rightarrow> appender_store \<Rightarrow> bool" where
  "reached env ids is st st' \<longleftrightarrow> length st' = length st \<and>
     (\<forall>j < length st. if j \<in> set ids then extended env is (st ! j) (st' ! j) else st' ! j = st ! j)"

lemma append_each_ok:
  "attached env ids [i] st \<Longrightarrow> \<exists>st'. append_each env i ids st = Inr st' \<and> reached env ids [i] st st'"
proof (induction ids arbitrary: st)
  case Nil
  then show ?case by (simp add: reached_def)
next
  case (Cons k ids)
  then have k: "k < length st" "appender_ready (st ! k)" "base_accepts env (base_of (st ! k)) i"
    and rest: "k \<notin> set ids" "attached env ids [i] st"
    by (auto simp: attached_def)
  obtain a where a: "appender_append env i (st ! k) = Inr a" "extended env [i] (st ! k) a"
    using file_sink.put_out [OF k(2,3)] by (auto simp: extended_def)
  have "attached env ids [i] (st[k := a])"
  proof -
    have "st[k := a] ! j = st ! j" if "j \<in> set ids" for j using rest(1) that by (metis nth_list_update_neq)
    then show ?thesis using rest(2) by (simp add: attached_def)
  qed
  from Cons.IH [OF this] obtain st' where st': "append_each env i ids (st[k := a]) = Inr st'"
      "reached env ids [i] (st[k := a]) st'"
    by blast
  have "reached env (k # ids) [i] st st'"
    unfolding reached_def
  proof (intro conjI allI impI)
    show "length st' = length st" using st'(2) by (simp add: reached_def)
    fix j assume j: "j < length st"
    with st'(2) have "if j \<in> set ids then extended env [i] (st[k := a] ! j) (st' ! j) else st' ! j = st[k := a] ! j"
      by (simp add: reached_def)
    then show "if j \<in> set (k # ids) then extended env [i] (st ! j) (st' ! j) else st' ! j = st ! j"
      using a(2) rest(1) k(1) by (cases "j = k") (auto split: if_splits)
  qed
  with a st' k(1) show ?case by auto
qed

lemma reached_append:
  assumes "reached env ids is st st'" and "reached env ids js st' st''"
  shows "reached env ids (is @ js) st st''"
  using assms unfolding reached_def extended_def by (auto split: if_splits)

lemma reached_attached:
  assumes "reached env ids is st st'" and "attached env ids js st"
  shows "attached env ids js st'"
  using assms unfolding reached_def attached_def extended_def by auto

fun sync_log_all ::
  "format_env \<Rightarrow> log_info list \<Rightarrow> logger \<Rightarrow> appender_store \<times> appender \<Rightarrow> (appender_store \<times> appender) res" where
  "sync_log_all env [] l sd = Inr sd"
| "sync_log_all env (i # is) l sd = rbind (sync_log env i l sd) (sync_log_all env is l)"

definition passed :: "logger \<Rightarrow> log_info list \<Rightarrow> log_info list" where
  "passed l is = filter (\<lambda>i. li_level i \<ge> lg_level l) is"

lemma reached_none: "(\<And>j. j \<in> set ids \<Longrightarrow> appender_ready (st ! j)) \<Longrightarrow> reached env ids [] st st"
  by (simp add: reached_def extended_def)

lemma sync_log_all_ok:
  "lg_appenders l \<noteq> [] \<Longrightarrow> attached env (lg_appenders l) is st \<Longrightarrow>
   \<exists>st'. sync_log_all env is l (st, d) = Inr (st', d) \<and> reached env (lg_appenders l) (passed l is) st st'"
proof (induction "is" arbitrary: st)
  case Nil
  then show ?case by (auto simp: passed_def attached_def intro: reached_none)
next
  case (Cons i "is")
  have att: "attached env (lg_appenders l) is st" "attached env (lg_appenders l) [i] st"
    using Cons.prems(2) by (simp_all add: attached_def)
  show ?case
  proof (cases "li_level i \<ge> lg_level l")
    case True
    obtain st1 where st1: "append_each env i (lg_appenders l) st = Inr st1" "reached env (lg_appenders l) [i] st st1"
      using append_each_ok [OF att(2)] by blast
    from Cons.IH [OF Cons.prems(1) reached_attached [OF st1(2) att(1)]] obtain st'
      where "sync_log_all env is l (st1, d) = Inr (st', d)" "reached env (lg_appenders l) (passed l is) st1 st'"
      by blast
    with st1 True Cons.prems(1) show ?thesis
      using reached_append [of env "lg_appenders l" "[i]" st st1 "passed l is" st']
      by (simp add: sync_log_def passed_def)
  next
    case False
    with Cons.IH [OF Cons.prems(1) att(1)] show ?thesis by (simp add: sync_log_def passed_def)
  qed
qed

text \<open>A synchronous logger with appenders to files hands every record of its level to each of
  them: each appender's output grows by the lines of the records of its own level, in order, and no other
  appender changes.\<close>

theorem logger_reaches_every_appender:
  assumes "lg_appenders l \<noteq> []" and "attached env (lg_appenders l) is st"
  shows "\<exists>st'. sync_log_all env is l (st, d) = Inr (st', d) \<and> length st' = length st \<and>
    (\<forall>j < length st.
       if j \<in> set (lg_appenders l)
       then appender_out (st' ! j) = appender_out (st ! j) @
         concat (map (base_line env (base_of (st ! j))) (passed l is))
       else st' ! j = st ! j)"
proof -
  obtain st' where st': "sync_log_all env is l (st, d) = Inr (st', d)"
      "reached env (lg_appenders l) (passed l is) st st'"
    using sync_log_all_ok [OF assms] by blast
  show ?thesis
    by (rule exI [of _ st']) (use st' in \<open>auto simp: reached_def extended_def split: if_splits\<close>)
qed

definition demo_base :: appender_base where
  "demo_base = \<lparr>ap_level = LV_INFO, ap_formatter = Some demo_formatter\<rparr>"

definition demo_file_appender :: appender where
  "demo_file_appender = FileSync \<lparr>sf_base = demo_base, sf_file = demo_log_file\<rparr>"

definition demo_logger :: logger where
  "demo_logger = \<lparr>lg_name = ''root'', lg_level = LV_INFO, lg_appenders = [0], lg_formatter = demo_formatter\<rparr>"

lemma demo_base_line:
  "base_line demo_format_env demo_base demo_info = ''[WARN]'' @ [LF]"
  "base_line demo_format_env demo_base (demo_info\<lparr>li_level := LV_DEBUG\<rparr>) = []"
  by (simp_all add: base_line_def demo_base_def logged_def demo_line less_eq_LogLevel_def)
     (simp add: demo_info_def new_log_info_def)

theorem logger_reaches_every_appender_witness:
  "\<exists>st'. sync_log_all demo_format_env [demo_info, demo_info\<lparr>li_level := LV_DEBUG\<rparr>] demo_logger
      ([demo_file_appender], StdoutSync new_appender_base []) = Inr (st', StdoutSync new_appender_base []) \<and>
    length st' = 1 \<and> appender_out (st' ! 0) = ''[WARN]'' @ [LF]"
proof -
  let ?is = "[demo_info, demo_info\<lparr>li_level := LV_DEBUG\<rparr>]"
  have "attached demo_format_env (lg_appenders demo_logger) ?is [demo_file_appender]"
    by (simp add: attached_def demo_logger_def demo_file_appender_def sync_ready_def demo_log_file_ok
        base_accepts_def demo_base_def printable_def demo_formatter_def)
  moreover have "passed demo_logger ?is = [demo_info]"
    by (simp add: passed_def demo_logger_def demo_info_def new_log_info_def less_eq_LogLevel_def)
  ultimately show ?thesis
    using logger_reaches_every_appender [of demo_logger demo_format_env ?is "[demo_file_appender]"
        "StdoutSync new_appender_base []"]
    by (auto simp: demo_logger_def demo_file_appender_def demo_base_line demo_log_file_ok)
qed

section \<open>An asynchronous logger with little to log\<close>

datatype logger_event = Record log_info | Turn timestamp

fun async_logger_run :: "format_env \<Rightarrow> logger_event list \<Rightarrow> logger \<Rightarrow> appender_store \<Rightarrow> appender_store res" where
  "async_logger_run env [] l st = Inr st"
| "async_logger_run env (Record i # es) l st = rbind (async_log env i l st) (async_logger_run env es l)"
| "async_logger_run env (Turn now # es) l st = rbind (task_turn now l st) (async_logger_run env es l)"

fun event_text :: "format_env \<Rightarrow> formatter \<Rightarrow> logger_event \<Rightarrow> string" where
  "event_text env f (Record i) = logged env LV_DEBUG f i"
| "event_text env f (Turn now) = []"

fun event_printable :: "format_env \<Rightarrow> formatter \<Rightarrow> logger_event \<Rightarrow> bool" where
  "event_printable env f (Record i) \<longleftrightarrow> printable env i (f_items f)"
| "event_printable env f (Turn now) \<longleftrightarrow> True"

definition quiet_state :: "log_file \<Rightarrow> formatter \<Rightarrow> string \<Rightarrow> async_appender \<Rightarrow> bool" where
  "quiet_state file f t a \<longleftrightarrow>
     aa_rep a \<lparr>av_busy = False, av_write = [], av_full = [], av_current = t\<rparr> \<and> aa_file a = file \<and>
     ap_formatter (aa_base a) = Some f \<and> ap_level (aa_base a) = LV_DEBUG"

lemma quiet_append:
  assumes q: "quiet_state file f t a" and p: "printable env i (f_items f)"
    and few: "length t + length (logged env LV_DEBUG f i) < kLargeBuffer"
  obtains a' where "async_append env i a = Inr a'" and "quiet_state file f (t @ logged env LV_DEBUG f i) a'"
proof (cases "li_level i \<ge> LV_DEBUG")
  case True
  let ?v = "\<lparr>av_busy = False, av_write = [], av_full = [], av_current = t\<rparr>"
  have rep: "aa_rep a ?v" and base: "ap_formatter (aa_base a) = Some f" "ap_level (aa_base a) = LV_DEBUG"
    using q by (simp_all add: quiet_state_def)
  obtain s where s: "format_record env (aa_base a) i = Inr s" "holds s (line_text env f i)"
    by (rule format_record_line [OF base(1) p])
  obtain a' where a': "aa_push (line_text env f i) a = Inr a'" "aa_rep a' (pushed (line_text env f i) ?v)"
      "aa_file a' = aa_file a" "aa_base a' = aa_base a"
    by (rule aa_push_ok [OF rep line_text_length [of env i f, OF p]])
  have "quiet_state file f (t @ logged env LV_DEBUG f i) a'"
    using q a' few True by (simp add: quiet_state_def pushed_def logged_def)
  moreover have "async_append env i a = Inr a'"
    using True base s a' by (simp add: async_append_def holds_text)
  ultimately show ?thesis by (intro that)
next
  case False
  with q have "async_append env i a = Inr a" by (simp add: async_append_def quiet_state_def)
  moreover have "quiet_state file f (t @ logged env LV_DEBUG f i) a" using q False by (simp add: logged_def)
  ultimately show ?thesis by (intro that)
qed

lemma async_logger_quiet:
  assumes "quiet_state file f t a" and "lg_appenders l = [0]" and "lg_level l = LV_DEBUG"
    and "list_all (event_printable env f) es"
    and "length t + length (concat (map (event_text env f) es)) < kLargeBuffer"
  shows "\<exists>a'. async_logger_run env es l [FileAsync a] = Inr [FileAsync a'] \<and>
    quiet_state file f (t @ concat (map (event_text env f) es)) a'"
  using assms
proof (induction es arbitrary: t a)
  case (Cons e es)
  show ?case
  proof (cases e)
    case (Record i)
    have p: "printable env i (f_items f)" and few: "length t + length (logged env LV_DEBUG f i) < kLargeBuffer"
      using Cons.prems Record by simp_all
    obtain b where b: "async_append env i a = Inr b" "quiet_state file f (t @ logged env LV_DEBUG f i) b"
      by (rule quiet_append [OF Cons.prems(1) p few])
    have "async_log env i l [FileAsync a] =
        (if li_level i \<ge> LV_DEBUG then Inr [FileAsync b] else Inr [FileAsync a])"
      using b(1) Cons.prems by (simp add: async_log_def)
    moreover have "\<not> li_level i \<ge> LV_DEBUG \<Longrightarrow> b = a"
      using b(1) Cons.prems(1) by (simp add: async_append_def quiet_state_def)
    ultimately have "async_log env i l [FileAsync a] = Inr [FileAsync b]" by auto
    moreover obtain a' where "async_logger_run env es l [FileAsync b] = Inr [FileAsync a']"
        "quiet_state file f ((t @ logged env LV_DEBUG f i) @ concat (map (event_text env f) es)) a'"
      using Cons.IH [OF b(2)] Cons.prems Record by auto
    ultimately show ?thesis using Record by simp
  next
    case (Turn now)
    have "aa_empty a" using Cons.prems(1) by (simp add: quiet_state_def aa_rep_def aa_empty_def)
    then have "task_turn now l [FileAsync a] = Inr [FileAsync a]"
      using Cons.prems(2) by (simp add: task_turn_def)
    with Cons Turn show ?thesis by simp
  qed
qed simp

text \<open>C25: as long as less than four million bytes are logged, the thread of the default asynchronous
  logger never writes any of them, however often its flush interval passes, and the destructor
  flushes a file nothing was written to: the records are lost at the end of the program.\<close>

theorem small_logs_never_written:
  assumes "log_open cfg" and "lf_inv file"
    and "list_all (event_printable env (new_formatter (configured_pattern cfg))) es"
    and "length (concat (map (event_text env (new_formatter (configured_pattern cfg))) es)) < kLargeBuffer"
  shows "\<exists>l st a. getAsyncFileRoot cfg file [] = Some (l, st) \<and>
    async_logger_run env es l st = Inr [FileAsync a] \<and> async_destroy a = Inr file"
proof -
  let ?f = "new_formatter (configured_pattern cfg)"
  let ?a = "formatted_with ?f (new_async_appender file)"
  let ?l = "\<lparr>lg_name = ''async_file_root'', lg_level = LV_DEBUG, lg_appenders = [0], lg_formatter = ?f\<rparr>"
  have root: "getAsyncFileRoot cfg file [] = Some (?l, [FileAsync ?a])"
    using assms(1)
    by (simp add: getAsyncFileRoot_def new_logger_def need_formatter_def Let_def ap_hasFormatter_def
        new_async_appender_def new_appender_base_def formatted_with_def)
  have q: "quiet_state file ?f [] ?a"
    using new_async_rep [OF assms(2)]
    by (simp add: quiet_state_def aa_rep_def formatted_with_def ap_setFormatter_def)
       (simp add: new_async_appender_def new_appender_base_def)
  obtain a where "async_logger_run env es ?l [FileAsync ?a] = Inr [FileAsync a]"
      "quiet_state file ?f (concat (map (event_text env ?f) es)) a"
    using async_logger_quiet [OF q, of ?l env es] assms(3,4) by auto
  with root assms(2) show ?thesis by (auto simp: async_destroy_def quiet_state_def)
qed

theorem small_logs_never_written_witness:
  "\<exists>l st a. getAsyncFileRoot [(''log.default_format'', JsonString ''[%p]%n'')] demo_log_file [] = Some (l, st) \<and>
    async_logger_run demo_format_env [Record demo_info, Turn 0, Turn 3000000] l st = Inr [FileAsync a] \<and>
    async_destroy a = Inr demo_log_file"
proof -
  let ?cfg = "[(''log.default_format'', JsonString ''[%p]%n'')]"
  have f: "new_formatter (configured_pattern ?cfg) = demo_formatter"
    by (simp add: configured_pattern_def query_string_def config_find_def new_formatter_def demo_formatter_def
        isalpha_def isupper_def islower_def flush_plain_def find_item_def)
  have "log_open ?cfg" by (simp add: log_open_def query_bool_def config_find_def)
  then show ?thesis
    using small_logs_never_written [of ?cfg demo_log_file demo_format_env
        "[Record demo_info, Turn 0, Turn 3000000]"]
    unfolding f by (simp add: demo_log_file_ok demo_printable demo_logged kLargeBuffer_def)
qed

section \<open>The standard output\<close>

text \<open>Behind the byte after the text of a fresh stream nothing has been written.\<close>

definition fresh_tail :: "fbuf \<Rightarrow> bool" where
  "fresh_tail b \<longleftrightarrow> (\<forall>i > fb_cur b. fb_cells b i = None)"

lemma fresh_tail_new [simp]: "fresh_tail (new_fbuf n)"
  by (simp add: fresh_tail_def new_fbuf_def)

lemma fresh_tail_poke_add:
  assumes "fresh_tail b" and "length x \<le> 1" and "rbind (fb_poke (s @ x) b) (fb_add (length s)) = Inr b'"
  shows "fresh_tail b'"
  using assms by (auto simp: fresh_tail_def fb_poke_def fb_add_def write_cells_def split: if_splits)

lemma fresh_tail_append: "fresh_tail b \<Longrightarrow> fb_append s b = Inr b' \<Longrightarrow> fresh_tail b'"
  using fresh_tail_poke_add [of b "[]" s b'] by (simp add: fb_append_def split: if_splits)

lemma fresh_tail_out: "fresh_tail b \<Longrightarrow> arg_ok a \<Longrightarrow> stream_out a b = Inr b' \<Longrightarrow> fresh_tail b'"
proof (cases a)
  case (A_pointer v)
  assume "fresh_tail b" "stream_out a b = Inr b'"
  with A_pointer show ?thesis
    using fresh_tail_poke_add [of b "[NUL]" "''0x'' @ convertHex v" b']
    by (simp add: out_pointer_def split: if_splits)
qed (auto simp: formatInteger_def out_double_def kMaxNumericSize_def out_bool_def out_char_def out_cstr_def
    out_string_def intro: fresh_tail_append fresh_tail_poke_add [of b "[NUL]"] split: if_splits option.splits)

lemma fresh_tail_all:
  "fresh_tail b \<Longrightarrow> list_all arg_ok as \<Longrightarrow> stream_all as b = Inr b' \<Longrightarrow> fresh_tail b'"
  by (induction as arbitrary: b) (auto simp: rbind_Inr_conv intro: fresh_tail_out)

lemma fb_cstring_unterminated:
  assumes "holds b t" and "NUL \<notin> set t" and "fb_cells b (length t) = None" and "k \<le> length t"
  shows "fb_cstring_from k b = Inl Undefined"
  using assms
proof (induction "length t - k" arbitrary: k)
  case 0
  then show ?case by (subst fb_cstring_from.simps) (simp add: holds_def)
next
  case (Suc n)
  then have k: "k < length t" by simp
  then have "t ! k \<noteq> NUL" using nth_mem [of k t] Suc.prems(2) by metis
  moreover have "fb_cells b k = Some (t ! k)" "k < fb_size b"
    using Suc.prems k by (auto simp: holds_def)
  ultimately have "t ! k \<noteq> NUL" "fb_cells b k = Some (t ! k)" "k < fb_size b" by simp_all
  with Suc show ?case by (subst fb_cstring_from.simps) (simp add: holds_def)
qed

lemma stream_all_append: "stream_all (as @ bs) b = rbind (stream_all as b) (stream_all bs)"
  by (induction as arbitrary: b) (auto simp: rbind_def split: sum.splits)

lemma kept_append: "kept n t (as @ bs) = kept n (kept n t as) bs"
  by (induction as arbitrary: t) simp_all

text \<open>An appender to the standard output passes the array of the stream as a C string although
  nothing terminates it: a line that ends with its newline and contains no NUL is read beyond its end.\<close>

theorem stdout_line_unterminated:
  assumes "ap_formatter b = Some f" and "f_items f = its @ [NewLineFormatItem]"
    and "printable env i its" and "li_level i \<ge> ap_level b"
    and "length (kept kSmallBuffer [] (item_args env i its)) + 2 \<le> kSmallBuffer"
    and "NUL \<notin> set (kept kSmallBuffer [] (item_args env i its))"
  shows "stdout_append env i b out = Inl Undefined"
proof -
  let ?as = "item_args env i its" and ?n = "new_fbuf kSmallBuffer"
  let ?t = "kept kSmallBuffer [] ?as"
  have ok: "list_all arg_ok ?as" by (rule item_args_ok [OF assms(3)])
  have p: "printable env i (f_items f)" using assms(2,3) by (simp add: printable_def)
  have "list_all2 (\<lambda>it a. item_arg env i it = Some a) (f_items f) (item_args env i (f_items f))"
    using p by (auto simp: printable_def item_args_def list_all2_map2 list_all2_same)
  moreover have "item_args env i (f_items f) = ?as @ [A_char LF]" by (simp add: assms(2) item_args_def)
  ultimately have fmt: "format_record env b i = stream_all (?as @ [A_char LF]) ?n"
    using assms(1) by (simp add: format_record_def formatter_format_def format_items_args)
  obtain s where s: "stream_all ?as ?n = Inr s" "fb_size s = kSmallBuffer" "holds s ?t"
    by (rule stream_all_holds [OF holds_new ok, of kSmallBuffer]) simp
  have tail: "fresh_tail s" using fresh_tail_all [OF fresh_tail_new ok s(1)] .
  let ?s = "s\<lparr>fb_cells := write_cells (length ?t) [LF] (fb_cells s), fb_cur := Suc (length ?t)\<rparr>"
  have "fb_avail s > length [LF]" using s assms(5) by (simp add: holds_avail)
  then have "stream_out (A_char LF) s = Inr ?s"
    using s assms(5) by (simp add: out_char_def fb_append_def fb_poke_def fb_add_def holds_def)
  then have fmt': "format_record env b i = Inr ?s" using fmt s(1) by (simp add: stream_all_append)
  have h: "holds ?s (?t @ [LF])"
    using s(2,3) assms(5) by (auto simp: holds_def write_cells_def nth_append less_Suc_eq)
  have "fb_cells ?s (length (?t @ [LF])) = None"
    using tail s(3) by (simp add: fresh_tail_def write_cells_def holds_def)
  with assms(6) have "fb_cstring ?s = Inl Undefined"
    unfolding fb_cstring_def by (intro fb_cstring_unterminated [OF h]) auto
  with fmt' assms(4) show ?thesis by (simp add: stdout_append_def)
qed

theorem stdout_line_unterminated_witness:
  "stdout_append demo_format_env demo_info demo_base [] = Inl Undefined"
proof -
  let ?its = "[StringFormatItem ''['', LevelFormatItem, StringFormatItem '']'']"
  have t: "kept kSmallBuffer [] (item_args demo_format_env demo_info ?its) = ''[WARN]''"
    by (simp add: item_args_def demo_info_def new_log_info_def kSmallBuffer_def)
  have len: "length (kept kSmallBuffer [] (item_args demo_format_env demo_info ?its)) + 2 \<le> kSmallBuffer"
    and nul: "NUL \<notin> set (kept kSmallBuffer [] (item_args demo_format_env demo_info ?its))"
    unfolding t by (simp_all add: kSmallBuffer_def)
  show ?thesis
    by (rule stdout_line_unterminated [OF _ _ _ _ len nul, of _ demo_formatter])
       (simp_all add: demo_base_def demo_formatter_def printable_def,
        simp add: demo_info_def new_log_info_def less_eq_LogLevel_def)
qed

end
