(* ===== verification/Views.thy ===== *)
theory Views
  imports Calendar
begin

text \<open>
  \<open>haha_web/base/stringView.{h,cpp}\<close>: a view of an array of bytes, its searches and comparisons, and the
  Knuth-Morris-Pratt search.
\<close>

section \<open>Views\<close>

text \<open>
  A view is a pair of pointers into an array; both are positions in \<open>v_mem\<close>. Reading outside the array
  is undefined behaviour, reading behind the end of the view is not.
\<close>

record view =
  v_mem :: string
  v_begin :: int
  v_end :: int

definition view_of :: "string \<Rightarrow> view" where
  "view_of s = \<lparr>v_mem = s, v_begin = 0, v_end = int (length s)\<rparr>"

definition mem_at :: "string \<Rightarrow> int \<Rightarrow> char res" where
  "mem_at m p = (if 0 \<le> p \<and> p < int (length m) then Inr (m ! nat p) else Inl Undefined)"

text \<open>\<open>size()\<close>: the difference of the pointers as a 64-bit unsigned number.\<close>

definition v_size :: "view \<Rightarrow> int" where
  "v_size v = (v_end v - v_begin v) mod 2 ^ 64"

definition v_substr_from :: "int \<Rightarrow> view \<Rightarrow> view res" where
  "v_substr_from pos v =
     (let begin1 = v_begin v + pos
      in if begin1 > v_end v then Inl (Raised Out_of_range) else Inr (v\<lparr>v_begin := begin1\<rparr>))"

definition v_substr :: "int \<Rightarrow> int \<Rightarrow> view \<Rightarrow> view res" where
  "v_substr pos len v =
     (let begin1 = v_begin v + pos; end1 = begin1 + len - 1
      in if begin1 > v_end v then Inl (Raised Out_of_range)
         else if end1 > v_end v then Inl (Raised Out_of_range)
         else Inr (v\<lparr>v_begin := begin1, v_end := end1\<rparr>))"

definition v_remove_prefix :: "int \<Rightarrow> view \<Rightarrow> view" where
  "v_remove_prefix len v = (if len > v_size v then v\<lparr>v_begin := v_end v\<rparr> else v\<lparr>v_begin := v_begin v + len\<rparr>)"

definition v_remove_suffix :: "int \<Rightarrow> view \<Rightarrow> view" where
  "v_remove_suffix len v = (if len > v_size v then v\<lparr>v_end := v_begin v\<rparr> else v\<lparr>v_end := v_end v - len\<rparr>)"

definition v_at :: "view \<Rightarrow> int \<Rightarrow> char res" where
  "v_at v pos =
     (if v_begin v + pos > v_end v then Inl (Raised Out_of_range) else mem_at (v_mem v) (v_begin v + pos))"

text \<open>
  \<open>starts_with(str)\<close> and \<open>starts_with(begin, end)\<close>: the loops run over the text, given by its bytes
  before the NUL or the end, and over the view.
\<close>

fun starts_with_loop :: "string \<Rightarrow> view \<Rightarrow> int \<Rightarrow> bool res" where
  "starts_with_loop [] v i = Inr (\<not> i < v_size v)"
| "starts_with_loop (c # s) v i =
     (if i < v_size v
      then rbind (mem_at (v_mem v) (v_begin v + i)) (\<lambda>d.
             if c = d then starts_with_loop s v (i + 1) else Inr False)
      else Inr True)"

definition v_starts_with :: "string \<Rightarrow> view \<Rightarrow> bool res" where
  "v_starts_with str v = starts_with_loop str v 0"

text \<open>\<open>ends_with(str)\<close>: comparing from the ends of both.\<close>

fun ends_with_loop :: "string \<Rightarrow> view \<Rightarrow> int \<Rightarrow> bool res" where
  "ends_with_loop [] v j = Inr True"
| "ends_with_loop (c # s) v j =
     (if 0 \<le> j
      then rbind (mem_at (v_mem v) (v_begin v + j)) (\<lambda>d.
             if c = d then ends_with_loop s v (j - 1) else Inr False)
      else Inr False)"

definition v_ends_with :: "string \<Rightarrow> view \<Rightarrow> bool res" where
  "v_ends_with str v =
     (if str = [] then Inr True
      else if signed32 (nat (v_size v)) = 0 \<or> signed32 (nat (v_size v)) < int (length str) then Inr False
      else ends_with_loop (rev str) v (signed32 (nat (v_size v)) - 1))"

text \<open>\<open>ends_with(begin, end)\<close> with \<open>begin\<close> not behind \<open>end\<close>: the text between them.\<close>

definition v_ends_with_range :: "string \<Rightarrow> view \<Rightarrow> bool res" where
  "v_ends_with_range str v = (if str = [] then Inr True else Inr False)"

text \<open>Both overloads of \<open>find\<close>: \<open>std::search\<close> gives the end of the view when there is no match.\<close>

definition v_text :: "view \<Rightarrow> string" where
  "v_text v = substr (nat (v_begin v)) (nat (v_end v - v_begin v)) (v_mem v)"

definition v_find :: "string \<Rightarrow> int \<Rightarrow> view \<Rightarrow> int res" where
  "v_find str pos v =
     (if pos \<ge> v_size v then Inl (Raised Out_of_range)
      else Inr (case find_sub str (drop (nat pos) (v_text v)) of
        Some k \<Rightarrow> pos + int k
      | None \<Rightarrow> v_end v - v_begin v))"

section \<open>The Knuth-Morris-Pratt search\<close>

text \<open>
  The table of the pattern. \<open>next[0]\<close> is written without looking at the size of the vector. The loops
  may run forever as far as their text goes, so they are partial functions.
\<close>

definition same_byte :: "view \<Rightarrow> int \<Rightarrow> view \<Rightarrow> int \<Rightarrow> bool res" where
  "same_byte s i t j =
     (if j = -1 then Inr True else rbind (v_at s i) (\<lambda>a. rbind (v_at t j) (\<lambda>b. Inr (a = b))))"

partial_function (option) get_next_loop :: "view \<Rightarrow> int \<Rightarrow> int \<Rightarrow> int list \<Rightarrow> int list res option" where
  "get_next_loop t i j next =
     (if i < signed32 (nat (v_size t)) - 1
      then case same_byte t i t j of
             Inl e \<Rightarrow> Some (Inl e)
           | Inr eq \<Rightarrow>
               if eq
               then if nat (i + 1) < length next
                    then get_next_loop t (i + 1) (j + 1) (next[nat (i + 1) := j + 1])
                    else Some (Inl Undefined)
               else if 0 \<le> j \<and> nat j < length next then get_next_loop t i (next ! nat j) next
               else Some (Inl Undefined)
      else Some (Inr next))"

definition get_next :: "view \<Rightarrow> int list \<Rightarrow> int list res option" where
  "get_next t next = (if next = [] then Some (Inl Undefined) else get_next_loop t 0 (-1) (next[0 := -1]))"

partial_function (option) kmp_loop :: "view \<Rightarrow> view \<Rightarrow> int list \<Rightarrow> int \<Rightarrow> int \<Rightarrow> (int \<times> int) res option" where
  "kmp_loop s t next i j =
     (if j = -1 \<or> (i < signed32 (nat (v_size s)) \<and> j < signed32 (nat (v_size t)))
      then case same_byte s i t j of
             Inl e \<Rightarrow> Some (Inl e)
           | Inr eq \<Rightarrow>
               if eq then kmp_loop s t next (i + 1) (j + 1)
               else if 0 \<le> j \<and> nat j < length next then kmp_loop s t next i (next ! nat j)
               else Some (Inl Undefined)
      else Some (Inr (i, j)))"

definition KMP_search :: "view \<Rightarrow> view \<Rightarrow> int res option" where
  "KMP_search s t =
     (case get_next t (replicate (nat (v_size t)) 0) of
        None \<Rightarrow> None
      | Some (Inl e) \<Rightarrow> Some (Inl e)
      | Some (Inr next) \<Rightarrow>
          (case kmp_loop s t next 0 0 of
             None \<Rightarrow> None
           | Some (Inl e) \<Rightarrow> Some (Inl e)
           | Some (Inr (i, j)) \<Rightarrow> Some (Inr (if j = signed32 (nat (v_size t)) then i - j else -1))))"

section \<open>Views and their texts\<close>

definition view_ok :: "view \<Rightarrow> bool" where
  "view_ok v \<longleftrightarrow> 0 \<le> v_begin v \<and> v_begin v \<le> v_end v \<and> v_end v \<le> int (length (v_mem v)) \<and>
     v_end v - v_begin v < 2 ^ 31"

lemma v_text_length: "view_ok v \<Longrightarrow> int (length (v_text v)) = v_end v - v_begin v"
  by (auto simp: view_ok_def v_text_def substr_def min_def)

lemma v_size_text: "view_ok v \<Longrightarrow> v_size v = int (length (v_text v))"
  using v_text_length [of v] by (simp add: v_size_def view_ok_def)

lemma signed32_small: "n < 2 ^ 31 \<Longrightarrow> signed32 n = int n"
  by (simp add: signed32_def sint_uint unsigned_of_nat take_bit_nat_eq_self signed_take_bit_int_eq_self)

lemma signed32_size: "view_ok v \<Longrightarrow> signed32 (nat (v_size v)) = int (length (v_text v))"
proof -
  assume v: "view_ok v"
  then have "length (v_text v) < 2 ^ 31" using v_text_length [of v] by (simp add: view_ok_def)
  then show ?thesis using signed32_small by (simp add: v_size_text [OF v])
qed

lemma mem_at_text:
  assumes "view_ok v" and "0 \<le> i" and "i < int (length (v_text v))"
  shows "mem_at (v_mem v) (v_begin v + i) = Inr (v_text v ! nat i)"
  using assms v_text_length [OF assms(1)]
  by (simp add: mem_at_def view_ok_def v_text_def substr_def nat_add_distrib)

lemma v_at_text:
  "view_ok v \<Longrightarrow> 0 \<le> i \<Longrightarrow> i < int (length (v_text v)) \<Longrightarrow> v_at v i = Inr (v_text v ! nat i)"
  using v_text_length [of v] by (simp add: v_at_def mem_at_text)

lemma view_of_ok [simp]: "length s < 2 ^ 31 \<Longrightarrow> view_ok (view_of s)" "v_text (view_of s) = s"
  by (simp_all add: view_ok_def view_of_def v_text_def substr_def)

text \<open>
  \<open>starts_with\<close> answers whether the view is a prefix of its argument, not the other way round.
\<close>

lemma starts_with_loop_text:
  assumes "view_ok v" and "0 \<le> i" and "i \<le> int (length (v_text v))"
  shows "starts_with_loop s v i = Inr (take (length (v_text v) - nat i) s = drop (nat i) (v_text v))"
  using assms(2,3)
proof (induction s arbitrary: i)
  case Nil
  then show ?case using v_size_text [OF assms(1)] by auto
next
  case (Cons c s)
  show ?case
  proof (cases "i < int (length (v_text v))")
    case True
    let ?k = "nat i"
    have k: "?k < length (v_text v)" "nat (i + 1) = Suc ?k" using True Cons.prems by auto
    have "take (length (v_text v) - ?k) (c # s) = c # take (length (v_text v) - Suc ?k) s"
      using k(1) by (simp add: take_Cons')
    moreover have "drop ?k (v_text v) = v_text v ! ?k # drop (Suc ?k) (v_text v)"
      using k(1) by (simp add: Cons_nth_drop_Suc)
    ultimately show ?thesis
      using True Cons v_size_text [OF assms(1)] mem_at_text [OF assms(1) Cons.prems(1) True] k by auto
  next
    case False
    then show ?thesis using Cons.prems v_size_text [OF assms(1)] by auto
  qed
qed

lemma starts_with_reversed:
  assumes "view_ok v"
  shows "v_starts_with str v = Inr (prefix (v_text v) str)"
  using starts_with_loop_text [OF assms, of 0 str]
  by (auto simp: v_starts_with_def take_is_prefix prefix_def) (metis append_eq_conv_conj append_take_drop_id)+

text \<open>\<open>substr\<close> with a length gives one byte less than it is asked for.\<close>

lemma substr_one_short:
  assumes "view_ok v" and "0 \<le> pos" and "0 < len" and "pos + len \<le> int (length (v_text v))"
  obtains w where "v_substr pos len v = Inr w" and "v_text w = substr (nat pos) (nat (len - 1)) (v_text v)"
proof
  let ?w = "v\<lparr>v_begin := v_begin v + pos, v_end := v_begin v + pos + len - 1\<rparr>"
  show "v_substr pos len v = Inr ?w"
    using assms v_text_length [OF assms(1)] by (simp add: v_substr_def Let_def)
  define b n where "b = nat (v_begin v)" and "n = nat (v_end v - v_begin v)"
  define p l where "p = nat pos" and "l = nat (len - 1)"
  have "nat (v_begin v + pos) = b + p" "l \<le> n - p"
    using assms v_text_length [OF assms(1)] by (auto simp: b_def p_def l_def n_def view_ok_def nat_add_distrib)
  moreover have "nat (v_begin v + pos + len - 1 - (v_begin v + pos)) = l" by (simp add: l_def)
  ultimately show "v_text ?w = substr (nat pos) (nat (len - 1)) (v_text v)"
    by (simp add: v_text_def substr_def b_def [symmetric] n_def [symmetric] p_def [symmetric] l_def [symmetric]
        drop_take min_def add.commute)
qed

section \<open>Borders\<close>

text \<open>A border of the first \<open>i\<close> bytes of a pattern: a shorter prefix that is also a suffix of them.\<close>

definition border :: "string \<Rightarrow> nat \<Rightarrow> nat \<Rightarrow> bool" where
  "border t i n \<longleftrightarrow> n < i \<and> suffix (take n t) (take i t)"

definition longest :: "string \<Rightarrow> nat \<Rightarrow> nat \<Rightarrow> bool" where
  "longest t i n \<longleftrightarrow> border t i n \<and> (\<forall>m. border t i m \<longrightarrow> m \<le> n)"

definition table_ok :: "string \<Rightarrow> nat \<Rightarrow> int list \<Rightarrow> bool" where
  "table_ok t i next \<longleftrightarrow> length next = length t \<and> next ! 0 = -1 \<and>
     (\<forall>k. 0 < k \<and> k \<le> i \<longrightarrow> (\<exists>n. next ! k = int n \<and> longest t k n))"

lemma suffix_take_Suc:
  assumes "n < length t" and "i < length s"
  shows "suffix (take (Suc n) t) (take (Suc i) s) \<longleftrightarrow> t ! n = s ! i \<and> suffix (take n t) (take i s)"
  using assms by (simp add: take_Suc_conv_app_nth)

lemma border_Suc:
  "i < length t \<Longrightarrow> border t (Suc i) (Suc m) \<longleftrightarrow> m < i \<and> t ! m = t ! i \<and> suffix (take m t) (take i t)"
  by (auto simp: border_def suffix_take_Suc)

lemma border_0: "0 < i \<Longrightarrow> border t i 0"
  by (simp add: border_def)

text \<open>Two prefixes of the pattern that end at the same place: the shorter is a border of the longer.\<close>

lemma border_of_suffixes:
  assumes "suffix (take m t) x" and "suffix (take j t) x" and "m < j" and "j \<le> length t"
  shows "border t j m"
  using suffix_length_suffix [OF assms(1,2)] assms(3,4) by (simp add: border_def)

section \<open>The table\<close>

definition next_inv :: "string \<Rightarrow> nat \<Rightarrow> int \<Rightarrow> int list \<Rightarrow> bool" where
  "next_inv t i j next \<longleftrightarrow> table_ok t i next \<and> i < length t \<and>
     (j = -1 \<or> (0 \<le> j \<and> border t i (nat j))) \<and>
     (\<forall>m. border t (Suc i) (Suc m) \<longrightarrow> int m \<le> j)"

lemma table_ok_extend:
  assumes "table_ok t i next" and "Suc i < length t" and "longest t (Suc i) n"
  shows "table_ok t (Suc i) (next[Suc i := int n])"
  unfolding table_ok_def
proof (intro conjI allI impI)
  show "length (next[Suc i := int n]) = length t" "next[Suc i := int n] ! 0 = -1"
    using assms(1) by (simp_all add: table_ok_def)
  fix k assume k: "0 < k \<and> k \<le> Suc i"
  show "\<exists>m. next[Suc i := int n] ! k = int m \<and> longest t k m"
  proof (cases "k = Suc i")
    case True
    then show ?thesis using assms by (simp add: table_ok_def)
  next
    case False
    then show ?thesis using assms(1) k by (simp add: table_ok_def)
  qed
qed

lemma next_inv_step:
  assumes inv: "next_inv t i j next" and i: "Suc i < length t"
    and eq: "j = -1 \<or> t ! i = t ! nat j"
  shows "next_inv t (Suc i) (j + 1) (next[Suc i := j + 1])"
proof -
  have tab: "table_ok t i next" and j: "j = -1 \<or> (0 \<le> j \<and> border t i (nat j))"
    and max: "\<And>m. border t (Suc i) (Suc m) \<Longrightarrow> int m \<le> j"
    using inv by (simp_all add: next_inv_def)
  have l: "longest t (Suc i) (nat (j + 1))"
    unfolding longest_def
  proof (intro conjI allI impI)
    show "border t (Suc i) (nat (j + 1))"
    proof (cases "j = -1")
      case False
      with j have "nat (j + 1) = Suc (nat j)" "border t i (nat j)" by auto
      with False eq i show ?thesis by (simp add: border_Suc border_def [of t i])
    qed (simp add: border_0)
    fix m assume "border t (Suc i) m"
    then show "m \<le> nat (j + 1)" using max [of "m - 1"] by (cases m) auto
  qed
  have nn: "int (nat (j + 1)) = j + 1" using j by auto
  have "table_ok t (Suc i) (next[Suc i := j + 1])"
    using table_ok_extend [OF tab i l] unfolding nn .
  moreover have "int m \<le> j + 1" if "border t (Suc (Suc i)) (Suc m)" for m
  proof -
    have "border t (Suc i) m" using that i by (simp add: border_Suc border_def [of t "Suc i"])
    then have "m \<le> nat (j + 1)" using l by (simp add: longest_def)
    then show ?thesis using nn by linarith
  qed
  ultimately show ?thesis using i j l by (auto simp: next_inv_def longest_def)
qed

lemma next_inv_fallback:
  assumes inv: "next_inv t i j next" and i: "Suc i < length t" and ne: "j \<noteq> -1" "t ! i \<noteq> t ! nat j"
  shows "0 \<le> j" and "nat j < length next" and "next ! nat j < j" and "next_inv t i (next ! nat j) next"
proof -
  have tab: "table_ok t i next" and j: "0 \<le> j" "border t i (nat j)"
    and max: "\<And>m. border t (Suc i) (Suc m) \<Longrightarrow> int m \<le> j"
    using inv ne(1) by (simp_all add: next_inv_def)
  show "0 \<le> j" by (rule j(1))
  show "nat j < length next" using j(2) i tab by (simp add: border_def table_ok_def)
  have below: "int m \<le> j - 1 \<and> border t i m \<and> (nat j = 0 \<or> border t (nat j) m)"
    if b: "border t (Suc i) (Suc m)" for m
  proof -
    have m: "m < i" "t ! m = t ! i" "suffix (take m t) (take i t)" using b i by (auto simp: border_Suc)
    have "m \<noteq> nat j" using m(2) ne(2) by auto
    with max [OF b] j(1) have lt: "m < nat j" by linarith
    then have "border t (nat j) m"
      using border_of_suffixes [OF m(3), of "nat j"] j(2) i by (simp add: border_def)
    with lt m j(1) show ?thesis by (auto simp: border_def)
  qed
  show lt: "next ! nat j < j" and "next_inv t i (next ! nat j) next"
  proof -
    have goal: "next ! nat j < j \<and> next_inv t i (next ! nat j) next"
    proof (cases "nat j = 0")
      case True
      then have "next ! nat j = -1" using tab by (simp add: table_ok_def)
      moreover have "\<not> border t (Suc i) (Suc m)" for m using below [of m] True by auto
      ultimately show ?thesis using j(1) tab i by (auto simp: next_inv_def)
    next
      case False
      then obtain n where n: "next ! nat j = int n" "longest t (nat j) n"
      proof -
        have "0 < nat j" "nat j \<le> i" using False j(2) by (simp_all add: border_def)
        with tab that show ?thesis unfolding table_ok_def by blast
      qed
      have "border t i n"
        using n(2) j(2) suffix_order.trans by (fastforce simp: longest_def border_def)
      moreover have "int m \<le> int n" if "border t (Suc i) (Suc m)" for m
        using below [OF that] False n(2) by (auto simp: longest_def)
      moreover have "int n < j" using n(2) j(1) by (auto simp: longest_def border_def)
      ultimately show ?thesis using n(1) tab i by (auto simp: next_inv_def)
    qed
    then show "next ! nat j < j" "next_inv t i (next ! nat j) next" by simp_all
  qed
qed

lemma same_byte_text:
  assumes "view_ok s" "view_ok t" "0 \<le> i" "i < int (length (v_text s))" "j = -1 \<or> 0 \<le> j" "j < int (length (v_text t))"
  shows "same_byte s i t j = Inr (j = -1 \<or> v_text s ! nat i = v_text t ! nat j)"
  using assms by (auto simp: same_byte_def v_at_text)

lemma get_next_loop_ok:
  assumes "view_ok t" and "next_inv (v_text t) i j next"
  shows "\<exists>next'. get_next_loop t (int i) j next = Some (Inr next') \<and> table_ok (v_text t) (length (v_text t) - 1) next'"
  using assms(2)
proof (induction "2 * (length (v_text t) - i) + nat (j + 1)" arbitrary: i j "next" rule: less_induct)
  case less
  let ?T = "v_text t"
  note sz = signed32_size [OF assms(1)]
  have i: "i < length ?T" and tab: "table_ok ?T i next" and j: "j = -1 \<or> 0 \<le> j" "nat j < length ?T"
    using less.prems by (auto simp: next_inv_def border_def)
  show ?case
  proof (cases "Suc i < length ?T")
    case True
    have same: "same_byte t (int i) t j = Inr (j = -1 \<or> ?T ! i = ?T ! nat j)"
      using same_byte_text [OF assms(1) assms(1), of "int i" j] i j by auto
    have idx: "nat (int i + 1) = Suc i" "int i + 1 = int (Suc i)" by simp_all
    show ?thesis
    proof (cases "j = -1 \<or> ?T ! i = ?T ! nat j")
      case eq: True
      have "get_next_loop t (int i) j next = get_next_loop t (int (Suc i)) (j + 1) (next[Suc i := j + 1])"
        using True same eq tab
        by (subst get_next_loop.simps) (simp add: sz table_ok_def idx del: of_nat_Suc)
      moreover have "\<exists>next'. get_next_loop t (int (Suc i)) (j + 1) (next[Suc i := j + 1]) = Some (Inr next') \<and>
          table_ok ?T (length ?T - 1) next'"
        by (rule less.hyps [OF _ next_inv_step [OF less.prems True eq]]) (use i j in auto)
      ultimately show ?thesis by simp
    next
      case neq: False
      note fb = next_inv_fallback [OF less.prems True]
      have "get_next_loop t (int i) j next = get_next_loop t (int i) (next ! nat j) next"
        using True same neq fb(1,2) by (subst get_next_loop.simps) (simp add: sz)
      moreover have "\<exists>next'. get_next_loop t (int i) (next ! nat j) next = Some (Inr next') \<and>
          table_ok ?T (length ?T - 1) next'"
        by (rule less.hyps [OF _ fb(4)]) (use neq fb(1,3) in auto)
      ultimately show ?thesis by simp
    qed
  next
    case False
    then have "i = length ?T - 1" using i by linarith
    then show ?thesis using False tab i by (subst get_next_loop.simps) (auto simp: sz)
  qed
qed

lemma get_next_ok:
  assumes "view_ok t" and "v_text t \<noteq> []"
  obtains "next" where "get_next t (replicate (nat (v_size t)) 0) = Some (Inr next)"
    and "table_ok (v_text t) (length (v_text t) - 1) next"
proof -
  let ?next = "(replicate (length (v_text t)) 0)[0 := -1]"
  have "next_inv (v_text t) 0 (-1) ?next"
    using assms(2) by (auto simp: next_inv_def table_ok_def border_Suc)
  from get_next_loop_ok [OF assms(1) this] obtain n where
    "get_next_loop t 0 (-1) ?next = Some (Inr n)" "table_ok (v_text t) (length (v_text t) - 1) n" by auto
  then show ?thesis using assms by (intro that) (auto simp: get_next_def v_size_text)
qed


section \<open>The search\<close>

definition occurs :: "string \<Rightarrow> string \<Rightarrow> nat \<Rightarrow> bool" where
  "occurs t s k \<longleftrightarrow> take (length t) (drop k s) = t"

definition kmp_inv :: "string \<Rightarrow> string \<Rightarrow> nat \<Rightarrow> int \<Rightarrow> bool" where
  "kmp_inv s t i j \<longleftrightarrow> i \<le> length s \<and>
     (j = -1 \<and> i < length s \<or> (0 \<le> j \<and> nat j \<le> length t \<and> suffix (take (nat j) t) (take i s))) \<and>
     (\<forall>k. occurs t s k \<longrightarrow> int i - j \<le> int k)"

lemma occurs_prefix:
  assumes "occurs t s k" and "m \<le> length t"
  shows "take m (drop k s) = take m t"
  using arg_cong [OF assms(1) [unfolded occurs_def], of "take m"] assms(2) by (simp add: min_def)

lemma occurs_nth:
  assumes "occurs t s k" and "m < length t"
  shows "s ! (k + m) = t ! m" and "k + m < length s"
proof -
  have len: "length t \<le> length (drop k s)"
    using arg_cong [OF assms(1) [unfolded occurs_def], of length] by (simp add: min_def split: if_splits)
  then show "k + m < length s" using assms(2) by simp
  have "t ! m = take (length t) (drop k s) ! m" using assms(1) by (simp add: occurs_def)
  also have "\<dots> = s ! (k + m)" using assms(2) len by simp
  finally show "s ! (k + m) = t ! m" by simp
qed

lemma kmp_inv_step:
  assumes inv: "kmp_inv s t i j" and i: "i < length s" and j: "j < int (length t)"
    and eq: "j = -1 \<or> s ! i = t ! nat j"
  shows "kmp_inv s t (Suc i) (j + 1)"
proof (cases "j = -1")
  case True
  then show ?thesis using inv i by (auto simp: kmp_inv_def)
next
  case False
  then have j0: "0 \<le> j" "suffix (take (nat j) t) (take i s)" and n: "nat (j + 1) = Suc (nat j)"
    using inv by (auto simp: kmp_inv_def)
  have "suffix (take (Suc (nat j)) t) (take (Suc i) s)"
    using j0 j i eq False by (subst suffix_take_Suc) auto
  then show ?thesis using inv i j j0(1) n by (auto simp: kmp_inv_def)
qed

lemma kmp_inv_fallback:
  assumes inv: "kmp_inv s t i j" and i: "i < length s" and j: "j < int (length t)"
    and ne: "j \<noteq> -1" "s ! i \<noteq> t ! nat j" and tab: "table_ok t (length t - 1) next"
  shows "0 \<le> j" and "nat j < length next" and "next ! nat j < j" and "-1 \<le> next ! nat j"
    and "kmp_inv s t i (next ! nat j)"
proof -
  have j0: "0 \<le> j" "suffix (take (nat j) t) (take i s)" and min: "\<And>k. occurs t s k \<Longrightarrow> int i - j \<le> int k"
    using inv ne(1) by (auto simp: kmp_inv_def)
  have jt: "nat j < length t" using j j0(1) by simp
  show "0 \<le> j" by (rule j0(1))
  show "nat j < length next" using jt tab by (simp add: table_ok_def)
  have ji: "nat j \<le> i" using suffix_length_le [OF j0(2)] jt i by simp
  have below: "int i - j < int k \<and> (k < i \<longrightarrow> border t (nat j) (i - k))" if occ: "occurs t s k" for k
  proof -
    have "int k \<noteq> int i - j"
    proof
      assume "int k = int i - j"
      then have "k + nat j = i" using j0(1) by linarith
      with occurs_nth(1) [OF occ jt] ne(2) show False by simp
    qed
    then have lt: "int i - j < int k" using min [OF occ] by linarith
    have "border t (nat j) (i - k)" if "k < i"
    proof -
      have m: "i - k < nat j" using lt that j0(1) by linarith
      have "take (i - k) (drop k s) = take (i - k) t"
        by (rule occurs_prefix [OF occ]) (use m jt in linarith)
      moreover have "suffix (take (i - k) (drop k s)) (take i s)"
        using that by (metis take_drop suffix_drop le_add_diff_inverse2 less_imp_le add.commute drop_take)
      ultimately have "suffix (take (i - k) t) (take i s)" by simp
      from border_of_suffixes [OF this j0(2) m] jt show ?thesis by simp
    qed
    with lt show ?thesis by blast
  qed
  have goal: "next ! nat j < j \<and> -1 \<le> next ! nat j \<and> kmp_inv s t i (next ! nat j)"
  proof (cases "nat j = 0")
    case True
    then have "next ! nat j = -1" using tab by (simp add: table_ok_def)
    moreover have "int i + 1 \<le> int k" if "occurs t s k" for k using below [OF that] j0(1) True by simp
    ultimately show ?thesis using j0(1) i by (simp add: kmp_inv_def)
  next
    case False
    obtain n where n: "next ! nat j = int n" "longest t (nat j) n"
    proof -
      have "0 < nat j" "nat j \<le> length t - 1" using False jt by simp_all
      with tab that show ?thesis unfolding table_ok_def by blast
    qed
    have nj: "n < nat j" "suffix (take n t) (take (nat j) t)" using n(2) by (simp_all add: longest_def border_def)
    have "int i - int n \<le> int k" if "occurs t s k" for k
      using below [OF that] n(2) by (cases "k < i") (auto simp: longest_def)
    moreover have "suffix (take n t) (take i s)" using nj(2) j0(2) by (rule suffix_order.trans)
    ultimately show ?thesis using n(1) nj(1) i jt by (simp add: kmp_inv_def)
  qed
  then show "next ! nat j < j" "-1 \<le> next ! nat j" "kmp_inv s t i (next ! nat j)" by simp_all
qed

lemma kmp_loop_ok:
  assumes "view_ok s" and "view_ok t" and "v_text t \<noteq> []" and "table_ok (v_text t) (length (v_text t) - 1) next"
    and "kmp_inv (v_text s) (v_text t) i j"
  shows "\<exists>i' j'. kmp_loop s t next (int i) j = Some (Inr (int i', j')) \<and>
    kmp_inv (v_text s) (v_text t) i' j' \<and> 0 \<le> j' \<and> (i' = length (v_text s) \<or> j' = int (length (v_text t)))"
  using assms(5)
proof (induction "2 * (length (v_text s) - i) + nat (j + 1)" arbitrary: i j rule: less_induct)
  case less
  let ?S = "v_text s" and ?T = "v_text t"
  note sz = signed32_size [OF assms(1)] signed32_size [OF assms(2)]
  have i: "i \<le> length ?S" and j: "j = -1 \<and> i < length ?S \<or> (0 \<le> j \<and> nat j \<le> length ?T)"
    using less.prems by (auto simp: kmp_inv_def)
  have idx: "nat (int i + 1) = Suc i" "int i + 1 = int (Suc i)" by simp_all
  show ?case
  proof (cases "j = -1 \<or> (i < length ?S \<and> j < int (length ?T))")
    case go: True
    then have i': "i < length ?S" and j': "j < int (length ?T)" using j assms(3) by auto
    have same: "same_byte s (int i) t j = Inr (j = -1 \<or> ?S ! i = ?T ! nat j)"
      using same_byte_text [OF assms(1,2), of "int i" j] i' j j' by auto
    show ?thesis
    proof (cases "j = -1 \<or> ?S ! i = ?T ! nat j")
      case eq: True
      have "kmp_loop s t next (int i) j = kmp_loop s t next (int (Suc i)) (j + 1)"
        using go same eq by (subst kmp_loop.simps) (simp add: sz idx del: of_nat_Suc)
      with less.hyps [OF _ kmp_inv_step [OF less.prems i' j' eq]] i' j show ?thesis by auto
    next
      case neq: False
      then have ne: "j \<noteq> -1" "?S ! i \<noteq> ?T ! nat j" by simp_all
      note fb = kmp_inv_fallback [OF less.prems i' j' ne assms(4)]
      have "kmp_loop s t next (int i) j = kmp_loop s t next (int i) (next ! nat j)"
        using go same ne fb(1,2) by (subst kmp_loop.simps) (simp add: sz)
      with less.hyps [OF _ fb(5)] fb(1,3,4) show ?thesis by auto
    qed
  next
    case False
    then have "kmp_loop s t next (int i) j = Some (Inr (int i, j))"
      by (subst kmp_loop.simps) (auto simp: sz)
    then show ?thesis using False less.prems i j by auto
  qed
qed

lemma find_sub_occurs:
  assumes "suffix t (take i s)" and "i \<le> length s"
    and first: "\<And>k. occurs t s k \<Longrightarrow> int i - int (length t) \<le> int k"
  shows "find_sub t s = Some (i - length t)" and "length t \<le> i"
proof -
  obtain zs where zs: "take i s = zs @ t" using assms(1) by (auto simp: suffix_def)
  then have "s = zs @ t @ drop i s" by (metis append.assoc append_take_drop_id)
  then have occ: "occurs t s (length zs)"
    unfolding occurs_def by (metis append_eq_conv_conj)
  have i: "i = length zs + length t" using arg_cong [OF zs, of length] assms(2) by simp
  then show "length t \<le> i" by simp
  have "find_sub t s = Some (length zs)"
  proof (cases "find_sub t s")
    case None
    with occ i assms(2) show ?thesis by (simp add: find_sub_None_iff occurs_def)
  next
    case (Some k)
    have "occurs t s k" using find_sub_Some_take [OF Some] by (simp add: occurs_def)
    then have "length zs \<le> k" using first i by fastforce
    moreover have "\<not> length zs < k" using find_sub_Some_first [OF Some, of "length zs"] occ by (auto simp: occurs_def)
    ultimately show ?thesis using Some by simp
  qed
  with i show "find_sub t s = Some (i - length t)" by simp
qed

text \<open>C19: the Knuth-Morris-Pratt search returns on every pattern that is not empty, reads nothing
  outside the views, and gives the position of the first occurrence, or -1 when there is none.\<close>

theorem KMP_search_correct:
  assumes "view_ok s" and "view_ok t" and "v_text t \<noteq> []"
  shows "KMP_search s t =
    Some (Inr (case find_sub (v_text t) (v_text s) of Some k \<Rightarrow> int k | None \<Rightarrow> -1))"
proof -
  let ?S = "v_text s" and ?T = "v_text t"
  obtain "next" where n: "get_next t (replicate (nat (v_size t)) 0) = Some (Inr next)"
      "table_ok ?T (length ?T - 1) next"
    by (rule get_next_ok [OF assms(2,3)])
  have "kmp_inv ?S ?T 0 0" by (simp add: kmp_inv_def)
  from kmp_loop_ok [OF assms n(2) this] obtain i j where ij: "kmp_loop s t next 0 0 = Some (Inr (int i, j))"
      "kmp_inv ?S ?T i j" "0 \<le> j" "i = length ?S \<or> j = int (length ?T)"
    by auto
  have first: "int i - j \<le> int k" if "occurs ?T ?S k" for k using ij(2) that by (simp add: kmp_inv_def)
  have result: "KMP_search s t = Some (Inr (if j = int (length ?T) then int i - j else -1))"
    using n(1) ij(1) by (simp add: KMP_search_def signed32_size [OF assms(2)])
  show ?thesis
  proof (cases "j = int (length ?T)")
    case True
    then have "suffix ?T (take i ?S)" "i \<le> length ?S" using ij(2) by (auto simp: kmp_inv_def)
    from find_sub_occurs [OF this] first True result show ?thesis by simp
  next
    case False
    then have i: "i = length ?S" "j < int (length ?T)" using ij by (auto simp: kmp_inv_def)
    have "\<not> occurs ?T ?S k" for k
    proof
      assume occ: "occurs ?T ?S k"
      have "k + (length ?T - 1) < length ?S" by (rule occurs_nth(2) [OF occ]) (use assms(3) in simp)
      with first [OF occ] i assms(3) show False by simp
    qed
    then have "find_sub ?T ?S = None" by (simp add: find_sub_None_iff occurs_def)
    with result False show ?thesis by simp
  qed
qed

theorem KMP_search_correct_witness:
  "KMP_search (view_of ''ababac'') (view_of ''abac'') = Some (Inr 2)"
  using KMP_search_correct [of "view_of ''ababac''" "view_of ''abac''"] by simp

end
