(* ===== verification/ThreadPool.thy ===== *)
theory ThreadPool
  imports Prelude
begin

text \<open>
  \<open>haha_web/base/ThreadPool.{h,cpp}\<close> against other threads: the workers, the threads that add tasks and
  the destructor take turns between any two accesses to what they share. \<open>MutexLock\<close> and
  \<open>ConditionVariable\<close> are the POSIX mutex and condition variable they wrap: a lock is taken when nobody
  holds it, a wait gives the lock back and sleeps in one step, a notification wakes one sleeping thread or
  all of them and is lost when nobody sleeps.
\<close>

section \<open>States\<close>

text \<open>
  Where a worker is in \<open>run\<close>: at the outer test, waiting for the lock, at the inner test, behind the inner
  test and about to wait, behind the inner loop (all three with the lock), asleep, woken and waiting for
  the lock, running a task, or returned.
\<close>

datatype 't worker =
    Outer
  | Locking
  | Inner
  | Before_wait
  | After_loop
  | Asleep
  | Woken
  | Working 't
  | Returned

record 't thread_pool =
  tp_tasks :: "'t list"
  tp_running :: bool
  tp_workers :: "'t worker list"
  tp_notify :: nat
  tp_notify_all :: bool
  tp_adding :: "'t list"

text \<open>
  \<open>tp_adding\<close> are the tasks of the calls of \<open>addTask\<close> that have passed the test of \<open>isRunning_\<close> and not yet
  taken the lock, \<open>tp_notify\<close> counts the calls of \<open>notify_one\<close> still to come in \<open>addTask\<close>, \<open>tp_notify_all\<close> says that the
  destructor has cleared \<open>isRunning_\<close> and not yet notified. The state after \<open>start()\<close>:
\<close>

definition started_pool :: "nat \<Rightarrow> 't thread_pool" where
  "started_pool num_thread =
     \<lparr>tp_tasks = [], tp_running = True, tp_workers = replicate num_thread Outer, tp_notify = 0,
      tp_notify_all = False, tp_adding = []\<rparr>"

definition holds_lock :: "'t worker \<Rightarrow> bool" where
  "holds_lock w \<longleftrightarrow> w = Inner \<or> w = Before_wait \<or> w = After_loop"

definition lock_free :: "'t thread_pool \<Rightarrow> bool" where
  "lock_free s \<longleftrightarrow> list_all (\<lambda>w. \<not> holds_lock w) (tp_workers s)"

definition set_worker :: "nat \<Rightarrow> 't worker \<Rightarrow> 't thread_pool \<Rightarrow> 't thread_pool" where
  "set_worker i w s = s\<lparr>tp_workers := (tp_workers s)[i := w]\<rparr>"

datatype 't pool_label = Quiet | Added 't | Started 't | Finished 't

section \<open>Steps\<close>

text \<open>
  The steps of a worker of \<open>run\<close>, of \<open>addTask\<close> (it tests \<open>isRunning_\<close>, adds under the lock and notifies,
  three separate steps), and of the destructor. The first argument says whether a waiting thread may wake up without
  a notification, which POSIX allows.
\<close>

inductive pool_step :: "bool \<Rightarrow> 't thread_pool \<Rightarrow> 't pool_label \<Rightarrow> 't thread_pool \<Rightarrow> bool" for spurious where
  outer_go: "i < length (tp_workers s) \<Longrightarrow> tp_workers s ! i = Outer \<Longrightarrow> tp_running s \<Longrightarrow>
    pool_step spurious s Quiet (set_worker i Locking s)"
| outer_end: "i < length (tp_workers s) \<Longrightarrow> tp_workers s ! i = Outer \<Longrightarrow> \<not> tp_running s \<Longrightarrow>
    pool_step spurious s Quiet (set_worker i Returned s)"
| lock: "i < length (tp_workers s) \<Longrightarrow> tp_workers s ! i = Locking \<or> tp_workers s ! i = Woken \<Longrightarrow> lock_free s \<Longrightarrow>
    pool_step spurious s Quiet (set_worker i Inner s)"
| inner_wait: "i < length (tp_workers s) \<Longrightarrow> tp_workers s ! i = Inner \<Longrightarrow> tp_running s \<Longrightarrow> tp_tasks s = [] \<Longrightarrow>
    pool_step spurious s Quiet (set_worker i Before_wait s)"
| inner_leave: "i < length (tp_workers s) \<Longrightarrow> tp_workers s ! i = Inner \<Longrightarrow> \<not> (tp_running s \<and> tp_tasks s = []) \<Longrightarrow>
    pool_step spurious s Quiet (set_worker i After_loop s)"
| wait: "i < length (tp_workers s) \<Longrightarrow> tp_workers s ! i = Before_wait \<Longrightarrow>
    pool_step spurious s Quiet (set_worker i Asleep s)"
| wake_up: "spurious \<Longrightarrow> i < length (tp_workers s) \<Longrightarrow> tp_workers s ! i = Asleep \<Longrightarrow>
    pool_step spurious s Quiet (set_worker i Woken s)"
| leave: "i < length (tp_workers s) \<Longrightarrow> tp_workers s ! i = After_loop \<Longrightarrow> \<not> tp_running s \<Longrightarrow>
    pool_step spurious s Quiet (set_worker i Returned s)"
| take_task: "i < length (tp_workers s) \<Longrightarrow> tp_workers s ! i = After_loop \<Longrightarrow> tp_running s \<Longrightarrow> tp_tasks s = t # ts \<Longrightarrow>
    pool_step spurious s (Started t) (set_worker i (Working t) (s\<lparr>tp_tasks := ts\<rparr>))"
| finish: "i < length (tp_workers s) \<Longrightarrow> tp_workers s ! i = Working t \<Longrightarrow>
    pool_step spurious s (Finished t) (set_worker i Outer s)"
| add_test: "tp_running s \<Longrightarrow>
    pool_step spurious s Quiet (s\<lparr>tp_adding := t # tp_adding s\<rparr>)"
| add_task: "t \<in> set (tp_adding s) \<Longrightarrow> lock_free s \<Longrightarrow>
    pool_step spurious s (Added t)
      (s\<lparr>tp_adding := remove1 t (tp_adding s), tp_tasks := tp_tasks s @ [t], tp_notify := Suc (tp_notify s)\<rparr>)"
| notify_one: "tp_notify s = Suc n \<Longrightarrow> i < length (tp_workers s) \<Longrightarrow> tp_workers s ! i = Asleep \<Longrightarrow>
    pool_step spurious s Quiet (set_worker i Woken (s\<lparr>tp_notify := n\<rparr>))"
| notify_nobody: "tp_notify s = Suc n \<Longrightarrow> Asleep \<notin> set (tp_workers s) \<Longrightarrow>
    pool_step spurious s Quiet (s\<lparr>tp_notify := n\<rparr>)"
| stop: "tp_running s \<Longrightarrow>
    pool_step spurious s Quiet (s\<lparr>tp_running := False, tp_notify_all := True\<rparr>)"
| notify_all: "tp_notify_all s \<Longrightarrow>
    pool_step spurious s Quiet
      (s\<lparr>tp_workers := map (\<lambda>w. if w = Asleep then Woken else w) (tp_workers s), tp_notify_all := False\<rparr>)"

text \<open>\<open>taskPool_.front()\<close> on an empty queue would be undefined behaviour; \<open>take_task\<close> needs a task.\<close>

definition front_of_empty :: "'t thread_pool \<Rightarrow> bool" where
  "front_of_empty s \<longleftrightarrow> After_loop \<in> set (tp_workers s) \<and> tp_running s \<and> tp_tasks s = []"

inductive pool_run :: "bool \<Rightarrow> nat \<Rightarrow> 't pool_label list \<Rightarrow> 't thread_pool \<Rightarrow> bool" for spurious n where
  pool_init: "pool_run spurious n [] (started_pool n)"
| pool_next: "pool_run spurious n ls s \<Longrightarrow> pool_step spurious s l s' \<Longrightarrow> pool_run spurious n (ls @ [l]) s'"

inductive_cases pool_stepE: "pool_step spurious s l s'"

fun added :: "'t pool_label list \<Rightarrow> 't list" where
  "added [] = []"
| "added (Added t # ls) = t # added ls"
| "added (l # ls) = added ls"

fun started :: "'t pool_label list \<Rightarrow> 't list" where
  "started [] = []"
| "started (Started t # ls) = t # started ls"
| "started (l # ls) = started ls"

section \<open>Invariants\<close>

text \<open>At most one worker holds the lock.\<close>

definition one_holder :: "'t worker list \<Rightarrow> bool" where
  "one_holder ws \<longleftrightarrow>
     (\<forall>i j. i < length ws \<longrightarrow> j < length ws \<longrightarrow> holds_lock (ws ! i) \<longrightarrow> holds_lock (ws ! j) \<longrightarrow> i = j)"

text \<open>A worker that is about to wait has found the queue empty, one
  behind the inner loop has found a task or a stopped pool; workers return only when the pool is stopped.\<close>

definition pool_inv :: "nat \<Rightarrow> 't thread_pool \<Rightarrow> bool" where
  "pool_inv n s \<longleftrightarrow> length (tp_workers s) = n \<and>
     one_holder (tp_workers s) \<and>
     (Before_wait \<in> set (tp_workers s) \<longrightarrow> tp_tasks s = []) \<and>
     (After_loop \<in> set (tp_workers s) \<longrightarrow> \<not> (tp_running s \<and> tp_tasks s = [])) \<and>
     (tp_running s \<longrightarrow> Returned \<notin> set (tp_workers s))"

definition on_its_way :: "'t worker \<Rightarrow> bool" where
  "on_its_way w \<longleftrightarrow> w \<noteq> Asleep \<and> w \<noteq> Before_wait \<and> w \<noteq> Returned"

definition attended :: "'t thread_pool \<Rightarrow> bool" where
  "attended s \<longleftrightarrow> (tp_running s \<and> tp_tasks s \<noteq> [] \<and> tp_notify s = 0 \<longrightarrow> (\<exists>w \<in> set (tp_workers s). on_its_way w))"

lemma nth_update_if: "j < length ws \<Longrightarrow> ws[i := w] ! j = (if i = j then w else ws ! j)"
  by simp

lemma one_holder_release: "one_holder ws \<Longrightarrow> \<not> holds_lock w \<Longrightarrow> one_holder (ws[i := w])"
  by (auto simp: one_holder_def nth_update_if split: if_splits)

lemma one_holder_keep:
  assumes "one_holder ws" and "i < length ws" and "holds_lock (ws ! i)"
  shows "one_holder (ws[i := w])"
  unfolding one_holder_def
proof (intro allI impI)
  fix j k assume "j < length (ws[i := w])" "k < length (ws[i := w])"
    "holds_lock (ws[i := w] ! j)" "holds_lock (ws[i := w] ! k)"
  then have "j = i \<or> j < length ws \<and> holds_lock (ws ! j)" "k = i \<or> k < length ws \<and> holds_lock (ws ! k)"
    by (auto simp: nth_update_if split: if_splits)
  then show "j = k" using assms unfolding one_holder_def by metis
qed

lemma one_holder_take: "list_all (\<lambda>w. \<not> holds_lock w) ws \<Longrightarrow> one_holder (ws[i := w])"
  by (auto simp: one_holder_def list_all_length nth_update_if split: if_splits)

lemma other_holder:
  assumes "one_holder ws" and "i < length ws" and "holds_lock (ws ! i)" and "x \<in> set (ws[i := w])" and "holds_lock x"
  shows "x = w"
proof -
  obtain k where k: "k < length ws" "x = ws[i := w] ! k" using assms(4) by (auto simp: in_set_conv_nth)
  show ?thesis
  proof (cases "k = i")
    case False
    then have "k = i" using k assms unfolding one_holder_def by (metis nth_list_update_neq)
    with False show ?thesis by simp
  qed (use k in simp)
qed


lemma lock_free_one: "lock_free s \<Longrightarrow> list_all (\<lambda>w. \<not> holds_lock w) (tp_workers s)"
  by (simp add: lock_free_def)

lemma lock_free_states:
  "lock_free s \<Longrightarrow> Before_wait \<notin> set (tp_workers s) \<and> After_loop \<notin> set (tp_workers s) \<and> Inner \<notin> set (tp_workers s)"
  by (auto simp: lock_free_def list_all_iff holds_lock_def)

lemma set_update: "x \<in> set (ws[i := w]) \<Longrightarrow> x = w \<or> x \<in> set ws"
  using set_update_subset_insert [of ws i w] by blast

lemma pool_inv_worker:
  assumes inv: "pool_inv n s" and lock: "one_holder ((tp_workers s)[i := w])"
    and b: "w = Before_wait \<Longrightarrow> tp_tasks s = []" and a: "w = After_loop \<Longrightarrow> \<not> (tp_running s \<and> tp_tasks s = [])"
    and r: "w = Returned \<Longrightarrow> \<not> tp_running s"
  shows "pool_inv n (set_worker i w s)"
  using inv lock unfolding pool_inv_def set_worker_def
  by (auto dest!: set_update dest: b a r)

lemma pool_inv_idle:
  assumes "pool_inv n s" and "\<not> holds_lock w" and "w = Returned \<Longrightarrow> \<not> tp_running s"
  shows "pool_inv n (set_worker i w s)"
  using assms one_holder_release [of "tp_workers s" w i]
  by (intro pool_inv_worker) (auto simp: pool_inv_def holds_lock_def)

lemma pool_inv_inside:
  assumes "pool_inv n s" and "lock_free s \<or> i < length (tp_workers s) \<and> holds_lock (tp_workers s ! i)"
    and "w = Before_wait \<Longrightarrow> tp_tasks s = []" and "w = After_loop \<Longrightarrow> \<not> (tp_running s \<and> tp_tasks s = [])"
    and "w \<noteq> Returned"
  shows "pool_inv n (set_worker i w s)"
  using assms one_holder_keep [of "tp_workers s" i w] one_holder_take [OF lock_free_one]
  by (intro pool_inv_worker) (auto simp: pool_inv_def)

lemma pool_inv_step:
  assumes inv: "pool_inv n s" and step: "pool_step spurious s l s'"
  shows "pool_inv n s'"
proof -
  have one: "one_holder (tp_workers s)" using inv by (simp add: pool_inv_def)
  show ?thesis
    using step
  proof cases
    case (take_task i t ts)
    have "x \<noteq> Before_wait \<and> x \<noteq> After_loop" if "x \<in> set ((tp_workers s)[i := Working t])" for x
      using other_holder [OF one take_task(3) _ that] take_task(4) by (auto simp: holds_lock_def)
    then have "Before_wait \<notin> set ((tp_workers s)[i := Working t])" "After_loop \<notin> set ((tp_workers s)[i := Working t])"
      by blast+
    moreover have "one_holder ((tp_workers s)[i := Working t])"
      using one by (rule one_holder_release) (simp add: holds_lock_def)
    ultimately show ?thesis
      using inv take_task unfolding pool_inv_def set_worker_def by (auto dest!: set_update)
  next
    case (add_task t)
    with inv lock_free_states [of s] show ?thesis by (auto simp: pool_inv_def)
  next
    case (notify_one m i)
    have "pool_inv n (set_worker i Woken s)" using inv by (rule pool_inv_idle) (simp_all add: holds_lock_def)
    with notify_one show ?thesis by (simp add: pool_inv_def set_worker_def)
  next
    case notify_all
    have "one_holder (map (\<lambda>w. if w = Asleep then Woken else w) (tp_workers s))"
      using one by (auto simp: one_holder_def holds_lock_def)
    with notify_all inv show ?thesis by (auto simp: pool_inv_def)
  next
    case (inner_wait i)
    then show ?thesis using inv by (auto simp: holds_lock_def intro: pool_inv_inside)
  next
    case (inner_leave i)
    then show ?thesis using inv by (auto simp: holds_lock_def intro: pool_inv_inside)
  next
    case (lock i)
    then show ?thesis using inv by (auto intro: pool_inv_inside)
  next
    case (add_test t)
    with inv show ?thesis by (simp add: pool_inv_def)
  next
    case (notify_nobody m)
    with inv show ?thesis by (simp add: pool_inv_def)
  next
    case stop
    with inv show ?thesis by (simp add: pool_inv_def)
  qed (use inv in \<open>auto simp: holds_lock_def intro: pool_inv_idle\<close>)
qed

lemma pool_run_inv: "pool_run spurious n ls s \<Longrightarrow> pool_inv n s"
proof (induction rule: pool_run.induct)
  case pool_init
  then show ?case by (auto simp: pool_inv_def started_pool_def one_holder_def holds_lock_def)
qed (rule pool_inv_step)

text \<open>Tasks wait in the order in which they were added.\<close>

lemma added_snoc [simp]: "added (ls @ [l]) = added ls @ (case l of Added t \<Rightarrow> [t] | _ \<Rightarrow> [])"
  by (induction ls rule: added.induct) (auto split: pool_label.split)

lemma started_snoc [simp]: "started (ls @ [l]) = started ls @ (case l of Started t \<Rightarrow> [t] | _ \<Rightarrow> [])"
  by (induction ls rule: started.induct) (auto split: pool_label.split)

lemma pool_run_tasks: "pool_run spurious n ls s \<Longrightarrow> added ls = started ls @ tp_tasks s"
proof (induction rule: pool_run.induct)
  case (pool_next ls s l s')
  from pool_next(2) show ?case using pool_next(3) by cases (simp_all add: set_worker_def)
qed (simp add: started_pool_def)

text \<open>Tasks that wait while no notification is on its way are seen by an awake worker.\<close>

lemma attended_awake: "i < length (tp_workers s) \<Longrightarrow> on_its_way w \<Longrightarrow> attended (set_worker i w s)"
  by (auto simp: attended_def set_worker_def intro: set_update_memI)

lemma attended_step:
  assumes inv: "pool_inv n s" and "0 < n" and att: "attended s" and step: "pool_step spurious s l s'"
  shows "attended s'"
  using step
proof cases
  case (outer_end i)
  then show ?thesis by (simp add: attended_def set_worker_def)
next
  case (inner_wait i)
  then show ?thesis by (simp add: attended_def set_worker_def)
next
  case (wait i)
  then have "Before_wait \<in> set (tp_workers s)" by (metis nth_mem)
  with wait inv show ?thesis by (simp add: attended_def set_worker_def pool_inv_def)
next
  case (leave i)
  then show ?thesis by (simp add: attended_def set_worker_def)
next
  case (add_test t)
  with att show ?thesis by (simp add: attended_def)
next
  case (add_task t)
  then show ?thesis by (simp add: attended_def)
next
  case (notify_nobody m)
  have "tp_workers s ! 0 \<in> set (tp_workers s)" using assms(2) inv by (simp add: pool_inv_def)
  moreover have "on_its_way (tp_workers s ! 0)" if "tp_running s" "tp_tasks s \<noteq> []"
    using that notify_nobody inv calculation unfolding pool_inv_def on_its_way_def by metis
  ultimately show ?thesis using notify_nobody by (auto simp: attended_def)
next
  case stop
  then show ?thesis by (simp add: attended_def)
next
  case notify_all
  with att show ?thesis by (auto simp: attended_def on_its_way_def)
qed (simp_all add: attended_awake on_its_way_def)

lemma pool_run_attended: "pool_run spurious n ls s \<Longrightarrow> 0 < n \<Longrightarrow> attended s"
proof (induction rule: pool_run.induct)
  case pool_init
  then show ?case by (simp add: attended_def started_pool_def)
next
  case (pool_next ls s l s')
  then show ?case by (meson attended_step pool_run_inv)
qed

text \<open>C21: whatever the threads do, tasks are started in the order in which they were added, each once;
  no worker takes a task from the empty queue; and while the pool runs, tasks that wait are always
  attended to: a notification is still to come or a worker is awake and on its way to the queue.\<close>

theorem pool_tasks_in_order:
  assumes "pool_run spurious n ls s" and "0 < n"
  shows "added ls = started ls @ tp_tasks s \<and> \<not> front_of_empty s \<and>
    (tp_running s \<and> tp_tasks s \<noteq> [] \<longrightarrow>
       0 < tp_notify s \<or> (\<exists>w \<in> set (tp_workers s). w \<noteq> Asleep \<and> w \<noteq> Before_wait \<and> w \<noteq> Returned))"
  using pool_run_tasks [OF assms(1)] pool_run_inv [OF assms(1)] pool_run_attended [OF assms]
  by (auto simp: front_of_empty_def pool_inv_def attended_def on_its_way_def)


theorem pool_tasks_in_order_witness:
  "\<exists>ls s. pool_run False 1 ls s \<and> tp_tasks s = [7 :: nat] \<and> added ls = started ls @ [7]"
proof -
  let ?s0 = "started_pool 1 :: nat thread_pool"
  let ?s1 = "set_worker 0 Locking ?s0"
  let ?s2 = "?s1\<lparr>tp_adding := 7 # tp_adding ?s1\<rparr>"
  let ?s3 = "?s2\<lparr>tp_adding := remove1 7 (tp_adding ?s2), tp_tasks := tp_tasks ?s2 @ [7],
    tp_notify := Suc (tp_notify ?s2)\<rparr>"
  have "pool_step False ?s0 Quiet ?s1" by (rule outer_go) (simp_all add: started_pool_def)
  then have 1: "pool_run False 1 ([] @ [Quiet]) ?s1" by (rule pool_next [OF pool_init])
  have "pool_step False ?s1 Quiet ?s2"
    by (rule add_test) (simp add: started_pool_def set_worker_def)
  with 1 have 2: "pool_run False 1 (([] @ [Quiet]) @ [Quiet]) ?s2" by (rule pool_next)
  have "pool_step False ?s2 (Added 7) ?s3"
    by (rule add_task) (simp_all add: started_pool_def set_worker_def lock_free_def holds_lock_def)
  with 2 have run: "pool_run False 1 ((([] @ [Quiet]) @ [Quiet]) @ [Added 7]) ?s3" by (rule pool_next)
  have "tp_tasks ?s3 = [7]" by (simp add: set_worker_def started_pool_def)
  moreover have "added ((([] @ [Quiet]) @ [Quiet]) @ [Added 7]) = started ((([] @ [Quiet]) @ [Quiet]) @ [Added 7]) @ [7]"
    using pool_tasks_in_order [OF run] calculation by simp
  ultimately show ?thesis using run by blast
qed

section \<open>The lost wake-up of the destructor\<close>

text \<open>A state in which no step is possible although a worker has not returned: \<open>join\<close> waits for ever.\<close>

definition join_blocked :: "'t thread_pool \<Rightarrow> bool" where
  "join_blocked s \<longleftrightarrow> \<not> tp_running s \<and> (\<exists>w \<in> set (tp_workers s). w \<noteq> Returned) \<and>
     (\<forall>l s'. \<not> pool_step False s l s')"

text \<open>C27: the destructor clears the flag and notifies without the lock: when this happens between
  the inner test and the wait of a worker, the notification is lost, the worker sleeps for ever, and the
  destructor never returns from \<open>join\<close>.\<close>

theorem destructor_can_block:
  "\<exists>ls s. pool_run False 1 ls (s :: 't thread_pool) \<and> join_blocked s"
proof -
  let ?s0 = "started_pool 1 :: 't thread_pool"
  let ?s1 = "set_worker 0 Locking ?s0"
  let ?s2 = "set_worker 0 Inner ?s1"
  let ?s3 = "set_worker 0 Before_wait ?s2"
  let ?s4 = "?s3\<lparr>tp_running := False, tp_notify_all := True\<rparr>"
  let ?s5 = "?s4\<lparr>tp_workers := map (\<lambda>w. if w = Asleep then Woken else w) (tp_workers ?s4), tp_notify_all := False\<rparr>"
  let ?s6 = "set_worker 0 Asleep ?s5"
  note defs = started_pool_def set_worker_def lock_free_def holds_lock_def
  have "pool_step False ?s0 Quiet ?s1" by (rule outer_go) (simp_all add: defs)
  then have "pool_run False 1 ([] @ [Quiet]) ?s1" by (rule pool_next [OF pool_init])
  moreover have "pool_step False ?s1 Quiet ?s2" by (rule lock) (simp_all add: defs)
  ultimately have "pool_run False 1 (([] @ [Quiet]) @ [Quiet]) ?s2" by (rule pool_next)
  moreover have "pool_step False ?s2 Quiet ?s3" by (rule inner_wait) (simp_all add: defs)
  ultimately have "pool_run False 1 ((([] @ [Quiet]) @ [Quiet]) @ [Quiet]) ?s3" by (rule pool_next)
  moreover have "pool_step False ?s3 Quiet ?s4" by (rule stop) (simp_all add: defs)
  ultimately have "pool_run False 1 (((([] @ [Quiet]) @ [Quiet]) @ [Quiet]) @ [Quiet]) ?s4" by (rule pool_next)
  moreover have "pool_step False ?s4 Quiet ?s5" by (rule notify_all) (simp_all add: defs)
  ultimately have "pool_run False 1 ((((([] @ [Quiet]) @ [Quiet]) @ [Quiet]) @ [Quiet]) @ [Quiet]) ?s5"
    by (rule pool_next)
  moreover have "pool_step False ?s5 Quiet ?s6" by (rule wait) (simp_all add: defs)
  ultimately have run: "pool_run False 1 (((((([] @ [Quiet]) @ [Quiet]) @ [Quiet]) @ [Quiet]) @ [Quiet]) @ [Quiet]) ?s6"
    by (rule pool_next)
  have s6: "tp_workers ?s6 = [Asleep]" "tp_running ?s6 = False" "tp_notify ?s6 = 0" "tp_notify_all ?s6 = False"
    "tp_adding ?s6 = []"
    by (simp_all add: defs)
  have "\<not> pool_step False ?s6 l s'" for l s'
  proof
    assume "pool_step False ?s6 l s'"
    then show False using s6 by cases auto
  qed
  then have "join_blocked ?s6" using s6 by (auto simp: join_blocked_def)
  with run show ?thesis by blast
qed


end
