(* ===== verification/NetSocket.thy ===== *)
theory NetSocket
  imports ByteBuffer
begin

text \<open>
  The sending and receiving loops of \<open>haha_web/net/Socket.{h,cpp}\<close> and the file streams of
  \<open>haha_web/base/FileUtil.{h,cpp}\<close>. A socket carries the answers the kernel (or OpenSSL) will give
  to its next calls and the bytes it has put on the wire; a loop that runs out of answers has not
  returned, which is \<open>Diverges\<close>.
\<close>

section \<open>Sockets\<close>

text \<open>How a byte leaves the process: inside the TLS session or in the clear.\<close>

datatype transport = Plain | Tls

record socket =
  sk_fd :: int
  isBlocked :: bool
  sk_ssl :: bool
  sk_errno :: nat
  sk_reads :: "read_answer list"
  sk_writes :: "write_answer list"
  wire :: "(transport \<times> char) list"

definition EAGAIN :: nat where
  "EAGAIN = 11"

definition setNonBlocking :: "socket \<Rightarrow> socket" where
  "setNonBlocking s = s\<lparr>isBlocked := False\<rparr>"

definition transport_of :: "socket \<Rightarrow> transport" where
  "transport_of s = (if sk_ssl s then Tls else Plain)"

definition put_wire :: "transport \<Rightarrow> string \<Rightarrow> socket \<Rightarrow> socket" where
  "put_wire tr bytes s = s\<lparr>wire := wire s @ map (Pair tr) bytes\<rparr>"

text \<open>\<open>errno\<close> changes only when a call fails.\<close>

definition set_errno :: "nat option \<Rightarrow> socket \<Rightarrow> socket" where
  "set_errno e s = (case e of None \<Rightarrow> s | Some n \<Rightarrow> s\<lparr>sk_errno := n\<rparr>)"

text \<open>A write never takes more than it was given.\<close>

fun limit_answer :: "nat \<Rightarrow> write_answer \<Rightarrow> write_answer" where
  "limit_answer n (Written k) = Written (min n k)"
| "limit_answer n (Write_error e) = Write_error e"

text \<open>
  \<open>Socket::recv\<close> and \<open>SslSocket::recv\<close>: the length of the last read, the number of bytes received, the
  socket and the buffer.
\<close>

fun recv_loop :: "read_answer list \<Rightarrow> int \<Rightarrow> socket \<Rightarrow> buffer \<Rightarrow> (int \<times> int \<times> socket \<times> buffer) res" where
  "recv_loop [] received s b = Inl Diverges"
| "recv_loop (a # as) received s b =
     rbind (if sk_ssl s then ReadSsl a b else ReadFd a b) (\<lambda>(len, saveErrno, b').
       let s' = set_errno saveErrno (s\<lparr>sk_reads := as\<rparr>)
       in if len \<le> 0 then Inr (len, received, s', b')
          else if \<not> isBlocked s' then recv_loop as (received + len) s' b'
          else Inr (len, received + len, s', b'))"

definition sock_recv :: "socket \<Rightarrow> buffer \<Rightarrow> (int \<times> int \<times> socket \<times> buffer) res" where
  "sock_recv s b = recv_loop (sk_reads s) 0 s b"

text \<open>\<open>Socket::send\<close> and \<open>SslSocket::send\<close>.\<close>

fun send_loop :: "write_answer list \<Rightarrow> int \<Rightarrow> socket \<Rightarrow> buffer \<Rightarrow> (int \<times> int \<times> socket \<times> buffer) res" where
  "send_loop [] sended s b = Inl Diverges"
| "send_loop (a # as) sended s b =
     (let ans = limit_answer (ReadableBytes b) a;
          (len, saveErrno, b') = (if sk_ssl s then WriteSsl ans b else WriteFd ans b);
          s' = put_wire (transport_of s) (take (nat len) (readable b)) (set_errno saveErrno (s\<lparr>sk_writes := as\<rparr>))
      in if len \<le> 0 then Inr (len, sended, s', b')
         else if \<not> isBlocked s' \<and> ReadableBytes b' \<noteq> 0 then send_loop as (sended + len) s' b'
         else Inr (len, sended + len, s', b'))"

definition sock_send :: "socket \<Rightarrow> buffer \<Rightarrow> (int \<times> int \<times> socket \<times> buffer) res" where
  "sock_send s b = send_loop (sk_writes s) 0 s b"

section \<open>File streams\<close>

datatype send_mod = SENDFILE | MMAP

text \<open>\<open>file_offset\<close> is the offset of the open file, which \<open>sendfile\<close> advances.\<close>

record file_stream =
  file_bytes :: string
  file_offset :: nat
  fs_isBlock :: bool
  fs_mod :: send_mod
  remain_bytes :: nat
  sended_bytes :: nat

text \<open>What the file system has at a path: nothing, a file of some size that cannot be opened, a file.\<close>

datatype file_lookup = No_file | Unreadable nat | Readable string

text \<open>
  The constructor: \<open>file_size\<close> throws when there is no file; when the file cannot be opened the size
  is read from an uninitialised \<open>struct stat\<close>.
\<close>

definition new_file_stream :: "file_lookup \<Rightarrow> bool \<Rightarrow> send_mod \<Rightarrow> file_stream res" where
  "new_file_stream f isBlock md =
     (case f of
        No_file \<Rightarrow> Inl (Raised (Logic_error ''filesystem_error''))
      | Unreadable n \<Rightarrow> Inl Undefined
      | Readable bytes \<Rightarrow> Inr \<lparr>file_bytes = bytes, file_offset = 0, fs_isBlock = isBlock, fs_mod = md,
                               remain_bytes = length bytes, sended_bytes = 0\<rparr>)"

definition fs_sendable :: "file_stream \<Rightarrow> bool" where
  "fs_sendable f \<longleftrightarrow> 0 < remain_bytes f"

text \<open>The bytes the next call hands to the kernel.\<close>

definition fs_next :: "file_stream \<Rightarrow> string" where
  "fs_next f = take (remain_bytes f)
     (drop (case fs_mod f of MMAP \<Rightarrow> sended_bytes f | SENDFILE \<Rightarrow> file_offset f) (file_bytes f))"

text \<open>\<open>FileSendStream::send\<close> writes to the descriptor of the socket, never through its TLS session.\<close>

fun file_send_loop :: "write_answer list \<Rightarrow> int \<Rightarrow> socket \<Rightarrow> file_stream \<Rightarrow> (int \<times> int \<times> socket \<times> file_stream) res" where
  "file_send_loop [] n s f = Inl Diverges"
| "file_send_loop (a # as) n s f =
     (case limit_answer (length (fs_next f)) a of
        Write_error e \<Rightarrow> Inr (- 1, n, set_errno (Some e) (s\<lparr>sk_writes := as\<rparr>), f)
      | Written k \<Rightarrow>
          let s' = put_wire Plain (take k (fs_next f)) (s\<lparr>sk_writes := as\<rparr>);
              f' = f\<lparr>remain_bytes := remain_bytes f - k, sended_bytes := sended_bytes f + k,
                     file_offset := (case fs_mod f of SENDFILE \<Rightarrow> file_offset f + k | MMAP \<Rightarrow> file_offset f)\<rparr>
          in if k = 0 then Inr (0, n, s', f)
             else if fs_sendable f' \<and> \<not> fs_isBlock f' then file_send_loop as (n + int k) s' f'
             else Inr (int k, n + int k, s', f'))"

definition fs_send :: "socket \<Rightarrow> file_stream \<Rightarrow> (int \<times> int \<times> socket \<times> file_stream) res" where
  "fs_send s f = file_send_loop (sk_writes s) 0 s f"

section \<open>What the loops do\<close>

definition wire_bytes :: "socket \<Rightarrow> string" where
  "wire_bytes s = map snd (wire s)"

text \<open>Between two calls the two counters and the offset of a stream agree.\<close>

definition stream_ok :: "file_stream \<Rightarrow> bool" where
  "stream_ok f \<longleftrightarrow> length (file_bytes f) = sended_bytes f + remain_bytes f \<and>
     (fs_mod f = SENDFILE \<longrightarrow> file_offset f = sended_bytes f)"

definition stream_rest :: "file_stream \<Rightarrow> string" where
  "stream_rest f = drop (sended_bytes f) (file_bytes f)"

lemma fs_next_rest: "stream_ok f \<Longrightarrow> fs_next f = stream_rest f"
  by (cases "fs_mod f") (simp_all add: fs_next_def stream_ok_def stream_rest_def)

lemma fs_sendable_rest: "stream_ok f \<Longrightarrow> fs_sendable f \<longleftrightarrow> stream_rest f \<noteq> []"
  by (auto simp: fs_sendable_def stream_ok_def stream_rest_def)

lemma new_file_stream_ok:
  "new_file_stream (Readable bytes) blk md = Inr f \<Longrightarrow> stream_ok f \<and> stream_rest f = bytes"
  by (auto simp: new_file_stream_def stream_ok_def stream_rest_def)

lemma set_errno_sel [simp]:
  "wire (set_errno e s) = wire s" "isBlocked (set_errno e s) = isBlocked s"
  "sk_ssl (set_errno e s) = sk_ssl s" "sk_writes (set_errno e s) = sk_writes s"
  "sk_reads (set_errno e s) = sk_reads s" "sk_fd (set_errno e s) = sk_fd s"
  by (simp_all add: set_errno_def split: option.split)

lemma put_wire_sel [simp]:
  "isBlocked (put_wire tr bs s) = isBlocked s" "sk_ssl (put_wire tr bs s) = sk_ssl s"
  "sk_writes (put_wire tr bs s) = sk_writes s" "sk_reads (put_wire tr bs s) = sk_reads s"
  "sk_fd (put_wire tr bs s) = sk_fd s" "sk_errno (put_wire tr bs s) = sk_errno s"
  "wire (put_wire tr bs s) = wire s @ map (Pair tr) bs"
  by (simp_all add: put_wire_def)

lemma wire_bytes_put [simp]: "wire_bytes (put_wire tr bs s) = wire_bytes s @ bs"
  by (simp add: wire_bytes_def comp_def)

lemma wire_bytes_frame [simp]:
  "wire_bytes (set_errno e s) = wire_bytes s" "wire_bytes (s\<lparr>sk_writes := w\<rparr>) = wire_bytes s"
  "wire_bytes (s\<lparr>sk_reads := r\<rparr>) = wire_bytes s"
  by (simp_all add: wire_bytes_def)

text \<open>A write moves bytes from the buffer to the wire and loses none.\<close>

lemma send_loop_Cons:
  assumes "buf_ok b" "n = min (ReadableBytes b) k" "b1 = b\<lparr>readPos := readPos b + n\<rparr>"
    and "s1 = put_wire (transport_of s) (take n (readable b)) (s\<lparr>sk_writes := as\<rparr>)"
  shows "send_loop (Written k # as) sended s b =
      (if n = 0 then Inr (0, sended, s1, b1)
       else if \<not> isBlocked s1 \<and> ReadableBytes b1 \<noteq> 0 then send_loop as (sended + int n) s1 b1
       else Inr (int n, sended + int n, s1, b1))"
    and "buf_ok b1" "readable b1 = drop n (readable b)" "wire_bytes s1 @ readable b1 = wire_bytes s @ readable b"
proof -
  have n: "n \<le> length (readable b)" using assms(1,2) by simp
  have step: "(if sk_ssl s then WriteSsl (Written n) b else WriteFd (Written n) b) = (int n, None, b1)"
    by (simp add: WriteSsl_def WriteFd_def assms(3))
  show "send_loop (Written k # as) sended s b =
      (if n = 0 then Inr (0, sended, s1, b1)
       else if \<not> isBlocked s1 \<and> ReadableBytes b1 \<noteq> 0 then send_loop as (sended + int n) s1 b1
       else Inr (int n, sended + int n, s1, b1))"
    using step by (simp add: assms(2) [symmetric] assms(4) set_errno_def)
  show "buf_ok b1" and r: "readable b1 = drop n (readable b)"
    using WriteFd_ok [OF assms(1) n] by (simp_all add: assms(3))
  show "wire_bytes s1 @ readable b1 = wire_bytes s @ readable b" by (simp add: assms(4) r)
qed

lemma send_loop_ok:
  "buf_ok b \<Longrightarrow> send_loop as n s b = Inr (len, n', s', b') \<Longrightarrow>
   buf_ok b' \<and> wire_bytes s' @ readable b' = wire_bytes s @ readable b \<and> isBlocked s' = isBlocked s \<and>
   sk_fd s' = sk_fd s \<and> sk_reads s' = sk_reads s \<and> - 1 \<le> len \<and>
   (0 < len \<and> \<not> isBlocked s \<longrightarrow> readable b' = []) \<and> (len < 0 \<longrightarrow> readable b \<noteq> [] \<longrightarrow> readable b' \<noteq> [])"
proof (induction as arbitrary: n s b)
  case (Cons a as)
  show ?case
  proof (cases a)
    case (Write_error e)
    with Cons.prems show ?thesis
      by (cases "sk_ssl s") (auto simp: Let_def WriteSsl_def WriteFd_def)
  next
    case (Written k)
    define m where "m = min (ReadableBytes b) k"
    define b1 where "b1 = b\<lparr>readPos := readPos b + m\<rparr>"
    define s1 where "s1 = put_wire (transport_of s) (take m (readable b)) (s\<lparr>sk_writes := as\<rparr>)"
    note step = send_loop_Cons [OF Cons.prems(1) m_def b1_def s1_def]
    have s1: "isBlocked s1 = isBlocked s" "sk_fd s1 = sk_fd s" "sk_reads s1 = sk_reads s" by (simp_all add: s1_def)
    have emp: "ReadableBytes b1 = 0 \<Longrightarrow> readable b1 = []" using step(2) by (simp add: readable_def)
    show ?thesis
    proof (cases "m \<noteq> 0 \<and> \<not> isBlocked s1 \<and> ReadableBytes b1 \<noteq> 0")
      case True
      then have "send_loop as (n + int m) s1 b1 = Inr (len, n', s', b')"
        using Cons.prems(2) Written step(1) by simp
      moreover have "readable b1 \<noteq> []" using True step(2) by (auto simp flip: length_0_conv)
      ultimately show ?thesis using Cons.IH [OF step(2)] step(4) s1 by auto
    next
      case False
      then have "(len, n', s', b') = (if m = 0 then (0, n, s1, b1) else (int m, n + int m, s1, b1))"
        using Cons.prems(2) Written step(1) by (simp split: if_splits)
      then show ?thesis using False step(2,4) s1 emp by (auto split: if_splits)
    qed
  qed
qed simp

lemma file_send_loop_ok:
  "stream_ok f \<Longrightarrow> file_send_loop as n s f = Inr (len, n', s', f') \<Longrightarrow>
   stream_ok f' \<and> wire_bytes s' @ stream_rest f' = wire_bytes s @ stream_rest f \<and> isBlocked s' = isBlocked s \<and>
   sk_fd s' = sk_fd s \<and> sk_reads s' = sk_reads s \<and> - 1 \<le> len \<and> fs_isBlock f' = fs_isBlock f \<and>
   (0 < len \<and> \<not> fs_isBlock f \<longrightarrow> stream_rest f' = []) \<and> (len < 0 \<longrightarrow> stream_rest f \<noteq> [] \<longrightarrow> stream_rest f' \<noteq> [])"
proof (induction as arbitrary: n s f)
  case (Cons a as)
  show ?case
  proof (cases a)
    case (Write_error e)
    with Cons.prems show ?thesis by auto
  next
    case (Written k)
    define m where "m = min (length (stream_rest f)) k"
    define f1 where "f1 = f\<lparr>remain_bytes := remain_bytes f - m, sended_bytes := sended_bytes f + m,
                     file_offset := (case fs_mod f of SENDFILE \<Rightarrow> file_offset f + m | MMAP \<Rightarrow> file_offset f)\<rparr>"
    define s1 where "s1 = put_wire Plain (take m (stream_rest f)) (s\<lparr>sk_writes := as\<rparr>)"
    have unf: "file_send_loop (a # as) n s f =
        (if m = 0 then Inr (0, n, s1, f)
         else if fs_sendable f1 \<and> \<not> fs_isBlock f1 then file_send_loop as (n + int m) s1 f1
         else Inr (int m, n + int m, s1, f1))"
      unfolding Written file_send_loop.simps fs_next_rest [OF Cons.prems(1)] limit_answer.simps
        m_def [symmetric] write_answer.case Let_def f1_def [symmetric] s1_def [symmetric]
      by (simp add: f1_def)
    have m: "m \<le> remain_bytes f" using Cons.prems(1) by (auto simp: m_def stream_rest_def stream_ok_def)
    then have f1: "stream_ok f1" "stream_rest f1 = drop m (stream_rest f)" "fs_isBlock f1 = fs_isBlock f"
      using Cons.prems(1) by (auto simp: f1_def stream_ok_def stream_rest_def add.commute split: send_mod.split)
    have s1: "isBlocked s1 = isBlocked s" "sk_fd s1 = sk_fd s" "sk_reads s1 = sk_reads s"
        "wire_bytes s1 @ stream_rest f1 = wire_bytes s @ stream_rest f" by (simp_all add: s1_def f1)
    show ?thesis
    proof (cases "m \<noteq> 0 \<and> fs_sendable f1 \<and> \<not> fs_isBlock f1")
      case True
      then have "file_send_loop as (n + int m) s1 f1 = Inr (len, n', s', f')"
        using Cons.prems(2) unf by simp
      moreover have "stream_rest f1 \<noteq> []" using True fs_sendable_rest [OF f1(1)] by simp
      ultimately show ?thesis using Cons.IH [OF f1(1)] s1 f1(3) by auto
    next
      case False
      then have "(len, n', s', f') = (if m = 0 then (0, n, s1, f) else (int m, n + int m, s1, f1))"
        using Cons.prems(2) unf by (simp split: if_splits)
      moreover have "m = 0 \<Longrightarrow> wire_bytes s1 = wire_bytes s" by (simp add: s1_def)
      ultimately show ?thesis using False Cons.prems(1) f1 s1 fs_sendable_rest [OF f1(1)] by (auto split: if_splits)
    qed
  qed
qed simp

text \<open>A read appends what the kernel delivered.\<close>

lemma buf_read_ok:
  assumes "buf_ok b"
  shows "\<exists>b'. (if ssl then ReadSsl (Read_bytes t) b else ReadFd (Read_bytes t) b) = Inr (int (length t), None, b') \<and>
    buf_ok b' \<and> readable b' = readable b @ t"
  using ReadFd_ok [OF assms, of t] Append_ok [OF assms, of t] by (auto simp: ReadSsl_def)

text \<open>The answer that ends the loop of a non-blocking socket.\<close>

fun final_read :: "read_answer \<Rightarrow> bool" where
  "final_read (Read_error e) = True"
| "final_read (Read_bytes t) = (t = [])"

fun read_length :: "read_answer \<Rightarrow> int" where
  "read_length (Read_error e) = - 1"
| "read_length (Read_bytes t) = int (length t)"

fun read_errno :: "read_answer \<Rightarrow> nat option" where
  "read_errno (Read_error e) = Some e"
| "read_errno (Read_bytes t) = None"

lemma recv_loop_all:
  "buf_ok b \<Longrightarrow> \<not> isBlocked s \<Longrightarrow> (\<forall>t \<in> set ts. t \<noteq> []) \<Longrightarrow> final_read a \<Longrightarrow>
   \<exists>b'. recv_loop (map Read_bytes ts @ a # as) n s b =
     Inr (read_length a, n + int (length (concat ts)), set_errno (read_errno a) (s\<lparr>sk_reads := as\<rparr>), b') \<and>
     buf_ok b' \<and> readable b' = readable b @ concat ts"
proof (induction ts arbitrary: n s b)
  case Nil
  show ?case
  proof (cases a)
    case (Read_error e)
    with Nil show ?thesis by (auto simp: ReadSsl_def ReadFd_def Let_def)
  next
    case (Read_bytes t)
    with Nil.prems(4) have t: "t = []" by simp
    obtain b' where "(if sk_ssl s then ReadSsl (Read_bytes []) b else ReadFd (Read_bytes []) b) = Inr (0, None, b')"
        "buf_ok b'" "readable b' = readable b"
      using buf_read_ok [OF Nil.prems(1), of "sk_ssl s" "[]"] by auto
    then show ?thesis using Read_bytes t by (auto simp: Let_def)
  qed
next
  case (Cons t ts)
  obtain b1 where b1: "(if sk_ssl s then ReadSsl (Read_bytes t) b else ReadFd (Read_bytes t) b) = Inr (int (length t), None, b1)"
      "buf_ok b1" "readable b1 = readable b @ t"
    using buf_read_ok [OF Cons.prems(1), of "sk_ssl s" t] by auto
  let ?s = "s\<lparr>sk_reads := map Read_bytes ts @ a # as\<rparr>"
  have "t \<noteq> []" using Cons.prems(3) by simp
  then have "recv_loop (map Read_bytes (t # ts) @ a # as) n s b = recv_loop (map Read_bytes ts @ a # as) (n + int (length t)) ?s b1"
    using b1(1) Cons.prems(2) by (simp add: set_errno_def)
  then show ?case using Cons.IH [of b1 ?s "n + int (length t)"] b1(2,3) Cons.prems by (auto simp: algebra_simps)
qed

lemma recv_loop_frame:
  "recv_loop as n s b = Inr (len, n', s', b') \<Longrightarrow>
   wire s' = wire s \<and> isBlocked s' = isBlocked s \<and> sk_fd s' = sk_fd s \<and> sk_writes s' = sk_writes s \<and> sk_ssl s' = sk_ssl s"
proof (induction as arbitrary: n s b)
  case (Cons a as)
  obtain l e b1 where r: "(if sk_ssl s then ReadSsl a b else ReadFd a b) = Inr (l, e, b1)"
    using Cons.prems by (cases "if sk_ssl s then ReadSsl a b else ReadFd a b") auto
  let ?s = "set_errno e (s\<lparr>sk_reads := as\<rparr>)"
  have "(if l \<le> 0 then Inr (l, n, ?s, b1)
         else if \<not> isBlocked ?s then recv_loop as (n + l) ?s b1 else Inr (l, n + l, ?s, b1)) = Inr (len, n', s', b')"
    using Cons.prems unfolding recv_loop.simps r by (simp add: Let_def)
  then show ?case using Cons.IH [of "n + l" ?s b1] by (auto split: if_splits)
qed simp

text \<open>Everything a file stream sends is sent in the clear.\<close>

lemma file_send_loop_plain:
  "file_send_loop as n s f = Inr (len, n', s', f') \<Longrightarrow> \<exists>bs. wire s' = wire s @ map (Pair Plain) bs"
proof (induction as arbitrary: n s f)
  case (Cons a as)
  show ?case
  proof (cases a)
    case (Write_error e)
    with Cons.prems show ?thesis by (intro exI [of _ "[]"]) auto
  next
    case (Written k)
    define m where "m = min (length (fs_next f)) k"
    define s1 where "s1 = put_wire Plain (take m (fs_next f)) (s\<lparr>sk_writes := as\<rparr>)"
    have w: "wire s1 = wire s @ map (Pair Plain) (take m (fs_next f))" by (simp add: s1_def)
    have "s' = s1 \<or> (\<exists>n1 f1. file_send_loop as n1 s1 f1 = Inr (len, n', s', f'))"
      using Cons.prems unfolding Written file_send_loop.simps limit_answer.simps
        m_def [symmetric] write_answer.case Let_def s1_def [symmetric]
      by (auto split: if_splits)
    then show ?thesis using w Cons.IH [of _ s1] by (metis append.assoc map_append)
  qed
qed simp

text \<open>When the kernel takes at least a byte each time, the loops come to an end.\<close>

definition taking :: "write_answer \<Rightarrow> bool" where
  "taking a \<longleftrightarrow> (case a of Written k \<Rightarrow> 0 < k | Write_error e \<Rightarrow> False)"

lemma send_loop_progress:
  "buf_ok b \<Longrightarrow> \<not> isBlocked s \<Longrightarrow> readable b \<noteq> [] \<Longrightarrow> (\<forall>a \<in> set as. taking a) \<Longrightarrow> length (readable b) \<le> length as \<Longrightarrow>
   \<exists>len n' s' b'. send_loop as n s b = Inr (len, n', s', b') \<and> 0 < len \<and> set (sk_writes s') \<subseteq> set as \<and>
     length as \<le> length (sk_writes s') + length (readable b)"
proof (induction as arbitrary: n s b)
  case (Cons a as)
  obtain k where k: "a = Written k" "0 < k" using Cons.prems(4) by (cases a) (auto simp: taking_def)
  define m where "m = min (ReadableBytes b) k"
  define b1 where "b1 = b\<lparr>readPos := readPos b + m\<rparr>"
  define s1 where "s1 = put_wire (transport_of s) (take m (readable b)) (s\<lparr>sk_writes := as\<rparr>)"
  note step = send_loop_Cons [OF Cons.prems(1) m_def b1_def s1_def]
  have m: "0 < m" "m \<le> length (readable b)" using k(2) Cons.prems(1,3) by (auto simp: m_def simp flip: length_readable)
  show ?case
  proof (cases "\<not> isBlocked s1 \<and> ReadableBytes b1 \<noteq> 0")
    case True
    have "readable b1 \<noteq> []" using True step(2) by (auto simp flip: length_0_conv)
    moreover have "length (readable b1) \<le> length as" using step(3) m Cons.prems(5) by simp
    ultimately obtain len n' s' b' where "send_loop as (n + int m) s1 b1 = Inr (len, n', s', b')" "0 < len"
        "set (sk_writes s') \<subseteq> set as" "length as \<le> length (sk_writes s') + length (readable b1)"
      using Cons.IH [OF step(2), of s1 "n + int m"] Cons.prems by (auto simp: s1_def)
    then show ?thesis using True m step(1) [of n] step(3) k(1) by auto
  next
    case False
    then show ?thesis using m step(1) [of n] k(1) by (auto simp: s1_def)
  qed
qed (auto simp flip: length_0_conv)

lemma file_send_loop_progress:
  "stream_ok f \<Longrightarrow> \<not> fs_isBlock f \<Longrightarrow> stream_rest f \<noteq> [] \<Longrightarrow> (\<forall>a \<in> set as. taking a) \<Longrightarrow> length (stream_rest f) \<le> length as \<Longrightarrow>
   \<exists>len n' s' f'. file_send_loop as n s f = Inr (len, n', s', f') \<and> 0 < len"
proof (induction as arbitrary: n s f)
  case (Cons a as)
  obtain k where k: "a = Written k" "0 < k" using Cons.prems(4) by (cases a) (auto simp: taking_def)
  define m where "m = min (length (stream_rest f)) k"
  define f1 where "f1 = f\<lparr>remain_bytes := remain_bytes f - m, sended_bytes := sended_bytes f + m,
                   file_offset := (case fs_mod f of SENDFILE \<Rightarrow> file_offset f + m | MMAP \<Rightarrow> file_offset f)\<rparr>"
  define s1 where "s1 = put_wire Plain (take m (stream_rest f)) (s\<lparr>sk_writes := as\<rparr>)"
  have m: "0 < m" "m \<le> remain_bytes f" "m \<le> length (stream_rest f)"
    using k(2) Cons.prems(1,3) by (auto simp: m_def stream_rest_def stream_ok_def)
  have unf: "file_send_loop (a # as) n s f =
      (if fs_sendable f1 \<and> \<not> fs_isBlock f1 then file_send_loop as (n + int m) s1 f1
       else Inr (int m, n + int m, s1, f1))"
    unfolding k(1) file_send_loop.simps fs_next_rest [OF Cons.prems(1)] limit_answer.simps
      m_def [symmetric] write_answer.case Let_def f1_def [symmetric] s1_def [symmetric]
    using m by simp
  have f1: "stream_ok f1" "stream_rest f1 = drop m (stream_rest f)" "fs_isBlock f1 = fs_isBlock f"
    using Cons.prems(1) m by (auto simp: f1_def stream_ok_def stream_rest_def add.commute split: send_mod.split)
  show ?case
  proof (cases "fs_sendable f1")
    case True
    then have "stream_rest f1 \<noteq> []" using fs_sendable_rest [OF f1(1)] by simp
    then show ?thesis using Cons.IH [OF f1(1), of "n + int m" s1] Cons.prems f1 m True unf by auto
  next
    case False
    then show ?thesis using unf m by simp
  qed
qed simp

end
