(* ===== verification/TcpConnection.thy ===== *)
theory TcpConnection
  imports NetSocket
begin

text \<open>
  \<open>haha_web/net/TcpConnection.{h,cpp}\<close>: a connection with its socket, its two buffers, the file it
  is sending and the channel it is registered with. The contexts are a type parameter.
\<close>

section \<open>State and operations\<close>

datatype status_type = S_AGAIN | S_COMPLETED | S_ERROR | S_CLOSED

record status =
  st_n :: int
  st_errorNo :: nat
  st_type :: status_type

text \<open>Of a channel a connection uses the events it asks for and the loop it belongs to.\<close>

record channel =
  ch_fd :: int
  ch_events :: nat
  ch_loop :: nat

record 'ctx connection =
  sock :: socket
  recver :: buffer
  sender :: buffer
  fileSender :: "file_stream option"
  conn_channel :: "channel option"
  disconnected :: bool
  keepAlive :: bool
  conn_context :: "'ctx option"

definition new_connection :: "socket \<Rightarrow> 'ctx connection" where
  "new_connection s = \<lparr>sock = s, recver = new_buffer kInitialSize, sender = new_buffer kInitialSize,
     fileSender = None, conn_channel = None, disconnected = False, keepAlive = False, conn_context = None\<rparr>"

definition getFd :: "'ctx connection \<Rightarrow> int" where
  "getFd c = sk_fd (sock c)"

definition conn_sendable :: "'ctx connection \<Rightarrow> bool" where
  "conn_sendable c =
     (case fileSender c of
        Some f \<Rightarrow> fs_sendable f \<or> ReadableBytes (sender c) \<noteq> 0
      | None \<Rightarrow> ReadableBytes (sender c) \<noteq> 0)"

definition retriveRecver :: "'ctx connection \<Rightarrow> 'ctx connection" where
  "retriveRecver c = c\<lparr>recver := RetrieveAll (recver c)\<rparr>"

definition retriveSender :: "'ctx connection \<Rightarrow> 'ctx connection" where
  "retriveSender c = c\<lparr>sender := RetrieveAll (sender c)\<rparr>"

definition retriveAll :: "'ctx connection \<Rightarrow> 'ctx connection" where
  "retriveAll c = retriveSender (retriveRecver c)"

definition conn_close :: "'ctx connection \<Rightarrow> 'ctx connection" where
  "conn_close c = c\<lparr>disconnected := True, conn_channel := None\<rparr>"

definition setFileStream :: "file_lookup \<Rightarrow> 'ctx connection \<Rightarrow> 'ctx connection res" where
  "setFileStream file c =
     rbind (new_file_stream file (isBlocked (sock c)) SENDFILE) (\<lambda>f. Inr (c\<lparr>fileSender := Some f\<rparr>))"

text \<open>\<open>setEvents\<close> goes through the channel, which a closed connection no longer has.\<close>

definition conn_setEvents :: "nat \<Rightarrow> 'ctx connection \<Rightarrow> 'ctx connection res" where
  "conn_setEvents ev c =
     (case conn_channel c of
        None \<Rightarrow> Inl Undefined
      | Some ch \<Rightarrow> Inr (c\<lparr>conn_channel := Some (ch\<lparr>ch_events := ev\<rparr>)\<rparr>))"

text \<open>The classification of the last result of a receive, in the order of the tests.\<close>

definition recv_status :: "int \<Rightarrow> nat \<Rightarrow> status_type" where
  "recv_status len errno =
     (if 0 < len then S_AGAIN
      else if len < 0 \<and> errno = EAGAIN then S_AGAIN
      else if len = 0 then S_CLOSED
      else S_ERROR)"

definition conn_recv :: "'ctx connection \<Rightarrow> (status \<times> 'ctx connection) res" where
  "conn_recv c =
     rbind (sock_recv (sock c) (recver c)) (\<lambda>(len, recvBytes, s, b).
       Inr (\<lparr>st_n = recvBytes, st_errorNo = sk_errno s, st_type = recv_status len (sk_errno s)\<rparr>,
            c\<lparr>sock := s, recver := b\<rparr>))"

definition send_status :: "int \<Rightarrow> nat \<Rightarrow> bool \<Rightarrow> status_type" where
  "send_status len errno unsent =
     (if 0 < len \<and> \<not> unsent then S_COMPLETED
      else if len < 0 \<and> errno = EAGAIN \<and> unsent then S_AGAIN
      else if len = 0 then S_CLOSED
      else S_ERROR)"

text \<open>The value of \<open>len\<close> before any call.\<close>

definition no_call :: int where
  "no_call = - 10086"

text \<open>The first half: what is in the buffer.\<close>

definition send_buffered :: "'ctx connection \<Rightarrow> (int \<times> int \<times> 'ctx connection) res" where
  "send_buffered c =
     (if 0 < ReadableBytes (sender c)
      then rbind (sock_send (sock c) (sender c)) (\<lambda>(len, n, s, b). Inr (len, n, c\<lparr>sock := s, sender := b\<rparr>))
      else Inr (no_call, 0, c))"

text \<open>The second half: the file, once the buffer is empty and the last write did not fail.\<close>

definition send_file :: "int \<Rightarrow> int \<Rightarrow> 'ctx connection \<Rightarrow> (int \<times> int \<times> 'ctx connection) res" where
  "send_file len n c =
     (case fileSender c of
        Some f \<Rightarrow>
          if fs_sendable f \<and> ReadableBytes (sender c) = 0 \<and> (0 < len \<or> len = no_call)
          then rbind (fs_send (sock c) f) (\<lambda>(len', n', s, f').
                 Inr (len', n', c\<lparr>sock := s, fileSender := Some f'\<rparr>))
          else Inr (len, n, c)
      | None \<Rightarrow> Inr (len, n, c))"

definition conn_send :: "'ctx connection \<Rightarrow> (status \<times> 'ctx connection) res" where
  "conn_send c =
     rbind (send_buffered c) (\<lambda>(len, n, c1).
       rbind (send_file len n c1) (\<lambda>(len', n', c2).
         Inr (\<lparr>st_n = n', st_errorNo = sk_errno (sock c2),
               st_type = send_status len' (sk_errno (sock c2)) (conn_sendable c2)\<rparr>, c2)))"

section \<open>Behaviour\<close>

text \<open>A connection of the server: a non-blocking socket, sound buffers, a sound stream.\<close>

definition conn_ok :: "'ctx connection \<Rightarrow> bool" where
  "conn_ok c \<longleftrightarrow> \<not> isBlocked (sock c) \<and> buf_ok (recver c) \<and> buf_ok (sender c) \<and>
     (\<forall>f. fileSender c = Some f \<longrightarrow> stream_ok f \<and> \<not> fs_isBlock f)"

text \<open>What is still to be sent, and what has been.\<close>

definition file_rest :: "'ctx connection \<Rightarrow> string" where
  "file_rest c = (case fileSender c of None \<Rightarrow> [] | Some f \<Rightarrow> stream_rest f)"

definition pending :: "'ctx connection \<Rightarrow> string" where
  "pending c = readable (sender c) @ file_rest c"

definition sent :: "'ctx connection \<Rightarrow> string" where
  "sent c = wire_bytes (sock c)"

lemma readable_empty: "buf_ok b \<Longrightarrow> readable b = [] \<longleftrightarrow> ReadableBytes b = 0"
  using length_readable [of b] by (cases "readable b") auto

lemma conn_sendable_pending: "conn_ok c \<Longrightarrow> conn_sendable c \<longleftrightarrow> pending c \<noteq> []"
  by (auto simp: conn_ok_def conn_sendable_def pending_def file_rest_def readable_empty fs_sendable_rest
      split: option.split)

lemma new_connection_ok: "\<not> isBlocked s \<Longrightarrow> conn_ok (new_connection s)"
  by (simp add: conn_ok_def new_connection_def)

lemma send_buffered_ok:
  assumes "conn_ok c" "send_buffered c = Inr (len, n, c')"
  shows "conn_ok c'" "sent c' @ pending c' = sent c @ pending c" "fileSender c' = fileSender c"
    and "len = no_call \<and> c' = c \<and> readable (sender c) = [] \<or> - 1 \<le> len \<and> readable (sender c) \<noteq> [] \<and>
      (0 < len \<longrightarrow> readable (sender c') = []) \<and> (len < 0 \<longrightarrow> readable (sender c') \<noteq> [])"
proof -
  have "conn_ok c' \<and> sent c' @ pending c' = sent c @ pending c \<and> fileSender c' = fileSender c \<and>
    (len = no_call \<and> c' = c \<and> readable (sender c) = [] \<or> - 1 \<le> len \<and> readable (sender c) \<noteq> [] \<and>
      (0 < len \<longrightarrow> readable (sender c') = []) \<and> (len < 0 \<longrightarrow> readable (sender c') \<noteq> []))"
  proof (cases "0 < ReadableBytes (sender c)")
    case False
    with assms show ?thesis by (auto simp: send_buffered_def conn_ok_def readable_empty)
  next
    case True
    then obtain s b where r: "send_loop (sk_writes (sock c)) 0 (sock c) (sender c) = Inr (len, n, s, b)"
        and c': "c' = c\<lparr>sock := s, sender := b\<rparr>"
      using assms(2) by (auto simp: send_buffered_def sock_send_def rbind_Inr_conv)
    have ok: "buf_ok (sender c)" "\<not> isBlocked (sock c)" using assms(1) by (simp_all add: conn_ok_def)
    have ne: "readable (sender c) \<noteq> []" using True ok(1) by (simp add: readable_empty)
    show ?thesis
      using send_loop_ok [OF ok(1) r] ok(2) ne assms(1) unfolding c'
      by (auto simp: conn_ok_def sent_def pending_def file_rest_def)
  qed
  then show "conn_ok c'" "sent c' @ pending c' = sent c @ pending c" "fileSender c' = fileSender c"
    "len = no_call \<and> c' = c \<and> readable (sender c) = [] \<or> - 1 \<le> len \<and> readable (sender c) \<noteq> [] \<and>
      (0 < len \<longrightarrow> readable (sender c') = []) \<and> (len < 0 \<longrightarrow> readable (sender c') \<noteq> [])" by blast+
qed

lemma send_file_ok:
  assumes "conn_ok c" "send_file len n c = Inr (len', n', c')"
  shows "conn_ok c' \<and> sent c' @ pending c' = sent c @ pending c \<and>
    (len' = len \<and> c' = c \<and> (file_rest c = [] \<or> readable (sender c) \<noteq> [] \<or> len \<le> 0 \<and> len \<noteq> no_call) \<or>
     readable (sender c') = [] \<and> - 1 \<le> len' \<and> (0 < len' \<longrightarrow> pending c' = []) \<and> (len' < 0 \<longrightarrow> pending c' \<noteq> []))"
proof (cases "fileSender c")
  case None
  with assms show ?thesis by (auto simp: send_file_def file_rest_def)
next
  case (Some f)
  have ok: "stream_ok f" "\<not> fs_isBlock f" "buf_ok (sender c)" using assms(1) Some by (simp_all add: conn_ok_def)
  show ?thesis
  proof (cases "fs_sendable f \<and> ReadableBytes (sender c) = 0 \<and> (0 < len \<or> len = no_call)")
    case False
    then have "c' = c" "len' = len" using assms(2) Some by (simp_all add: send_file_def split: if_splits)
    then show ?thesis using False assms(1) Some ok fs_sendable_rest [OF ok(1)]
      by (auto simp: file_rest_def readable_empty)
  next
    case True
    then obtain s f' where r: "file_send_loop (sk_writes (sock c)) 0 (sock c) f = Inr (len', n', s, f')"
        and c': "c' = c\<lparr>sock := s, fileSender := Some f'\<rparr>"
      using assms(2) Some by (auto simp: send_file_def fs_send_def rbind_Inr_conv)
    have e: "readable (sender c) = []" using True ok by (simp add: readable_empty)
    have "stream_rest f \<noteq> []" using True fs_sendable_rest [OF ok(1)] by simp
    then show ?thesis using file_send_loop_ok [OF ok(1) r] ok e assms(1) Some unfolding c'
      by (auto simp: conn_ok_def sent_def pending_def file_rest_def)
  qed
qed

text \<open>What a send leaves, for the theorems below.\<close>

lemma conn_send_ok:
  assumes "conn_ok c" "conn_send c = Inr (st, c')"
  shows "conn_ok c'" "sent c' @ pending c' = sent c @ pending c"
    and "st_type st = S_COMPLETED \<longrightarrow> pending c' = []" "st_type st = S_AGAIN \<longrightarrow> pending c' \<noteq> []"
proof -
  obtain len n c1 len' n' where b: "send_buffered c = Inr (len, n, c1)"
      and f: "send_file len n c1 = Inr (len', n', c')"
      and st: "st_type st = send_status len' (sk_errno (sock c')) (conn_sendable c')"
    using assms(2) by (auto simp: conn_send_def rbind_Inr_conv)
  note c1 = send_buffered_ok [OF assms(1) b]
  note c2 = send_file_ok [OF c1(1) f]
  show ok: "conn_ok c'" and "sent c' @ pending c' = sent c @ pending c" using c1 c2 by auto
  show "st_type st = S_COMPLETED \<longrightarrow> pending c' = []" "st_type st = S_AGAIN \<longrightarrow> pending c' \<noteq> []"
    using st conn_sendable_pending [OF ok] by (auto simp: send_status_def split: if_splits)
qed

text \<open>Sending again for as long as the answer is \<open>AGAIN\<close>, which is what the server does.\<close>

fun send_rounds :: "nat \<Rightarrow> 'ctx connection \<Rightarrow> (status_type \<times> 'ctx connection) res" where
  "send_rounds 0 c = Inr (S_AGAIN, c)"
| "send_rounds (Suc k) c =
     rbind (conn_send c) (\<lambda>(st, c'). if st_type st = S_AGAIN then send_rounds k c' else Inr (st_type st, c'))"

lemma send_rounds_ok:
  "conn_ok c \<Longrightarrow> send_rounds k c = Inr (t, c') \<Longrightarrow>
   conn_ok c' \<and> sent c' @ pending c' = sent c @ pending c \<and> (t = S_COMPLETED \<longrightarrow> pending c' = [])"
proof (induction k arbitrary: c)
  case (Suc k)
  then obtain st c1 where s: "conn_send c = Inr (st, c1)"
      "(if st_type st = S_AGAIN then send_rounds k c1 else Inr (st_type st, c1)) = Inr (t, c')"
    by (auto simp: rbind_Inr_conv)
  note c1 = conn_send_ok [OF Suc.prems(1) s(1)]
  show ?case using s(2) Suc.IH [OF c1(1)] c1 by (auto split: if_splits)
qed simp

text \<open>C18: however the kernel cuts the output into pieces and however often the server has to try
  again, the bytes on the wire and the bytes still to send are at every moment those that were there at
  the beginning: first the buffer, then the file, each byte once and in order. When the status is
  \<open>COMPLETED\<close> all of them are on the wire.\<close>

theorem send_delivers_in_order:
  assumes "conn_ok c" "send_rounds k c = Inr (t, c')"
  shows "sent c' @ pending c' = sent c @ pending c \<and> (t = S_COMPLETED \<longrightarrow> sent c' = sent c @ readable (sender c) @ file_rest c)"
  using send_rounds_ok [OF assms] by (auto simp: pending_def)

text \<open>A connection on which \<open>Hi\<close> waits and whose kernel takes one byte at a time.\<close>

definition slow_socket :: socket where
  "slow_socket = \<lparr>sk_fd = 7, isBlocked = False, sk_ssl = False, sk_errno = 0, sk_reads = [],
     sk_writes = [Written 1, Write_error EAGAIN, Written 1], wire = []\<rparr>"

definition slow_connection :: "unit connection" where
  "slow_connection = (new_connection slow_socket)
     \<lparr>sender := \<lparr>buf_vec = ''Hi'', readPos = 0, writePos = 2\<rparr>\<rparr>"

lemma slow_ok: "conn_ok slow_connection"
  by (simp add: conn_ok_def slow_connection_def slow_socket_def new_connection_def buf_ok_def new_buffer_def)

lemma slow_rounds: "\<exists>c'. send_rounds 2 slow_connection = Inr (S_COMPLETED, c')"
  by (simp add: numeral_2_eq_2 conn_send_def send_buffered_def send_file_def sock_send_def slow_connection_def
      slow_socket_def new_connection_def ReadableBytes_def WriteFd_def set_errno_def put_wire_def
      send_status_def conn_sendable_def EAGAIN_def)

lemma send_delivers_in_order_witness:
  "\<exists>c'. send_rounds 2 slow_connection = Inr (S_COMPLETED, c') \<and> sent c' = ''Hi''"
proof -
  obtain c' where r: "send_rounds 2 slow_connection = Inr (S_COMPLETED, c')" using slow_rounds by blast
  have "sent c' = sent slow_connection @ readable (sender slow_connection) @ file_rest slow_connection"
    using send_delivers_in_order [OF slow_ok r] by blast
  then have "sent c' = ''Hi''"
    by (simp add: slow_connection_def slow_socket_def new_connection_def sent_def wire_bytes_def readable_def
        ReadableBytes_def file_rest_def)
  with r show ?thesis by blast
qed

text \<open>When the kernel takes something every time, the buffer and then the file are sent completely.\<close>

lemma send_buffered_progress:
  assumes "conn_ok c" "\<forall>a \<in> set (sk_writes (sock c)). taking a" "length (pending c) \<le> length (sk_writes (sock c))"
  shows "\<exists>len n c1. send_buffered c = Inr (len, n, c1) \<and> (0 < len \<or> len = no_call) \<and>
      (\<forall>a \<in> set (sk_writes (sock c1)). taking a) \<and> length (file_rest c) \<le> length (sk_writes (sock c1)) \<and>
      (len = no_call \<longrightarrow> readable (sender c) = [])"
proof (cases "readable (sender c) = []")
  case True
  then have "send_buffered c = Inr (no_call, 0, c)"
    using assms(1) by (simp add: send_buffered_def readable_empty conn_ok_def)
  then show ?thesis using assms(2,3) True by (simp add: pending_def)
next
  case False
  have ok: "buf_ok (sender c)" "\<not> isBlocked (sock c)" using assms(1) by (simp_all add: conn_ok_def)
  obtain len n s b where r: "send_loop (sk_writes (sock c)) 0 (sock c) (sender c) = Inr (len, n, s, b)" "0 < len"
      "set (sk_writes s) \<subseteq> set (sk_writes (sock c))"
      "length (sk_writes (sock c)) \<le> length (sk_writes s) + length (readable (sender c))"
    using send_loop_progress [OF ok False assms(2), of 0] assms(3) by (auto simp: pending_def)
  have "send_buffered c = Inr (len, n, c\<lparr>sock := s, sender := b\<rparr>)"
    using r(1) False ok by (simp add: send_buffered_def sock_send_def readable_empty)
  moreover have "length (file_rest c) \<le> length (sk_writes s)"
    using r(4) assms(3) by (simp add: pending_def)
  moreover have "\<forall>a \<in> set (sk_writes s). taking a" using r(3) assms(2) by blast
  ultimately show ?thesis using r(2) by (auto simp: no_call_def)
qed

lemma send_file_progress:
  assumes "conn_ok c" "readable (sender c) = []" "0 < len \<or> len = no_call \<and> file_rest c \<noteq> []"
    and "\<forall>a \<in> set (sk_writes (sock c)). taking a" "length (file_rest c) \<le> length (sk_writes (sock c))"
  shows "\<exists>len' n' c'. send_file len n c = Inr (len', n', c') \<and> 0 < len'"
proof (cases "file_rest c = []")
  case True
  then have "send_file len n c = Inr (len, n, c)"
    using assms(1) by (auto simp: send_file_def file_rest_def conn_ok_def fs_sendable_rest split: option.split)
  with assms(3) True show ?thesis by blast
next
  case False
  then obtain f where f: "fileSender c = Some f" by (auto simp: file_rest_def split: option.splits)
  then have sf: "stream_ok f" "\<not> fs_isBlock f" "stream_rest f \<noteq> []" "length (stream_rest f) \<le> length (sk_writes (sock c))"
    using assms(1,5) False by (auto simp: conn_ok_def file_rest_def)
  obtain len' n' s f' where "file_send_loop (sk_writes (sock c)) 0 (sock c) f = Inr (len', n', s, f')" "0 < len'"
    using file_send_loop_progress [OF sf(1-3) assms(4) sf(4)] by blast
  moreover have "fs_sendable f \<and> ReadableBytes (sender c) = 0 \<and> (0 < len \<or> len = no_call)"
    using sf assms(1-3) by (auto simp: fs_sendable_rest readable_empty [symmetric] conn_ok_def)
  ultimately show ?thesis using f by (auto simp: send_file_def fs_send_def)
qed

text \<open>One call of send finishes when the kernel takes at least one byte per call and is asked at
  least as often as there are bytes: the status is \<open>COMPLETED\<close> and everything is on the wire.\<close>

theorem send_completes:
  assumes "conn_ok c" "pending c \<noteq> []" "\<forall>a \<in> set (sk_writes (sock c)). taking a"
    and "length (pending c) \<le> length (sk_writes (sock c))"
  shows "\<exists>st c'. conn_send c = Inr (st, c') \<and> st_type st = S_COMPLETED \<and> sent c' = sent c @ pending c"
proof -
  obtain len n c1 where b: "send_buffered c = Inr (len, n, c1)" "0 < len \<or> len = no_call"
      "\<forall>a \<in> set (sk_writes (sock c1)). taking a" "length (file_rest c) \<le> length (sk_writes (sock c1))"
      "len = no_call \<longrightarrow> readable (sender c) = []"
    using send_buffered_progress [OF assms(1,3,4)] by blast
  note c1 = send_buffered_ok [OF assms(1) b(1)]
  have e: "readable (sender c1) = []" using c1(4) b(2,5) by (auto simp: no_call_def)
  have fr: "file_rest c1 = file_rest c" by (simp add: file_rest_def c1(3))
  have "0 < len \<or> len = no_call \<and> file_rest c1 \<noteq> []" using b(2,5) assms(2) fr by (auto simp: pending_def)
  then obtain len' n' c2 where f: "send_file len n c1 = Inr (len', n', c2)" "0 < len'"
    using send_file_progress [OF c1(1) e _ b(3)] b(4) fr by fastforce
  note c2 = send_file_ok [OF c1(1) f(1)]
  have p: "pending c2 = []" using c2 f(2) e by (auto simp: pending_def no_call_def)
  have st: "conn_send c = Inr (\<lparr>st_n = n', st_errorNo = sk_errno (sock c2),
      st_type = send_status len' (sk_errno (sock c2)) (conn_sendable c2)\<rparr>, c2)"
    by (simp add: conn_send_def b(1) f(1))
  have "\<not> conn_sendable c2" using conn_sendable_pending [of c2] c2 p by blast
  then have "send_status len' (sk_errno (sock c2)) (conn_sendable c2) = S_COMPLETED"
    using f(2) by (simp add: send_status_def)
  moreover have "sent c2 = sent c @ pending c" using c1(2) c2 p by simp
  ultimately show ?thesis using st by simp
qed

text \<open>The connection above with a kernel that takes two bytes at a time.\<close>

lemma send_completes_witness:
  "\<exists>st c'. conn_send (slow_connection\<lparr>sock := slow_socket\<lparr>sk_writes := [Written 2, Written 2]\<rparr>\<rparr>) = Inr (st, c') \<and>
     st_type st = S_COMPLETED \<and> sent c' = ''Hi''"
  using send_completes [of "slow_connection\<lparr>sock := slow_socket\<lparr>sk_writes := [Written 2, Written 2]\<rparr>\<rparr>"]
  by (simp add: conn_ok_def slow_connection_def slow_socket_def new_connection_def buf_ok_def new_buffer_def
      pending_def readable_def ReadableBytes_def file_rest_def taking_def sent_def wire_bytes_def)

text \<open>A receive takes everything the kernel has, in order, into the buffer. It answers
  \<open>AGAIN\<close> when the kernel has nothing more for now, but \<open>CLOSED\<close> when the peer has finished sending,
  also when bytes of a request have arrived in the same call, and \<open>ERROR\<close> for any other error.\<close>

theorem recv_takes_everything:
  assumes "conn_ok c" "\<forall>t \<in> set ts. t \<noteq> []" "final_read a" "sk_reads (sock c) = map Read_bytes ts @ a # as"
  shows "\<exists>st c'. conn_recv c = Inr (st, c') \<and> conn_ok c' \<and> readable (recver c') = readable (recver c) @ concat ts \<and>
    st_n st = int (length (concat ts)) \<and>
    st_type st = (case a of Read_error e \<Rightarrow> if e = EAGAIN then S_AGAIN else S_ERROR | Read_bytes t \<Rightarrow> S_CLOSED)"
proof -
  have ok: "buf_ok (recver c)" "\<not> isBlocked (sock c)" using assms(1) by (simp_all add: conn_ok_def)
  obtain b' where "sock_recv (sock c) (recver c) = Inr (read_length a, int (length (concat ts)),
      set_errno (read_errno a) ((sock c)\<lparr>sk_reads := as\<rparr>), b')" "buf_ok b'" "readable b' = readable (recver c) @ concat ts"
    using recv_loop_all [OF ok assms(2,3), of as 0] unfolding sock_recv_def assms(4) by auto
  then show ?thesis using assms(1,3)
    by (cases a) (simp_all add: conn_recv_def conn_ok_def recv_status_def set_errno_def)
qed

lemma recv_takes_everything_witness:
  "\<exists>st c'. conn_recv (slow_connection\<lparr>sock := slow_socket\<lparr>sk_reads := [Read_bytes ''GET'', Read_bytes []]\<rparr>\<rparr>) = Inr (st, c') \<and>
     readable (recver c') = ''GET'' \<and> st_type st = S_CLOSED"
  using recv_takes_everything [of "slow_connection\<lparr>sock := slow_socket\<lparr>sk_reads := [Read_bytes ''GET'', Read_bytes []]\<rparr>\<rparr>"
      "[''GET'']" "Read_bytes []" "[]"]
  by (auto simp: conn_ok_def slow_connection_def slow_socket_def new_connection_def buf_ok_def new_buffer_def
      readable_def ReadableBytes_def)

text \<open>A file attached to a connection goes out in the clear also when the connection is encrypted:
  what \<open>send\<close> writes after the buffer never passes through the TLS session.\<close>

theorem file_sent_in_clear:
  assumes "conn_ok c" "sk_ssl (sock c)" "readable (sender c) = []" "conn_send c = Inr (st, c')" "st_type st = S_COMPLETED"
  shows "wire (sock c') = wire (sock c) @ map (Pair Plain) (file_rest c)"
proof -
  have b: "send_buffered c = Inr (no_call, 0, c)"
    using assms(1,3) by (simp add: send_buffered_def conn_ok_def readable_empty)
  obtain len' n' where f: "send_file no_call 0 c = Inr (len', n', c')"
    using assms(4) by (auto simp: conn_send_def b rbind_Inr_conv)
  have "\<exists>bs. wire (sock c') = wire (sock c) @ map (Pair Plain) bs"
  proof (cases "c' = c")
    case False
    then obtain g where "fileSender c = Some g" using f by (auto simp: send_file_def split: option.splits)
    with f False show ?thesis
      by (auto simp: send_file_def fs_send_def rbind_Inr_conv split: if_splits dest!: file_send_loop_plain)
  qed simp
  then obtain bs where w: "wire (sock c') = wire (sock c) @ map (Pair Plain) bs" by blast
  have "sent c' = sent c @ file_rest c"
    using conn_send_ok [OF assms(1,4)] assms(3,5) by (simp add: pending_def)
  then have "bs = file_rest c" using w by (simp add: sent_def wire_bytes_def comp_def)
  with w show ?thesis by simp
qed

definition tls_download :: "unit connection" where
  "tls_download = (new_connection (slow_socket\<lparr>sk_ssl := True, sk_writes := [Written 9]\<rparr>))
     \<lparr>fileSender := Some \<lparr>file_bytes = ''key'', file_offset = 0, fs_isBlock = False, fs_mod = SENDFILE,
                             remain_bytes = 3, sended_bytes = 0\<rparr>\<rparr>"

lemma file_sent_in_clear_witness:
  "\<exists>st c'. conn_send tls_download = Inr (st, c') \<and> wire (sock c') = [(Plain, CHR ''k''), (Plain, CHR ''e''), (Plain, CHR ''y'')]"
proof -
  have ok: "conn_ok tls_download"
    by (simp add: conn_ok_def tls_download_def slow_socket_def new_connection_def buf_ok_def new_buffer_def stream_ok_def)
  have r: "\<exists>st c'. conn_send tls_download = Inr (st, c') \<and> st_type st = S_COMPLETED"
    by (simp add: conn_send_def send_buffered_def send_file_def tls_download_def new_connection_def slow_socket_def
        new_buffer_def ReadableBytes_def fs_sendable_def fs_send_def fs_next_def no_call_def set_errno_def
        put_wire_def send_status_def conn_sendable_def Let_def)
  then obtain st c' where s: "conn_send tls_download = Inr (st, c')" "st_type st = S_COMPLETED" by blast
  have "wire (sock c') = wire (sock tls_download) @ map (Pair Plain) (file_rest tls_download)"
    using file_sent_in_clear [OF ok _ _ s]
    by (simp add: tls_download_def slow_socket_def new_connection_def readable_def new_buffer_def ReadableBytes_def)
  then have "wire (sock c') = [(Plain, CHR ''k''), (Plain, CHR ''e''), (Plain, CHR ''y'')]"
    by (simp add: tls_download_def slow_socket_def new_connection_def file_rest_def stream_rest_def)
  with s show ?thesis by blast
qed

end
