(* ===== verification/EventLoop.thy ===== *)
theory EventLoop
  imports TimerQueue
begin

unbundle bit_operations_syntax

text \<open>
  \<open>haha_web/net/EventLoop.{h,cpp}\<close>, \<open>Epoller.{h,cpp}\<close>, \<open>Channel.cpp\<close> and
  \<open>EventLoopThreadPool.{h,cpp}\<close>: the loop with its pending tasks, its eventfd, its timers and the
  descriptors registered with epoll; and, as a step relation, the loop running against other threads
  that queue tasks. The kernel's part is what the manual pages of epoll and eventfd state.
\<close>

section \<open>Epoll\<close>

definition EPOLLIN :: nat where "EPOLLIN = 0x1"
definition EPOLLOUT :: nat where "EPOLLOUT = 0x4"
definition EPOLLERR :: nat where "EPOLLERR = 0x8"
definition EPOLLHUP :: nat where "EPOLLHUP = 0x10"
definition EPOLLRDHUP :: nat where "EPOLLRDHUP = 0x2000"
definition EPOLLONESHOT :: nat where "EPOLLONESHOT = 0x40000000"
definition EPOLLET :: nat where "EPOLLET = 0x80000000"

lemmas epoll_bits = EPOLLIN_def EPOLLOUT_def EPOLLERR_def EPOLLHUP_def EPOLLRDHUP_def
  EPOLLONESHOT_def EPOLLET_def

definition kServerEvent :: nat where
  "kServerEvent = EPOLLRDHUP"

definition kConnectionEvent :: nat where
  "kConnectionEvent = (EPOLLET OR EPOLLONESHOT) OR EPOLLRDHUP"

text \<open>The registered descriptors with their events and the channel; failing calls are ignored.\<close>

type_synonym epoll_set = "int \<Rightarrow> (nat \<times> nat) option"

definition epoll_add :: "int \<Rightarrow> nat \<Rightarrow> nat \<Rightarrow> epoll_set \<Rightarrow> epoll_set" where
  "epoll_add fd ev ptr m = (if m fd = None then m(fd \<mapsto> (ev, ptr)) else m)"

definition epoll_mod :: "int \<Rightarrow> nat \<Rightarrow> nat \<Rightarrow> epoll_set \<Rightarrow> epoll_set" where
  "epoll_mod fd ev ptr m = (if m fd = None then m else m(fd \<mapsto> (ev, ptr)))"

definition epoll_del :: "int \<Rightarrow> epoll_set \<Rightarrow> epoll_set" where
  "epoll_del fd m = m(fd := None)"

text \<open>The size of the event list after a wait that returned \<open>n\<close> events.\<close>

definition kInitEventListSize :: nat where
  "kInitEventListSize = 16"

definition resize_events :: "nat \<Rightarrow> nat \<Rightarrow> nat" where
  "resize_events n sz = (if n > sz * 3 div 4 then n * 2 else sz)"

section \<open>Channels\<close>

datatype channel_cb = Close_cb | Read_cb | Write_cb

definition channel_dispatch :: "nat \<Rightarrow> channel_cb option" where
  "channel_dispatch revents =
     (if revents AND ((EPOLLERR OR EPOLLRDHUP) OR EPOLLHUP) \<noteq> 0 then Some Close_cb
      else if revents AND EPOLLIN \<noteq> 0 then Some Read_cb
      else if revents AND EPOLLOUT \<noteq> 0 then Some Write_cb
      else None)"

section \<open>The loop\<close>

record ('t, 'c) event_loop =
  el_thread :: nat
  el_quit :: bool
  el_counter :: nat
  el_ready :: bool
  pendingTasks :: "'t list"
  callingPendingTasks :: bool
  el_epoll :: epoll_set
  el_timers :: "'c timer_queue_state"

definition new_event_loop :: "nat \<Rightarrow> int \<Rightarrow> ('t, 'c) event_loop" where
  "new_event_loop tid timefd =
     \<lparr>el_thread = tid, el_quit = False, el_counter = 0, el_ready = False, pendingTasks = [],
      callingPendingTasks = False, el_epoll = Map.empty, el_timers = new_timer_queue timefd tid\<rparr>"

definition isInLoopThread :: "nat \<Rightarrow> ('t, 'c) event_loop \<Rightarrow> bool" where
  "isInLoopThread tid l \<longleftrightarrow> el_thread l = tid"

definition assertInLoopThread :: "nat \<Rightarrow> ('t, 'c) event_loop \<Rightarrow> unit res" where
  "assertInLoopThread tid l = check_assert (isInLoopThread tid l)"

text \<open>A write to the eventfd makes it readable again; reading it resets its counter.\<close>

definition wakeup :: "('t, 'c) event_loop \<Rightarrow> ('t, 'c) event_loop" where
  "wakeup l = l\<lparr>el_counter := el_counter l + 1, el_ready := True\<rparr>"

definition handleWakeup :: "('t, 'c) event_loop \<Rightarrow> ('t, 'c) event_loop" where
  "handleWakeup l = l\<lparr>el_counter := 0\<rparr>"

definition loop_quit :: "nat \<Rightarrow> ('t, 'c) event_loop \<Rightarrow> ('t, 'c) event_loop" where
  "loop_quit tid l =
     (let l1 = l\<lparr>el_quit := True\<rparr> in if isInLoopThread tid l1 then l1 else wakeup l1)"

definition push_task :: "'t \<Rightarrow> ('t, 'c) event_loop \<Rightarrow> ('t, 'c) event_loop" where
  "push_task t l = l\<lparr>pendingTasks := pendingTasks l @ [t]\<rparr>"

definition queueInLoop :: "nat \<Rightarrow> 't \<Rightarrow> ('t, 'c) event_loop \<Rightarrow> ('t, 'c) event_loop" where
  "queueInLoop tid t l =
     (let l1 = push_task t l
      in if \<not> isInLoopThread tid l1 \<or> callingPendingTasks l1 then wakeup l1 else l1)"

text \<open>The first half of \<open>doPendingTasks\<close>: the tasks to run.\<close>

definition take_tasks :: "('t, 'c) event_loop \<Rightarrow> 't list \<times> ('t, 'c) event_loop" where
  "take_tasks l = (pendingTasks l, l\<lparr>callingPendingTasks := True, pendingTasks := []\<rparr>)"

definition end_tasks :: "('t, 'c) event_loop \<Rightarrow> ('t, 'c) event_loop" where
  "end_tasks l = l\<lparr>callingPendingTasks := False\<rparr>"

text \<open>
  The operations that run in the loop at once when they are called from its thread. From another
  thread \<open>addTimer\<close> and its like would queue a lambda that captured a reference to their argument;
  the callers below decide what becomes of it.
\<close>

definition loop_addChannel :: "int \<Rightarrow> nat \<Rightarrow> nat \<Rightarrow> ('t, 'c) event_loop \<Rightarrow> ('t, 'c) event_loop" where
  "loop_addChannel fd ev ptr l = l\<lparr>el_epoll := epoll_add fd ev ptr (el_epoll l)\<rparr>"

definition loop_modChannel :: "int \<Rightarrow> nat \<Rightarrow> nat \<Rightarrow> ('t, 'c) event_loop \<Rightarrow> ('t, 'c) event_loop" where
  "loop_modChannel fd ev ptr l = l\<lparr>el_epoll := epoll_mod fd ev ptr (el_epoll l)\<rparr>"

definition loop_delChannel :: "int \<Rightarrow> ('t, 'c) event_loop \<Rightarrow> ('t, 'c) event_loop" where
  "loop_delChannel fd l = l\<lparr>el_epoll := epoll_del fd (el_epoll l)\<rparr>"

definition on_timers ::
  "('c timer_queue_state \<Rightarrow> 'c timer_queue_state res) \<Rightarrow> ('t, 'c) event_loop \<Rightarrow> ('t, 'c) event_loop res" where
  "on_timers f l = rbind (f (el_timers l)) (\<lambda>q. Inr (l\<lparr>el_timers := q\<rparr>))"

definition loop_addTimer :: "nat \<Rightarrow> 'c timer \<Rightarrow> ('t, 'c) event_loop \<Rightarrow> ('t, 'c) event_loop res" where
  "loop_addTimer tid t l = on_timers (tq_push tid t) l"

definition loop_adjustTimer :: "nat \<Rightarrow> 'c timer \<Rightarrow> ('t, 'c) event_loop \<Rightarrow> ('t, 'c) event_loop res" where
  "loop_adjustTimer tid t l = on_timers (tq_adjust tid t) l"

definition loop_delTimer :: "nat \<Rightarrow> 'c timer \<Rightarrow> ('t, 'c) event_loop \<Rightarrow> ('t, 'c) event_loop res" where
  "loop_delTimer tid t l = on_timers (tq_remove tid t) l"

section \<open>The loop and the other threads\<close>

text \<open>
  Where the loop's thread is: in \<open>epoll_wait\<close>, handling a batch (that may still contain the event of
  the eventfd), running the tasks it took, or out of the loop. \<open>lt_writers\<close> counts the threads that
  are between the two halves of \<open>queueInLoop\<close> or \<open>quit\<close>: the change and the write to the eventfd.
\<close>

datatype 't phase = Polling | Handling bool | Running "'t list" | Stopped

record ('t, 'c) loop_threads =
  lt_loop :: "('t, 'c) event_loop"
  lt_phase :: "'t phase"
  lt_writers :: nat

datatype 't label = Silent | Queued 't | Ran 't

inductive loop_step :: "('t, 'c) loop_threads \<Rightarrow> 't label \<Rightarrow> ('t, 'c) loop_threads \<Rightarrow> bool" where
  queue: "loop_step s (Queued t) (s\<lparr>lt_loop := push_task t (lt_loop s), lt_writers := lt_writers s + 1\<rparr>)"
| quit: "loop_step s Silent (s\<lparr>lt_loop := (lt_loop s)\<lparr>el_quit := True\<rparr>, lt_writers := lt_writers s + 1\<rparr>)"
| wake: "0 < lt_writers s \<Longrightarrow>
    loop_step s Silent (s\<lparr>lt_loop := wakeup (lt_loop s), lt_writers := lt_writers s - 1\<rparr>)"
| poll_wakeup: "lt_phase s = Polling \<Longrightarrow> el_ready (lt_loop s) \<Longrightarrow>
    loop_step s Silent (s\<lparr>lt_loop := (lt_loop s)\<lparr>el_ready := False\<rparr>, lt_phase := Handling True\<rparr>)"
| poll_other: "lt_phase s = Polling \<Longrightarrow> \<not> el_ready (lt_loop s) \<Longrightarrow>
    loop_step s Silent (s\<lparr>lt_phase := Handling False\<rparr>)"
| read_wakeup: "lt_phase s = Handling True \<Longrightarrow>
    loop_step s Silent (s\<lparr>lt_loop := handleWakeup (lt_loop s), lt_phase := Handling False\<rparr>)"
| take: "lt_phase s = Handling False \<Longrightarrow> take_tasks (lt_loop s) = (ts, l) \<Longrightarrow>
    loop_step s Silent (s\<lparr>lt_loop := l, lt_phase := Running ts\<rparr>)"
| run: "lt_phase s = Running (t # ts) \<Longrightarrow> loop_step s (Ran t) (s\<lparr>lt_phase := Running ts\<rparr>)"
| next_round: "lt_phase s = Running [] \<Longrightarrow>
    loop_step s Silent (s\<lparr>lt_loop := end_tasks (lt_loop s),
                          lt_phase := (if el_quit (lt_loop s) then Stopped else Polling)\<rparr>)"

inductive loop_run :: "('t, 'c) loop_threads \<Rightarrow> 't label list \<Rightarrow> ('t, 'c) loop_threads \<Rightarrow> bool" where
  done_: "loop_run s [] s"
| more: "loop_run s tr s' \<Longrightarrow> loop_step s' x s'' \<Longrightarrow> loop_run s (tr @ [x]) s''"

inductive_cases loop_stepE: "loop_step s x s'"

fun queued :: "'t label list \<Rightarrow> 't list" where
  "queued [] = []"
| "queued (Queued t # tr) = t # queued tr"
| "queued (_ # tr) = queued tr"

fun ran :: "'t label list \<Rightarrow> 't list" where
  "ran [] = []"
| "ran (Ran t # tr) = t # ran tr"
| "ran (_ # tr) = ran tr"

lemma trace_append [simp]: "queued (a @ b) = queued a @ queued b" "ran (a @ b) = ran a @ ran b"
  by (induction a rule: queued.induct; simp) (induction a rule: ran.induct; simp)

definition taken :: "'t phase \<Rightarrow> 't list" where
  "taken p = (case p of Running ts \<Rightarrow> ts | _ \<Rightarrow> [])"

definition fresh_threads :: "('t, 'c) event_loop \<Rightarrow> ('t, 'c) loop_threads" where
  "fresh_threads l = \<lparr>lt_loop = l, lt_phase = Polling, lt_writers = 0\<rparr>"

text \<open>The invariant: a loop that waits has nothing to do, or will be woken up.\<close>

definition awake :: "('t, 'c) loop_threads \<Rightarrow> bool" where
  "awake s \<longleftrightarrow>
     ((lt_phase s = Polling \<or> (\<exists>ts. lt_phase s = Running ts)) \<and> pendingTasks (lt_loop s) \<noteq> [] \<or>
      lt_phase s = Polling \<and> el_quit (lt_loop s) \<longrightarrow> el_ready (lt_loop s) \<or> 0 < lt_writers s)"

lemma loop_step_awake: "loop_step s x s' \<Longrightarrow> awake s \<Longrightarrow> awake s'"
  by (erule loop_stepE)
    (auto simp: awake_def push_task_def wakeup_def handleWakeup_def take_tasks_def end_tasks_def)

lemma loop_run_awake: "loop_run s tr s' \<Longrightarrow> awake s \<Longrightarrow> awake s'"
  by (induction rule: loop_run.induct) (auto intro: loop_step_awake)

lemma loop_step_fifo:
  "loop_step s x s' \<Longrightarrow>
   ran [x] @ taken (lt_phase s') @ pendingTasks (lt_loop s') =
   taken (lt_phase s) @ pendingTasks (lt_loop s) @ queued [x]"
  by (erule loop_stepE)
    (auto simp: taken_def push_task_def wakeup_def handleWakeup_def take_tasks_def end_tasks_def split: phase.splits)

lemma loop_run_fifo:
  "loop_run s tr s' \<Longrightarrow>
   ran tr @ taken (lt_phase s') @ pendingTasks (lt_loop s') =
   taken (lt_phase s) @ pendingTasks (lt_loop s) @ queued tr"
proof (induction rule: loop_run.induct)
  case (more s tr s' x s'')
  then show ?case using loop_step_fifo [OF more(2)] by simp
qed simp

lemma loop_run_trans: "loop_run a tr b \<Longrightarrow> loop_run b tr' c \<Longrightarrow> loop_run a (tr @ tr') c"
proof (rotate_tac 1, induction rule: loop_run.induct)
  case (more s tr' s' x s'')
  then have "loop_run a ((tr @ tr') @ [x]) s''" by (blast intro: loop_run.more)
  then show ?case by simp
qed simp

lemma loop_run_step: "loop_step s x s' \<Longrightarrow> loop_run s [x] s'"
  using loop_run.more [OF loop_run.done_] by fastforce

lemma run_tasks:
  "lt_phase s = Running ts \<Longrightarrow> \<exists>s'. loop_run s (map Ran ts) s' \<and> lt_phase s' = Running [] \<and> lt_loop s' = lt_loop s"
proof (induction ts arbitrary: s)
  case Nil
  then show ?case using loop_run.done_ by fastforce
next
  case (Cons t ts)
  let ?s = "s\<lparr>lt_phase := Running ts\<rparr>"
  have "loop_run s [Ran t] ?s" using Cons.prems by (intro loop_run_step loop_step.run)
  moreover obtain s' where "loop_run ?s (map Ran ts) s'" "lt_phase s' = Running []" "lt_loop s' = lt_loop ?s"
    using Cons.IH [of ?s] by auto
  ultimately show ?case using loop_run_trans by fastforce
qed

lemma queued_ran [simp]: "queued (map Ran ts) = []" "ran (map Ran ts) = ts"
  by (induction ts) auto

text \<open>C17: no task handed to a loop from another thread is lost, run twice or overtaken: at every
  moment of every interleaving the tasks that were run, followed by those the loop has taken and those
  that are pending, are the tasks that were queued, in that order; and a loop that waits in
  \<open>epoll_wait\<close> while a task is pending has been woken up or is about to be.\<close>

theorem no_task_lost:
  assumes "loop_run (fresh_threads (new_event_loop tid fd)) tr s"
  shows "ran tr @ taken (lt_phase s) @ pendingTasks (lt_loop s) = queued tr \<and>
    (lt_phase s = Polling \<and> pendingTasks (lt_loop s) \<noteq> [] \<longrightarrow> el_ready (lt_loop s) \<or> 0 < lt_writers s)"
proof
  show "ran tr @ taken (lt_phase s) @ pendingTasks (lt_loop s) = queued tr"
    using loop_run_fifo [OF assms] by (simp add: fresh_threads_def new_event_loop_def taken_def)
  have "awake (fresh_threads (new_event_loop tid fd))"
    by (simp add: awake_def fresh_threads_def new_event_loop_def)
  then have "awake s" using loop_run_awake [OF assms] by blast
  then show "lt_phase s = Polling \<and> pendingTasks (lt_loop s) \<noteq> [] \<longrightarrow> el_ready (lt_loop s) \<or> 0 < lt_writers s"
    by (auto simp: awake_def)
qed

definition queued_once :: "(nat, unit) loop_threads" where
  "queued_once = (fresh_threads (new_event_loop 1 5))
     \<lparr>lt_loop := push_task 3 (new_event_loop 1 5), lt_writers := 1\<rparr>"

lemma queued_once_run: "loop_run (fresh_threads (new_event_loop 1 5)) [Queued 3] queued_once"
  using loop_run_step [OF loop_step.queue [of "fresh_threads (new_event_loop 1 5)" 3]]
  by (simp add: queued_once_def fresh_threads_def)

lemma no_task_lost_witness:
  "ran [Queued (3 :: nat)] @ taken (lt_phase queued_once) @ pendingTasks (lt_loop queued_once) = [3] \<and>
   (el_ready (lt_loop queued_once) \<or> 0 < lt_writers queued_once)"
  using no_task_lost [OF queued_once_run]
  by (simp add: queued_once_def fresh_threads_def push_task_def new_event_loop_def)

text \<open>A loop that has been woken up runs all pending tasks, in order, without waiting for anything
  else to happen.\<close>

theorem woken_loop_runs_tasks:
  assumes "lt_phase s = Polling" "el_ready (lt_loop s)"
  shows "\<exists>tr s'. loop_run s tr s' \<and> queued tr = [] \<and> ran tr = pendingTasks (lt_loop s) \<and> pendingTasks (lt_loop s') = []"
proof -
  let ?ts = "pendingTasks (lt_loop s)"
  let ?s1 = "s\<lparr>lt_loop := (lt_loop s)\<lparr>el_ready := False\<rparr>, lt_phase := Handling True\<rparr>"
  let ?s2 = "?s1\<lparr>lt_loop := handleWakeup (lt_loop ?s1), lt_phase := Handling False\<rparr>"
  let ?s3 = "?s2\<lparr>lt_loop := snd (take_tasks (lt_loop ?s2)), lt_phase := Running ?ts\<rparr>"
  have "loop_run s [Silent] ?s1" using assms by (intro loop_run_step loop_step.poll_wakeup)
  moreover have "loop_run ?s1 [Silent] ?s2" by (intro loop_run_step loop_step.read_wakeup) simp
  moreover have "loop_run ?s2 [Silent] ?s3"
    by (intro loop_run_step loop_step.take) (simp_all add: take_tasks_def handleWakeup_def)
  ultimately have "loop_run s ([Silent] @ [Silent] @ [Silent]) ?s3" using loop_run_trans by blast
  moreover obtain s' where "loop_run ?s3 (map Ran ?ts) s'" "lt_loop s' = lt_loop ?s3"
    using run_tasks [of ?s3 ?ts] by auto
  ultimately have "loop_run s (([Silent] @ [Silent] @ [Silent]) @ map Ran ?ts) s'"
      "pendingTasks (lt_loop s') = []"
    using loop_run_trans by (blast, simp add: take_tasks_def)
  then show ?thesis by (intro exI conjI) auto
qed

lemma woken_loop_runs_tasks_witness:
  "\<exists>tr s'. loop_run (queued_once\<lparr>lt_loop := wakeup (lt_loop queued_once)\<rparr>) tr s' \<and> ran tr = [3]"
  using woken_loop_runs_tasks [of "queued_once\<lparr>lt_loop := wakeup (lt_loop queued_once)\<rparr>"]
  by (auto simp: queued_once_def fresh_threads_def push_task_def new_event_loop_def wakeup_def)

section \<open>The pool of loops\<close>

text \<open>
  Loops are known by their number: 0 is the base loop, \<open>1, 2, ...\<close> are those of the threads. A thread
  has the number of its loop.
\<close>

record pool =
  pool_started :: bool
  num_thread :: nat
  pool_loops :: "nat list"
  pool_next :: nat

definition new_pool :: "nat \<Rightarrow> pool" where
  "new_pool n = \<lparr>pool_started = False, num_thread = n, pool_loops = [], pool_next = 0\<rparr>"

definition pool_start :: "nat \<Rightarrow> pool \<Rightarrow> pool res" where
  "pool_start tid p =
     (if pool_started p then Inl Assertion
      else if tid \<noteq> 0 then Inl Assertion
      else Inr (p\<lparr>pool_started := True, pool_loops := pool_loops p @ [1..<num_thread p + 1]\<rparr>))"

definition getNextLoop :: "nat \<Rightarrow> pool \<Rightarrow> (nat \<times> pool) res" where
  "getNextLoop tid p =
     (if tid \<noteq> 0 then Inl Assertion
      else if pool_loops p = [] then Inr (0, p)
      else if pool_next p < length (pool_loops p)
      then (let n = pool_next p + 1
            in Inr (pool_loops p ! pool_next p, p\<lparr>pool_next := if length (pool_loops p) \<le> n then 0 else n\<rparr>))
      else Inl Undefined)"

fun next_loops :: "nat \<Rightarrow> pool \<Rightarrow> (nat list \<times> pool) res" where
  "next_loops 0 p = Inr ([], p)"
| "next_loops (Suc k) p =
     rbind (getNextLoop 0 p) (\<lambda>(i, p1). rbind (next_loops k p1) (\<lambda>(is, p2). Inr (i # is, p2)))"

lemma next_loops_mod:
  "pool_loops p = [1..<n + 1] \<Longrightarrow> pool_next p < n \<Longrightarrow>
   \<exists>p'. next_loops k p = Inr (map (\<lambda>j. (pool_next p + j) mod n + 1) [0..<k], p')"
proof (induction k arbitrary: p)
  case (Suc k)
  let ?m = "(pool_next p + 1) mod n"
  let ?p = "p\<lparr>pool_next := ?m\<rparr>"
  have "getNextLoop 0 p = Inr (pool_next p + 1, ?p)"
    using Suc.prems by (auto simp: getNextLoop_def Let_def mod_if simp del: upt_Suc)
  moreover obtain p' where "next_loops k ?p = Inr (map (\<lambda>j. (pool_next ?p + j) mod n + 1) [0..<k], p')"
    using Suc.IH [of ?p] Suc.prems by auto
  moreover have "map (\<lambda>j. (pool_next p + j) mod n + 1) [0..<Suc k] =
      (pool_next p + 1) # map (\<lambda>j. (pool_next ?p + j) mod n + 1) [0..<k]"
    using Suc.prems(2) by (simp add: upt_conv_Cons map_Suc_upt [symmetric] mod_add_left_eq del: upt_Suc)
  ultimately show ?case by simp
qed simp

text \<open>The loops take turns: the \<open>k\<close>-th connection goes to the loop of thread \<open>k mod n\<close>, and to
  the base loop when there are no threads.\<close>

theorem loops_take_turns:
  "\<exists>p p'. pool_start 0 (new_pool n) = Inr p \<and>
     next_loops k p = Inr (map (\<lambda>j. if n = 0 then 0 else j mod n + 1) [0..<k], p')"
proof (cases "n = 0")
  case True
  have "pool_loops p = [] \<Longrightarrow> next_loops k p = Inr (map (\<lambda>j. 0) [0..<k], p)" for p :: pool
    by (induction k) (simp_all add: getNextLoop_def map_replicate_const)
  then show ?thesis using True by (simp add: pool_start_def new_pool_def)
next
  case False
  then show ?thesis
    using next_loops_mod [of "\<lparr>pool_started = True, num_thread = n, pool_loops = [1..<n + 1], pool_next = 0\<rparr>" n k]
    by (auto simp: pool_start_def new_pool_def)
qed

end
