(* ===== verification/HttpResponse.thy ===== *)
theory HttpResponse
  imports HttpTables HttpCookie JsonValue TcpConnection
begin

text \<open>
  \<open>haha_web/http/HttpResponse.{h,cpp}\<close>: the response a servlet fills in. The response writes itself
  into the send buffer of its connection when it is destroyed. Members nothing reads
  (\<open>contentType_\<close>, \<open>keepAlive_\<close>, \<open>hasSession_\<close>) are left out; the text of the current date and the
  files are arguments.
\<close>

section \<open>State and operations\<close>

record response =
  rs_version :: http_version
  rs_status :: http_status
  rs_header :: http_header
  rs_body :: string
  rs_contentLength :: int
  rs_isFileBody :: bool
  rs_file_path :: string

definition new_response :: "string \<Rightarrow> http_version \<Rightarrow> response" where
  "new_response date v =
     \<lparr>rs_version = v, rs_status = OK,
      rs_header = header_add ''Content-Type'' ''application/octet-stream''
        (header_add ''Date'' date (header_add ''Server'' ''HAHA_WEBSERVER'' new_header)),
      rs_body = [], rs_contentLength = - 1, rs_isFileBody = False, rs_file_path = []\<rparr>"

definition resp_setVersion :: "http_version \<Rightarrow> response \<Rightarrow> response" where
  "resp_setVersion v r = r\<lparr>rs_version := v\<rparr>"

definition setStatusCode :: "http_status \<Rightarrow> response \<Rightarrow> response" where
  "setStatusCode st r = r\<lparr>rs_status := st\<rparr>"

definition resp_header :: "string \<Rightarrow> string \<Rightarrow> response \<Rightarrow> response" where
  "resp_header k v r = r\<lparr>rs_header := header_add k v (rs_header r)\<rparr>"

definition resp_setKeepAlive :: "bool \<Rightarrow> response \<Rightarrow> response" where
  "resp_setKeepAlive on r = resp_header ''Connection'' (if on then ''Keep-Alive'' else ''Close'') r"

text \<open>The table lookups of the code are \<open>at\<close>, which throws.\<close>

definition setContentType :: "http_content_type \<Rightarrow> response \<Rightarrow> response res" where
  "setContentType ct r =
     (case map_of HttpContentType2Name ct of
        None \<Rightarrow> Inl (Raised Out_of_range)
      | Some name \<Rightarrow> Inr (resp_header ''Content-Type'' name r))"

text \<open>The length is stored in an \<open>int\<close>.\<close>

definition setContentLength :: "nat \<Rightarrow> response \<Rightarrow> response" where
  "setContentLength n r =
     resp_header ''Content-Length'' (nat_to_string n)
       (r\<lparr>rs_contentLength := (int n + 2 ^ 31) mod 2 ^ 32 - 2 ^ 31\<rparr>)"

definition resp_setCookie :: "cookie \<Rightarrow> response \<Rightarrow> response res" where
  "resp_setCookie c r = rbind (cookie_toString c) (\<lambda>s. Inr (resp_header ''Set-Cookie'' s r))"

definition setCookieStr :: "string \<Rightarrow> response \<Rightarrow> response" where
  "setCookieStr s r = resp_header ''Set-Cookie'' s r"

definition addAtrribute :: "string \<Rightarrow> string \<Rightarrow> response \<Rightarrow> response" where
  "addAtrribute k v r = resp_header k v r"

definition setRedirect :: "string \<Rightarrow> response \<Rightarrow> response" where
  "setRedirect url r = resp_header ''Location'' url (r\<lparr>rs_status := FOUND\<rparr>)"

definition appendBody :: "string \<Rightarrow> response \<Rightarrow> response" where
  "appendBody s r = r\<lparr>rs_body := rs_body r @ s\<rparr>"

text \<open>The operations below reach the connection: its send buffer, its file stream.\<close>

definition setBody :: "string \<Rightarrow> response \<times> 'ctx connection \<Rightarrow> response \<times> 'ctx connection" where
  "setBody s rc = ((fst rc)\<lparr>rs_body := s\<rparr>, retriveSender (snd rc))"

definition setFileBody ::
  "(string \<Rightarrow> file_lookup) \<Rightarrow> string \<Rightarrow> response \<times> 'ctx connection \<Rightarrow> (response \<times> 'ctx connection) res" where
  "setFileBody fs path rc =
     rbind (setFileStream (fs path) (snd rc)) (\<lambda>c.
       Inr ((fst rc)\<lparr>rs_body := [], rs_isFileBody := True, rs_file_path := path\<rparr>, c))"

definition setHtmlBody ::
  "(string \<Rightarrow> file_lookup) \<Rightarrow> string \<Rightarrow> response \<times> 'ctx connection \<Rightarrow> (response \<times> 'ctx connection) res" where
  "setHtmlBody fs path rc =
     setFileBody fs path (resp_header ''Content-Type'' ''text/html; charset=utf-8'' (fst rc), snd rc)"

definition setJsonBody ::
  "json \<Rightarrow> JsonFormatType \<Rightarrow> response \<times> 'ctx connection \<Rightarrow> response \<times> 'ctx connection" where
  "setJsonBody node fmt rc = setBody (json_toString fmt 0 node) rc"

section \<open>The destructor\<close>

definition status_line :: "response \<Rightarrow> string res" where
  "status_line r =
     (case map_of HttpVersion2Str (rs_version r) of
        None \<Rightarrow> Inl (Raised (Logic_error ''terminate''))
      | Some v \<Rightarrow>
          (case map_of HttpStatus2Str (status_code (rs_status r)) of
             None \<Rightarrow> Inl (Raised (Logic_error ''terminate''))
           | Some msg \<Rightarrow> Inr (v @ '' '' @ int_to_string (status_code (rs_status r)) @ '' '' @ msg @ CRLF)))"

text \<open>The size of the file when the destructor asks; an exception in a destructor ends the program.\<close>

definition file_length :: "file_lookup \<Rightarrow> nat res" where
  "file_length f =
     (case f of
        Readable s \<Rightarrow> Inr (length s)
      | Unreadable n \<Rightarrow> Inr n
      | No_file \<Rightarrow> Inl (Raised (Logic_error ''terminate'')))"

definition fill_length :: "(string \<Rightarrow> file_lookup) \<Rightarrow> response \<Rightarrow> response res" where
  "fill_length fs r =
     (if rs_contentLength r = - 1
      then rbind (if rs_isFileBody r then file_length (fs (rs_file_path r)) else Inr (length (rs_body r)))
             (\<lambda>n. Inr (let len = (int n + 2 ^ 31) mod 2 ^ 32 - 2 ^ 31
                       in resp_header ''Content-Length'' (int_to_string len) (r\<lparr>rs_contentLength := len\<rparr>)))
      else Inr r)"

definition header_block :: "string umap \<Rightarrow> string" where
  "header_block m = concat (map (\<lambda>(k, v). k @ '': '' @ v @ CRLF) m)"

text \<open>Everything the destructor appends.\<close>

definition response_text :: "(string \<Rightarrow> file_lookup) \<Rightarrow> response \<Rightarrow> string res" where
  "response_text fs r =
     rbind (status_line r) (\<lambda>line.
       rbind (fill_length fs r) (\<lambda>r'.
         Inr (line @ header_block (hmap (rs_header r')) @ CRLF @ (if rs_isFileBody r' then [] else rs_body r'))))"

definition append_header :: "string umap \<Rightarrow> buffer \<Rightarrow> buffer res" where
  "append_header m b = fold (\<lambda>(k, v) acc. rbind acc (Append (k @ '': '' @ v @ CRLF))) m (Inr b)"

definition destroy_response :: "(string \<Rightarrow> file_lookup) \<Rightarrow> response \<Rightarrow> buffer \<Rightarrow> buffer res" where
  "destroy_response fs r b =
     rbind (status_line r) (\<lambda>line.
       rbind (Append line b) (\<lambda>b1.
         rbind (fill_length fs r) (\<lambda>r'.
           rbind (append_header (hmap (rs_header r')) b1) (\<lambda>b2.
             rbind (Append CRLF b2) (\<lambda>b3.
               if rs_isFileBody r' then Inr b3 else Append (rs_body r') b3)))))"

section \<open>Behaviour\<close>

lemma status_line_total: "\<exists>line. status_line r = Inr line"
  by (cases "rs_version r"; cases "rs_status r") (simp_all add: status_line_def HttpVersion2Str_def HttpStatus2Str_def)

lemma append_header_ok:
  "buf_ok b \<Longrightarrow> \<exists>b'. append_header m b = Inr b' \<and> buf_ok b' \<and> readable b' = readable b @ header_block m"
proof (induction m arbitrary: b)
  case (Cons p m)
  obtain k v where p: "p = (k, v)" by (cases p)
  obtain b1 where "Append (k @ '': '' @ v @ CRLF) b = Inr b1" "buf_ok b1"
      "readable b1 = readable b @ k @ '': '' @ v @ CRLF"
    using Append_ok [OF Cons.prems] by blast
  then show ?case using Cons.IH [of b1] p by (auto simp: append_header_def header_block_def)
qed (simp add: append_header_def header_block_def)

text \<open>The destructor appends the text of the response to the send buffer, or ends the program.\<close>

lemma destroy_response_ok:
  assumes "buf_ok b"
  shows "case response_text fs r of
           Inl e \<Rightarrow> destroy_response fs r b = Inl e
         | Inr t \<Rightarrow> \<exists>b'. destroy_response fs r b = Inr b' \<and> buf_ok b' \<and> readable b' = readable b @ t"
proof -
  obtain line where line: "status_line r = Inr line" using status_line_total by blast
  obtain b1 where b1: "Append line b = Inr b1" "buf_ok b1" "readable b1 = readable b @ line"
    using Append_ok [OF assms] by blast
  show ?thesis
  proof (cases "fill_length fs r")
    case (Inl e)
    then show ?thesis by (simp add: response_text_def destroy_response_def line b1)
  next
    case (Inr r')
    obtain b2 where b2: "append_header (hmap (rs_header r')) b1 = Inr b2" "buf_ok b2"
        "readable b2 = readable b1 @ header_block (hmap (rs_header r'))"
      using append_header_ok [OF b1(2)] by blast
    obtain b3 where b3: "Append CRLF b2 = Inr b3" "buf_ok b3" "readable b3 = readable b2 @ CRLF"
      using Append_ok [OF b2(2)] by blast
    obtain b4 where b4: "Append (rs_body r') b3 = Inr b4" "buf_ok b4" "readable b4 = readable b3 @ rs_body r'"
      using Append_ok [OF b3(2)] by blast
    show ?thesis
      using b1 b2 b3 b4 by (auto simp: response_text_def destroy_response_def line Inr)
  qed
qed

section \<open>The frame of a response\<close>

text \<open>Lines that end with CRLF: the first empty line is where the block ends.\<close>

definition plain_line :: "string \<Rightarrow> bool" where
  "plain_line x \<longleftrightarrow> x \<noteq> [] \<and> CR \<notin> set x"

lemma find_blank_skip:
  assumes "CR \<notin> set x"
  shows "find_sub (CRLF @ CRLF) (x @ w) = map_option (\<lambda>k. length x + k) (find_sub (CRLF @ CRLF) w)"
  using assms by (induction x) (cases "find_sub (CRLF @ CRLF) w"; auto)+

lemma find_blank_lines:
  "(\<And>x. x \<in> set xs \<Longrightarrow> plain_line x) \<Longrightarrow> xs \<noteq> [] \<Longrightarrow>
   find_sub (CRLF @ CRLF) (concat (map (\<lambda>x. x @ CRLF) xs) @ CRLF @ w) =
     Some (length (concat (map (\<lambda>x. x @ CRLF) xs)) - 2)"
proof (induction xs)
  case (Cons x xs)
  have x: "CR \<notin> set x" using Cons.prems(1) [of x] by (simp add: plain_line_def)
  show ?case
  proof (cases xs)
    case Nil
    then show ?thesis using find_blank_skip [OF x, of "CRLF @ CRLF @ w"] by simp
  next
    case (Cons y ys)
    obtain c y' where y: "y = c # y'" "c \<noteq> CR"
      using \<open>\<And>z. z \<in> set (x # xs) \<Longrightarrow> plain_line z\<close> [of y] Cons by (cases y) (auto simp: plain_line_def)
    let ?rest = "concat (map (\<lambda>x. x @ CRLF) xs) @ CRLF @ w"
    have ih: "find_sub (CRLF @ CRLF) ?rest = Some (length (concat (map (\<lambda>x. x @ CRLF) xs)) - 2)"
      using Cons.IH Cons.prems Cons by simp
    have "2 \<le> length (concat (map (\<lambda>x. x @ CRLF) xs))" using Cons by simp
    moreover have "find_sub (CRLF @ CRLF) (CRLF @ ?rest) = map_option (\<lambda>k. k + 2) (find_sub (CRLF @ CRLF) ?rest)"
      using Cons y by (simp add: option.map_comp comp_def)
    ultimately show ?thesis using find_blank_skip [OF x, of "CRLF @ ?rest"] ih by simp
  qed
qed simp

text \<open>The lines of a response.\<close>

definition header_line_of :: "string \<times> string \<Rightarrow> string" where
  "header_line_of kv = fst kv @ '': '' @ snd kv"

lemma header_block_lines: "header_block m = concat (map (\<lambda>x. x @ CRLF) (map header_line_of m))"
  by (simp add: header_block_def header_line_of_def comp_def case_prod_unfold)

lemma status_line_plain: "\<exists>x. status_line r = Inr (x @ CRLF) \<and> plain_line x"
  by (cases "rs_version r"; cases "rs_status r")
    (simp_all add: status_line_def HttpVersion2Str_def HttpStatus2Str_def plain_line_def int_to_string_def
      nat_to_string.simps digit_char_def char_of_def)

lemma destroy_framed:
  assumes "buf_ok b" "\<not> rs_isFileBody r" "rs_contentLength r = - 1" "length (rs_body r) < 2 ^ 31"
    and "\<forall>(k, v) \<in> set (hmap (rs_header r)). CR \<notin> set k \<and> CR \<notin> set v"
  shows "\<exists>b' t k h. destroy_response fs r b = Inr b' \<and> buf_ok b' \<and> readable b' = readable b @ t \<and>
     find_sub (CRLF @ CRLF) t = Some k \<and> drop (k + 4) t = rs_body r \<and>
     header_get ''Content-Length'' h = Some (nat_to_string (length (rs_body r))) \<and>
     (\<exists>line. status_line r = Inr line \<and> take (k + 2) t = line @ header_block (hmap h))"
proof -
  obtain x where x: "status_line r = Inr (x @ CRLF)" "plain_line x" using status_line_plain by blast
  let ?n = "length (rs_body r)"
  define h where "h = header_add ''Content-Length'' (nat_to_string ?n) (rs_header r)"
  have len: "(int ?n + 2 ^ 31) mod 2 ^ 32 - 2 ^ 31 = int ?n" using assms(4) by simp
  have fl: "fill_length fs r = Inr (r\<lparr>rs_contentLength := int ?n, rs_header := h\<rparr>)"
    using assms(2,3) len by (simp add: fill_length_def resp_header_def h_def int_to_string_def)
  define P where "P = concat (map (\<lambda>x. x @ CRLF) (x # map header_line_of (hmap h)))"
  define t where "t = P @ CRLF @ rs_body r"
  have txt': "response_text fs r = Inr t"
    using assms(2) by (simp add: response_text_def x fl t_def P_def header_block_lines)
  obtain b' where b': "destroy_response fs r b = Inr b'" "buf_ok b'" "readable b' = readable b @ t"
    using destroy_response_ok [OF assms(1), of fs r] unfolding txt' by auto
  have digits: "CR \<notin> set (nat_to_string ?n)"
    using nat_to_string_digits by (fastforce simp: isdigit_def)
  have low: "toLowers ''Content-Length'' = ''content-length''" by code_simp
  have pl: "plain_line z" if z: "z \<in> set (x # map header_line_of (hmap h))" for z
  proof (cases "z = x")
    case False
    then obtain kv where kv: "kv \<in> set (hmap h)" "z = header_line_of kv" using z False by auto
    have "kv \<in> set (hmap (rs_header r)) \<or> kv = (''content-length'', nat_to_string ?n)"
      using kv(1) set_update_subset [of "''content-length''" "nat_to_string ?n" "hmap (rs_header r)"]
      unfolding h_def header_add_def low by auto
    then show ?thesis using assms(5) digits kv(2) by (auto simp: plain_line_def header_line_of_def)
  qed (use x in simp)
  have f: "find_sub (CRLF @ CRLF) t = Some (length P - 2)"
    unfolding t_def P_def by (rule find_blank_lines) (use pl in auto)
  have P2: "2 \<le> length P" by (simp add: P_def)
  then have n: "length P - 2 + 4 = length (P @ CRLF)" "length P - 2 + 2 = length P" by simp_all
  have d: "drop (length P - 2 + 4) t = rs_body r" "take (length P - 2 + 2) t = (x @ CRLF) @ header_block (hmap h)"
    unfolding n by (simp_all add: t_def) (simp add: P_def header_block_lines)
  have g: "header_get ''Content-Length'' h = Some (nat_to_string ?n)"
    by (simp add: h_def header_get_def header_add_def update_conv)
  show ?thesis
    using b' f g x(1) d by blast
qed

text \<open>C11: a response without a file is framed correctly: the destructor appends it to the send buffer
  with the length of the body under \<open>Content-Length\<close>, and when no header name or value contains a
  carriage return, a client that looks for the first empty line finds the end of the header block and
  behind it the body.\<close>

theorem response_is_framed:
  assumes "buf_ok b" "\<not> rs_isFileBody r" "rs_contentLength r = - 1" "length (rs_body r) < 2 ^ 31"
    and "\<forall>(k, v) \<in> set (hmap (rs_header r)). CR \<notin> set k \<and> CR \<notin> set v"
  shows "\<exists>b' t k h. destroy_response fs r b = Inr b' \<and> buf_ok b' \<and> readable b' = readable b @ t \<and>
     find_sub (CRLF @ CRLF) t = Some k \<and> drop (k + 4) t = rs_body r \<and>
     header_get ''Content-Length'' h = Some (nat_to_string (length (rs_body r))) \<and>
     (\<exists>line. status_line r = Inr line \<and> take (k + 2) t = line @ header_block (hmap h))"
  by (rule destroy_framed [OF assms])

lemma response_is_framed_witness:
  "\<exists>b' t k. destroy_response (\<lambda>_. No_file) (appendBody ''hello'' (new_response ''Mon, 01 Jan 2024 00:00:00 GMT'' HTTP_1_1)) (new_buffer 8) = Inr b' \<and>
     readable b' = t \<and> find_sub (CRLF @ CRLF) t = Some k \<and> drop (k + 4) t = ''hello''"
proof -
  have "\<forall>(k, v) \<in> set (hmap (rs_header (appendBody ''hello'' (new_response ''Mon, 01 Jan 2024 00:00:00 GMT'' HTTP_1_1)))).
      CR \<notin> set k \<and> CR \<notin> set v"
    by code_simp
  from response_is_framed [OF _ _ _ _ this, of "new_buffer 8" "\<lambda>_. No_file"]
  show ?thesis by (fastforce simp: appendBody_def new_response_def)
qed

end
