(* ===== verification/Servlet.thy ===== *)
theory Servlet
  imports HttpResponse HttpRequest
begin

text \<open>
  \<open>haha_web/http/Servlet.{h,cpp}\<close>: the servlets and their dispatcher. A servlet transforms an
  exchange: request, response, connection, sessions and the calls made to the main loop. The file
  system and \<open>fnmatch\<close> are arguments; the table of content types is the one \<open>HttpTables\<close> builds.
\<close>

section \<open>Servlets\<close>

record ('j, 'v, 'c) exchange =
  ex_req :: "'j http_request"
  ex_resp :: response
  ex_conn :: "'j http_request connection"
  ex_store :: "'v session_store"
  ex_calls :: "'c list"

type_synonym ('j, 'v, 'c) servlet = "('j, 'v, 'c) exchange \<Rightarrow> ('j, 'v, 'c) exchange res"

definition on_response :: "(response \<Rightarrow> response res) \<Rightarrow> ('j, 'v, 'c) servlet" where
  "on_response f x = rbind (f (ex_resp x)) (\<lambda>r. Inr (x\<lparr>ex_resp := r\<rparr>))"

definition BASE_ROOT :: string where
  "BASE_ROOT = ''../resource''"

definition basePage :: "int \<Rightarrow> string \<Rightarrow> string res" where
  "basePage code content =
     (case map_of HttpStatus2Str code of
        None \<Rightarrow> Inl (Raised Out_of_range)
      | Some msg \<Rightarrow>
          (let text = int_to_string code @ '' '' @ msg
           in Inr (''<html><head><title>'' @ text @ ''</title></head><body><center><h1>'' @ text @
                   ''</h1></center><hr><center>'' @ content @ ''</center></body></html>'')))"

text \<open>\<open>std::filesystem::path::extension\<close>: from the last dot of the last component, unless that
  component is a dot, two dots or starts with its only dot.\<close>

definition path_filename :: "string \<Rightarrow> string" where
  "path_filename p = rev (takeWhile (\<lambda>c. c \<noteq> CHR ''/'') (rev p))"

definition path_extension :: "string \<Rightarrow> string" where
  "path_extension p =
     (let f = path_filename p;
          e = rev (takeWhile (\<lambda>c. c \<noteq> CHR ''.'') (rev f));
          rest = length f - length e
      in if f = ''.'' \<or> f = ''..'' \<or> rest \<le> 1 then [] else CHR ''.'' # e)"

definition acceptable_exts :: "string list" where
  "acceptable_exts = [''.html'', ''.htm'', ''.txt'', ''.jpg'', ''.png'']"

definition page_response :: "int \<Rightarrow> string \<Rightarrow> response \<Rightarrow> response res" where
  "page_response code content r =
     rbind (setContentType HTML r) (\<lambda>r1.
       rbind (basePage code content) (\<lambda>page. Inr (appendBody page r1)))"

text \<open>The default servlet.\<close>

definition default_servlet ::
  "(string \<Rightarrow> file_lookup) \<Rightarrow> http_content_type umap \<Rightarrow> ('j, 'v, 'c) servlet" where
  "default_servlet fs types x =
     (let code = status_code (rs_status (ex_resp x))
      in if code \<ge> 400 then on_response (page_response code ''HAHA'') x
         else let path = (if url_path (r_url (ex_req x)) = ''/'' then ''/index.html''
                          else url_path (r_url (ex_req x)));
                  p = BASE_ROOT @ path
              in if fs p \<noteq> No_file
                 then let ext = path_extension p
                      in if ext \<in> set acceptable_exts
                         then (case map_of types ext of
                                 None \<Rightarrow> Inl (Raised Out_of_range)
                               | Some ct \<Rightarrow>
                                   rbind (setContentType ct (ex_resp x)) (\<lambda>r.
                                     rbind (setFileBody fs p (r, ex_conn x)) (\<lambda>(r', c').
                                       Inr (x\<lparr>ex_resp := r', ex_conn := c'\<rparr>))))
                         else on_response (page_response code ''I don't know what do you really want'') x
                 else on_response (\<lambda>r. page_response 404 ''HAHA'' (setStatusCode NOT_FOUND r)) x)"

section \<open>The dispatcher\<close>

record ('j, 'v, 'c) dispatcher =
  servlets :: "(string \<times> ('j, 'v, 'c) servlet) list"
  defaultServlet :: "('j, 'v, 'c) servlet"

definition new_dispatcher ::
  "(string \<Rightarrow> file_lookup) \<Rightarrow> http_content_type umap \<Rightarrow> ('j, 'v, 'c) dispatcher" where
  "new_dispatcher fs types = \<lparr>servlets = [], defaultServlet = default_servlet fs types\<rparr>"

definition addServlet :: "string \<Rightarrow> ('j, 'v, 'c) servlet \<Rightarrow> ('j, 'v, 'c) dispatcher \<Rightarrow> ('j, 'v, 'c) dispatcher" where
  "addServlet uri f d = d\<lparr>servlets := AList.update uri f (servlets d)\<rparr>"

definition getServlet :: "string \<Rightarrow> ('j, 'v, 'c) dispatcher \<Rightarrow> ('j, 'v, 'c) servlet" where
  "getServlet uri d = (case map_of (servlets d) uri of None \<Rightarrow> defaultServlet d | Some f \<Rightarrow> f)"

text \<open>An exact entry, otherwise the first pattern of the iteration that \<open>fnmatch\<close> accepts.\<close>

definition find_match ::
  "(string \<Rightarrow> string \<Rightarrow> bool) \<Rightarrow> string \<Rightarrow> ('j, 'v, 'c) dispatcher \<Rightarrow> ('j, 'v, 'c) servlet option" where
  "find_match fnmatch uri d =
     (case map_of (servlets d) uri of
        Some f \<Rightarrow> Some f
      | None \<Rightarrow> map_option snd (find (\<lambda>(pat, f). fnmatch pat uri) (servlets d)))"

definition dispatch ::
  "(string \<Rightarrow> string \<Rightarrow> bool) \<Rightarrow> ('j, 'v, 'c) servlet \<Rightarrow> ('j, 'v, 'c) servlet \<Rightarrow>
   ('j, 'v, 'c) dispatcher \<Rightarrow> ('j, 'v, 'c) servlet" where
  "dispatch fnmatch preprocess postprocess d x =
     rbind (preprocess x) (\<lambda>x1.
       rbind ((case find_match fnmatch (url_path (r_url (ex_req x1))) d of
                 None \<Rightarrow> defaultServlet d
               | Some f \<Rightarrow> f) x1) postprocess)"

section \<open>Behaviour\<close>

lemma basePage_total: "\<exists>page. basePage (status_code st) content = Inr page"
  by (cases st) (simp_all add: basePage_def HttpStatus2Str_def)

lemma setContentType_total: "ct \<noteq> UNKNOW \<Longrightarrow> \<exists>name. setContentType ct r = Inr (resp_header ''Content-Type'' name r)"
  by (cases ct) (auto simp: setContentType_def HttpContentType2Name_def)

lemma page_response_total:
  "\<exists>page. page_response (status_code st) content r = Inr (appendBody page (resp_header ''Content-Type'' ''text/html'' r))"
  using basePage_total [of st content]
  by (auto simp: page_response_def setContentType_def HttpContentType2Name_def)

text \<open>The route of a request: the servlet registered under exactly the path of the URL, otherwise
  the first pattern in the order of iteration that matches the path, otherwise the default servlet; it runs between
  the two hooks, and a path registered twice is served by the last registration.\<close>

theorem dispatch_route:
  "dispatch fnmatch pre post d x = rbind (pre x) (\<lambda>x1. rbind
     (let path = url_path (r_url (ex_req x1)) in
      (if path \<in> fst ` set (servlets d) then the (map_of (servlets d) path)
       else case filter (\<lambda>(pat, f). fnmatch pat path) (servlets d) of
              [] \<Rightarrow> defaultServlet d
            | (_, f) # _ \<Rightarrow> f) x1) post) \<and>
   find_match fnmatch uri (addServlet uri f d) = Some f"
proof
  have m: "map_option snd (find P xs) = (case filter P xs of [] \<Rightarrow> None | y # ys \<Rightarrow> Some (snd y))"
    for P and xs :: "(string \<times> ('j, 'v, 'c) servlet) list"
    by (induction xs) auto
  have "(case find_match fnmatch path d of None \<Rightarrow> defaultServlet d | Some f \<Rightarrow> f) =
      (if path \<in> fst ` set (servlets d) then the (map_of (servlets d) path)
       else case filter (\<lambda>(pat, f). fnmatch pat path) (servlets d) of [] \<Rightarrow> defaultServlet d | (_, f) # _ \<Rightarrow> f)" for path
  proof (cases "map_of (servlets d) path")
    case None
    then have "path \<notin> fst ` set (servlets d)" by (simp add: map_of_eq_None_iff)
    then show ?thesis using None by (auto simp: find_match_def m split: list.split)
  next
    case (Some f)
    then have "path \<in> fst ` set (servlets d)" by (metis map_of_eq_None_iff option.distinct(1))
    then show ?thesis using Some by (simp add: find_match_def)
  qed
  then show "dispatch fnmatch pre post d x = rbind (pre x) (\<lambda>x1. rbind
     (let path = url_path (r_url (ex_req x1)) in
      (if path \<in> fst ` set (servlets d) then the (map_of (servlets d) path)
       else case filter (\<lambda>(pat, f). fnmatch pat path) (servlets d) of
              [] \<Rightarrow> defaultServlet d
            | (_, f) # _ \<Rightarrow> f) x1) post)"
    by (simp add: dispatch_def Let_def)
  show "find_match fnmatch uri (addServlet uri f d) = Some f"
    by (simp add: find_match_def addServlet_def update_conv')
qed

text \<open>The default servlet does not look at the path: whatever file the path leads to below or, with
  two dots, above the resource directory, it is attached to the connection as the body of the response,
  as long as its name has one of the five extensions.\<close>

theorem default_servlet_serves_any_path:
  assumes "status_code (rs_status (ex_resp x)) < 400" "url_path (r_url (ex_req x)) = path" "path \<noteq> ''/''"
    and "fs (BASE_ROOT @ path) = Readable bytes" "path_extension (BASE_ROOT @ path) = ext" "ext \<in> set acceptable_exts"
    and "map_of types ext = Some ct" "ct \<noteq> UNKNOW"
  shows "\<exists>x'. default_servlet fs types x = Inr x' \<and> file_rest (ex_conn x') = bytes \<and>
     rs_isFileBody (ex_resp x') \<and> rs_file_path (ex_resp x') = BASE_ROOT @ path \<and>
     rs_status (ex_resp x') = rs_status (ex_resp x)"
proof -
  obtain name where n: "setContentType ct (ex_resp x) = Inr (resp_header ''Content-Type'' name (ex_resp x))"
    using setContentType_total [OF assms(8)] by blast
  obtain f where f: "new_file_stream (Readable bytes) (isBlocked (sock (ex_conn x))) SENDFILE = Inr f"
    by (simp add: new_file_stream_def)
  show ?thesis
    using assms n f new_file_stream_ok [OF f]
    by (simp add: default_servlet_def Let_def setFileBody_def setFileStream_def file_rest_def resp_header_def)
qed

text \<open>A request for a file outside the resource directory.\<close>

definition climbing_path :: string where
  "climbing_path = ''/../../etc/motd.txt''"

definition demo_socket :: socket where
  "demo_socket = \<lparr>sk_fd = 9, isBlocked = False, sk_ssl = False, sk_errno = 0, sk_reads = [], sk_writes = [], wire = []\<rparr>"

definition climbing_exchange :: "(unit, unit, unit) exchange" where
  "climbing_exchange =
     \<lparr>ex_req = new_request\<lparr>r_url := (blank_url climbing_path)\<lparr>url_path := climbing_path\<rparr>\<rparr>,
      ex_resp = new_response [] HTTP_1_1, ex_conn = new_connection demo_socket,
      ex_store = empty_store, ex_calls = []\<rparr>"

lemma default_servlet_serves_any_path_witness:
  "\<exists>x'. default_servlet (\<lambda>p. if p = ''../resource/../../etc/motd.txt'' then Readable ''secret'' else No_file)
        [(''.txt'', PLAIN)] climbing_exchange = Inr x' \<and> file_rest (ex_conn x') = ''secret''"
  using default_servlet_serves_any_path [of climbing_exchange climbing_path
      "\<lambda>p. if p = ''../resource/../../etc/motd.txt'' then Readable ''secret'' else No_file" "''secret''" "''.txt''"
      "[(''.txt'', PLAIN)]" PLAIN]
  by (auto simp: climbing_exchange_def climbing_path_def new_response_def BASE_ROOT_def acceptable_exts_def
      path_extension_def path_filename_def Let_def)

end
