(* ===== verification/TcpServer.thy ===== *)
theory TcpServer
  imports TcpConnection EventLoop
begin

text \<open>
  \<open>haha_web/net/TcpServer.{h,cpp}\<close>: connections from accept to close over the loops of the pool.
  A connection object is known by a number; it lives as long as the table of connections or its own
  context holds it (a request keeps a shared pointer to its connection), and a weak pointer to it
  can be locked as long as it lives. The virtual functions a server overrides are a record of
  handlers. The clock is an argument of every handler.
\<close>

section \<open>State\<close>

datatype 'k server_cb = Close_conn nat | App_timer 'k

text \<open>\<open>Dangling_call\<close> is a timer call queued for another thread: its lambda holds a reference to an
  argument that no longer exists.\<close>

datatype server_task = On_connect nat | Dangling_call

datatype message_status = MSG_OK | MSG_AGAIN

text \<open>What a handler asks of the main loop.\<close>

datatype 'k main_call = Add_timer "'k server_cb timer" | Adjust_timer "'k server_cb timer"

record ('ctx, 'a, 'k) server =
  connects :: "int \<Rightarrow> nat option"
  conns :: "nat \<Rightarrow> 'ctx connection option"
  next_id :: nat
  loops :: "(server_task, 'k server_cb) event_loop list"
  sv_pool :: pool
  connTimeOut :: int
  sv_app :: 'a

record ('ctx, 'a, 'k) handlers =
  onMessage :: "timestamp \<Rightarrow> 'ctx connection \<Rightarrow> 'a \<Rightarrow>
     (message_status \<times> 'ctx connection \<times> 'a \<times> 'k main_call list) res"
  pins :: "'ctx \<Rightarrow> bool"
  onTimer :: "'k \<Rightarrow> 'a \<Rightarrow> 'a res"

text \<open>The pool started with \<open>n\<close> threads: loop \<open>i\<close> runs in thread \<open>i\<close>.\<close>

definition new_server :: "nat \<Rightarrow> int \<Rightarrow> 'a \<Rightarrow> ('ctx, 'a, 'k) server" where
  "new_server n timeout a =
     \<lparr>connects = Map.empty, conns = Map.empty, next_id = 0,
      loops = map (\<lambda>i. new_event_loop i (int i)) [0..<n + 1],
      sv_pool = \<lparr>pool_started = True, num_thread = n, pool_loops = [1..<n + 1], pool_next = 0\<rparr>,
      connTimeOut = timeout, sv_app = a\<rparr>"

section \<open>Access to loops and connections\<close>

definition get_loop :: "nat \<Rightarrow> ('ctx, 'a, 'k) server \<Rightarrow> (server_task, 'k server_cb) event_loop res" where
  "get_loop i s = (if i < length (loops s) then Inr (loops s ! i) else Inl Undefined)"

definition on_loop ::
  "nat \<Rightarrow> ((server_task, 'k server_cb) event_loop \<Rightarrow> (server_task, 'k server_cb) event_loop res) \<Rightarrow>
   ('ctx, 'a, 'k) server \<Rightarrow> ('ctx, 'a, 'k) server res" where
  "on_loop i f s =
     rbind (get_loop i s) (\<lambda>l. rbind (f l) (\<lambda>l'. Inr (s\<lparr>loops := (loops s)[i := l']\<rparr>)))"

definition set_conn :: "nat \<Rightarrow> 'ctx connection \<Rightarrow> ('ctx, 'a, 'k) server \<Rightarrow> ('ctx, 'a, 'k) server" where
  "set_conn i c s = s\<lparr>conns := (conns s)(i \<mapsto> c)\<rparr>"

text \<open>The loop of a connection, reached through its channel, and the assertion every handler makes.\<close>

definition own_loop :: "nat \<Rightarrow> 'ctx connection \<Rightarrow> ('ctx, 'a, 'k) server \<Rightarrow> nat res" where
  "own_loop tid c s =
     (case conn_channel c of
        None \<Rightarrow> Inl Undefined
      | Some ch \<Rightarrow>
          rbind (get_loop (ch_loop ch) s) (\<lambda>l.
            rbind (assertInLoopThread tid l) (\<lambda>_. Inr (ch_loop ch))))"

definition deadline :: "timestamp \<Rightarrow> ('ctx, 'a, 'k) server \<Rightarrow> timestamp res" where
  "deadline now s = nowSecond now (connTimeOut s)"

text \<open>The end of a handler: the object goes when neither the table nor its context holds it.\<close>

definition pinned :: "('ctx, 'a, 'k) handlers \<Rightarrow> 'ctx connection \<Rightarrow> bool" where
  "pinned h c \<longleftrightarrow> (\<exists>x. conn_context c = Some x \<and> pins h x)"

definition release :: "('ctx, 'a, 'k) handlers \<Rightarrow> nat \<Rightarrow> ('ctx, 'a, 'k) server \<Rightarrow> ('ctx, 'a, 'k) server" where
  "release h i s =
     (case conns s i of
        None \<Rightarrow> s
      | Some c \<Rightarrow> if connects s (getFd c) = Some i \<or> pinned h c then s
                  else s\<lparr>conns := (conns s)(i := None)\<rparr>)"

section \<open>The handlers\<close>

definition handleConnectionClose ::
  "('ctx, 'a, 'k) handlers \<Rightarrow> nat \<Rightarrow> nat \<Rightarrow> ('ctx, 'a, 'k) server \<Rightarrow> ('ctx, 'a, 'k) server res" where
  "handleConnectionClose h tid i s =
     (case conns s i of
        None \<Rightarrow> Inr s
      | Some c \<Rightarrow>
          if disconnected c \<or> conn_channel c = None then Inr s
          else rbind (own_loop tid c s) (\<lambda>k.
            rbind (on_loop k (\<lambda>l. Inr (loop_delChannel (getFd c) l)) s) (\<lambda>s1.
              Inr (release h i (set_conn i (c\<lparr>disconnected := True\<rparr>)
                (s1\<lparr>connects := (connects s1)(getFd c := None)\<rparr>))))))"

text \<open>The branches that close after deleting the timer.\<close>

definition close_and_cancel ::
  "('ctx, 'a, 'k) handlers \<Rightarrow> nat \<Rightarrow> timestamp \<Rightarrow> nat \<Rightarrow> nat \<Rightarrow> int \<Rightarrow> ('ctx, 'a, 'k) server \<Rightarrow>
   ('ctx, 'a, 'k) server res" where
  "close_and_cancel h tid now k i fd s =
     rbind (on_loop k (loop_delTimer tid \<lparr>tm_fd = fd, tm_expire = now, tm_cb = None\<rparr>) s)
       (handleConnectionClose h tid i)"

definition onConnect ::
  "nat \<Rightarrow> timestamp \<Rightarrow> nat \<Rightarrow> ('ctx, 'a, 'k) server \<Rightarrow> ('ctx, 'a, 'k) server res" where
  "onConnect tid now i s =
     (case conns s i of
        None \<Rightarrow> Inr s
      | Some c \<Rightarrow>
          rbind (own_loop tid c s) (\<lambda>k.
            rbind (on_loop k (\<lambda>l. Inr (loop_addChannel (getFd c) (ch_events (the (conn_channel c))) i l)) s) (\<lambda>s1.
              rbind (deadline now s) (\<lambda>t.
                on_loop k (loop_addTimer tid \<lparr>tm_fd = getFd c, tm_expire = t, tm_cb = Some (Close_conn i)\<rparr>) s1))))"

text \<open>A call of the main loop: at once in its thread, otherwise queued.\<close>

definition run_call :: "nat \<Rightarrow> 'k main_call \<Rightarrow> ('ctx, 'a, 'k) server \<Rightarrow> ('ctx, 'a, 'k) server res" where
  "run_call tid call s =
     on_loop 0 (\<lambda>l.
       if isInLoopThread tid l
       then (case call of Add_timer t \<Rightarrow> loop_addTimer tid t l | Adjust_timer t \<Rightarrow> loop_adjustTimer tid t l)
       else Inr (queueInLoop tid Dangling_call l)) s"

fun run_calls :: "nat \<Rightarrow> 'k main_call list \<Rightarrow> ('ctx, 'a, 'k) server \<Rightarrow> ('ctx, 'a, 'k) server res" where
  "run_calls tid [] s = Inr s"
| "run_calls tid (c # cs) s = rbind (run_call tid c s) (run_calls tid cs)"

definition rearm :: "nat \<Rightarrow> nat \<Rightarrow> nat \<Rightarrow> ('ctx, 'a, 'k) server \<Rightarrow> ('ctx, 'a, 'k) server res" where
  "rearm k i ev s =
     (case conns s i of
        None \<Rightarrow> Inl Undefined
      | Some c \<Rightarrow>
          rbind (conn_setEvents ev c) (\<lambda>c'.
            on_loop k (\<lambda>l. Inr (loop_modChannel (getFd c') ev i l)) (set_conn i c' s)))"

definition onRecv ::
  "('ctx, 'a, 'k) handlers \<Rightarrow> nat \<Rightarrow> timestamp \<Rightarrow> nat \<Rightarrow> ('ctx, 'a, 'k) server \<Rightarrow> ('ctx, 'a, 'k) server res" where
  "onRecv h tid now i s =
     (case conns s i of
        None \<Rightarrow> Inr s
      | Some c \<Rightarrow>
          rbind (conn_recv c) (\<lambda>(st, c1).
            let s1 = set_conn i c1 s
            in rbind (own_loop tid c1 s1) (\<lambda>k.
                 if st_type st = S_CLOSED \<or> st_type st = S_ERROR
                 then close_and_cancel h tid now k i (getFd c1) s1
                 else rbind (onMessage h now c1 (sv_app s1)) (\<lambda>(ret, c2, a, calls).
                        rbind (run_calls tid calls (set_conn i c2 (s1\<lparr>sv_app := a\<rparr>))) (\<lambda>s2.
                          if ret = MSG_AGAIN then rearm k i (EPOLLIN OR kConnectionEvent) s2
                          else rearm k i (EPOLLOUT OR kConnectionEvent) s2)))))"

definition onSend ::
  "('ctx, 'a, 'k) handlers \<Rightarrow> nat \<Rightarrow> timestamp \<Rightarrow> nat \<Rightarrow> ('ctx, 'a, 'k) server \<Rightarrow> ('ctx, 'a, 'k) server res" where
  "onSend h tid now i s =
     (case conns s i of
        None \<Rightarrow> Inr s
      | Some c \<Rightarrow>
          rbind (conn_send c) (\<lambda>(st, c1).
            let s1 = set_conn i c1 s
            in rbind (own_loop tid c1 s1) (\<lambda>k.
                 case st_type st of
                   S_COMPLETED \<Rightarrow>
                     if keepAlive c1 then rearm k i (EPOLLIN OR kConnectionEvent) s1
                     else close_and_cancel h tid now k i (getFd c1) s1
                 | S_AGAIN \<Rightarrow> rearm k i (EPOLLOUT OR kConnectionEvent) s1
                 | _ \<Rightarrow> close_and_cancel h tid now k i (getFd c1) s1)))"

text \<open>Both event handlers postpone the deadline and go on in the same thread.\<close>

definition postpone_then ::
  "(nat \<Rightarrow> ('ctx, 'a, 'k) server \<Rightarrow> ('ctx, 'a, 'k) server res) \<Rightarrow>
   nat \<Rightarrow> timestamp \<Rightarrow> nat \<Rightarrow> ('ctx, 'a, 'k) server \<Rightarrow> ('ctx, 'a, 'k) server res" where
  "postpone_then f tid now i s =
     (case conns s i of
        None \<Rightarrow> Inr s
      | Some c \<Rightarrow>
          if disconnected c \<or> conn_channel c = None then Inr s
          else rbind (own_loop tid c s) (\<lambda>k.
            rbind (deadline now s) (\<lambda>t.
              rbind (on_loop k (loop_adjustTimer tid \<lparr>tm_fd = getFd c, tm_expire = t, tm_cb = None\<rparr>) s) (f i))))"

definition handleConnectionRead ::
  "('ctx, 'a, 'k) handlers \<Rightarrow> nat \<Rightarrow> timestamp \<Rightarrow> nat \<Rightarrow> ('ctx, 'a, 'k) server \<Rightarrow> ('ctx, 'a, 'k) server res" where
  "handleConnectionRead h tid now = postpone_then (onRecv h tid now) tid now"

definition handleConnectionWrite ::
  "('ctx, 'a, 'k) handlers \<Rightarrow> nat \<Rightarrow> timestamp \<Rightarrow> nat \<Rightarrow> ('ctx, 'a, 'k) server \<Rightarrow> ('ctx, 'a, 'k) server res" where
  "handleConnectionWrite h tid now = postpone_then (onSend h tid now) tid now"

text \<open>\<open>accept\<close> answers \<open>None\<close> or a socket.\<close>

definition handleServerAccept ::
  "nat \<Rightarrow> timestamp \<Rightarrow> socket option \<Rightarrow> ('ctx, 'a, 'k) server \<Rightarrow> ('ctx, 'a, 'k) server res" where
  "handleServerAccept tid now ans s =
     (case ans of
        None \<Rightarrow> Inr s
      | Some sk \<Rightarrow>
          rbind (getNextLoop tid (sv_pool s)) (\<lambda>(k, p).
            let i = next_id s;
                fd = sk_fd sk;
                c = (new_connection (setNonBlocking sk))
                      \<lparr>conn_channel := Some \<lparr>ch_fd = fd, ch_events = EPOLLIN OR kConnectionEvent, ch_loop = k\<rparr>\<rparr>;
                s1 = s\<lparr>sv_pool := p, next_id := i + 1, conns := (conns s)(i \<mapsto> c), connects := (connects s)(fd \<mapsto> i)\<rparr>
            in rbind (get_loop k s1) (\<lambda>l.
                 if isInLoopThread tid l then onConnect tid now i s1
                 else on_loop k (\<lambda>l. Inr (queueInLoop tid (On_connect i) l)) s1)))"

section \<open>One round of a loop\<close>

definition run_task :: "nat \<Rightarrow> timestamp \<Rightarrow> server_task \<Rightarrow> ('ctx, 'a, 'k) server \<Rightarrow> ('ctx, 'a, 'k) server res" where
  "run_task tid now t s = (case t of On_connect i \<Rightarrow> onConnect tid now i s | Dangling_call \<Rightarrow> Inl Undefined)"

fun run_server_tasks :: "nat \<Rightarrow> timestamp \<Rightarrow> server_task list \<Rightarrow> ('ctx, 'a, 'k) server \<Rightarrow> ('ctx, 'a, 'k) server res" where
  "run_server_tasks tid now [] s = Inr s"
| "run_server_tasks tid now (t # ts) s = rbind (run_task tid now t s) (run_server_tasks tid now ts)"

definition doPendingTasks :: "nat \<Rightarrow> timestamp \<Rightarrow> nat \<Rightarrow> ('ctx, 'a, 'k) server \<Rightarrow> ('ctx, 'a, 'k) server res" where
  "doPendingTasks tid now k s =
     rbind (get_loop k s) (\<lambda>l.
       let (ts, l') = take_tasks l
       in rbind (run_server_tasks tid now ts (s\<lparr>loops := (loops s)[k := l']\<rparr>))
            (on_loop k (\<lambda>l. Inr (end_tasks l))))"

text \<open>An event of a connection: the loop calls the channel it registered, a raw pointer.\<close>

definition handle_conn_event ::
  "('ctx, 'a, 'k) handlers \<Rightarrow> nat \<Rightarrow> timestamp \<Rightarrow> nat \<Rightarrow> nat \<Rightarrow> ('ctx, 'a, 'k) server \<Rightarrow> ('ctx, 'a, 'k) server res" where
  "handle_conn_event h tid now i revents s =
     (if conns s i = None then Inl Undefined
      else case channel_dispatch revents of
             None \<Rightarrow> Inr s
           | Some Close_cb \<Rightarrow> handleConnectionClose h tid i s
           | Some Read_cb \<Rightarrow> handleConnectionRead h tid now i s
           | Some Write_cb \<Rightarrow> handleConnectionWrite h tid now i s)"

text \<open>The callbacks of the timers of loop \<open>k\<close>; they leave its heap alone.\<close>

definition run_timer_cb ::
  "('ctx, 'a, 'k) handlers \<Rightarrow> nat \<Rightarrow> 'k server_cb \<Rightarrow> ('ctx, 'a, 'k) server \<Rightarrow> ('ctx, 'a, 'k) server res" where
  "run_timer_cb h tid cb s =
     (case cb of
        Close_conn i \<Rightarrow> handleConnectionClose h tid i s
      | App_timer x \<Rightarrow> rbind (onTimer h x (sv_app s)) (\<lambda>a. Inr (s\<lparr>sv_app := a\<rparr>)))"

definition handle_loop_timeout ::
  "('ctx, 'a, 'k) handlers \<Rightarrow> nat \<Rightarrow> timestamp \<Rightarrow> nat \<Rightarrow> ('ctx, 'a, 'k) server \<Rightarrow> ('ctx, 'a, 'k) server res" where
  "handle_loop_timeout h tid now k s =
     rbind (get_loop k s) (\<lambda>l.
       case handleTimeout tid now (\<lambda>cb (s', hp). rbind (run_timer_cb h tid cb s') (\<lambda>s''. Inr (s'', hp))) s (el_timers l) of
         None \<Rightarrow> Inl Diverges
       | Some r \<Rightarrow> rbind r (\<lambda>(s1, q). on_loop k (\<lambda>l'. Inr (l'\<lparr>el_timers := q\<rparr>)) s1))"

text \<open>The active channels of a batch.\<close>

datatype active = A_conn nat nat | A_timeout | A_wakeup | A_listen "socket option"

definition handle_active ::
  "('ctx, 'a, 'k) handlers \<Rightarrow> timestamp \<Rightarrow> nat \<Rightarrow> active \<Rightarrow> ('ctx, 'a, 'k) server \<Rightarrow> ('ctx, 'a, 'k) server res" where
  "handle_active h now k e s =
     (case e of
        A_conn i revents \<Rightarrow> handle_conn_event h k now i revents s
      | A_timeout \<Rightarrow> handle_loop_timeout h k now k s
      | A_wakeup \<Rightarrow> on_loop k (\<lambda>l. Inr (handleWakeup l)) s
      | A_listen ans \<Rightarrow> handleServerAccept k now ans s)"

fun handle_batch ::
  "('ctx, 'a, 'k) handlers \<Rightarrow> timestamp \<Rightarrow> nat \<Rightarrow> active list \<Rightarrow> ('ctx, 'a, 'k) server \<Rightarrow> ('ctx, 'a, 'k) server res" where
  "handle_batch h now k [] s = Inr s"
| "handle_batch h now k (e # es) s = rbind (handle_active h now k e s) (handle_batch h now k es)"

text \<open>One turn of \<open>EventLoop::loop\<close> in the thread of loop \<open>k\<close>.\<close>

definition loop_round ::
  "('ctx, 'a, 'k) handlers \<Rightarrow> timestamp \<Rightarrow> nat \<Rightarrow> active list \<Rightarrow> ('ctx, 'a, 'k) server \<Rightarrow> ('ctx, 'a, 'k) server res" where
  "loop_round h now k es s = rbind (handle_batch h now k es s) (doPendingTasks k now k)"

text \<open>The virtual functions of \<open>TcpServer\<close> itself.\<close>

definition tcp_onMessage ::
  "timestamp \<Rightarrow> 'ctx connection \<Rightarrow> 'a \<Rightarrow> (message_status \<times> 'ctx connection \<times> 'a \<times> 'k main_call list) res" where
  "tcp_onMessage now c a = Inr (MSG_OK, c, a, [])"

definition tcp_handlers :: "('ctx, 'a, 'k) handlers" where
  "tcp_handlers = \<lparr>onMessage = tcp_onMessage, pins = (\<lambda>_. False), onTimer = (\<lambda>_ a. Inr a)\<rparr>"

end
