(* ===== verification/TcpServerInv.thy ===== *)
theory TcpServerInv
  imports TcpServer
begin

text \<open>
  The invariant of a server and its preservation by every handler. What the handlers need from the
  code a server supplies is the locale \<open>tcp_app\<close>; the functions of \<open>TcpServer\<close> itself satisfy it.
\<close>

section \<open>A loop and its timers\<close>

text \<open>Descriptors stay below the largest limit Linux allows (\<open>fs.nr_open\<close>).\<close>

definition fd_ok :: "int \<Rightarrow> bool" where
  "fd_ok fd \<longleftrightarrow> 0 \<le> fd \<and> fd < 2 ^ 30"

definition heap_of :: "('t, 'c) event_loop \<Rightarrow> 'c timer_heap" where
  "heap_of l = timerHeap (el_timers l)"

definition timers_of :: "('t, 'c) event_loop \<Rightarrow> int \<Rightarrow> 'c timer option" where
  "timers_of l = timers (heap_of l)"

text \<open>\<open>limit\<close> bounds the deadlines: the current time plus the timeout.\<close>

definition loop_ok :: "timestamp \<Rightarrow> nat \<Rightarrow> ('t, 'k server_cb) event_loop \<Rightarrow> bool" where
  "loop_ok limit k l \<longleftrightarrow> el_thread l = k \<and> threadId (heap_of l) = k \<and> heap_inv (heap_of l) \<and>
     (\<forall>fd t. timers_of l fd = Some t \<longrightarrow> fd_ok fd \<and> tm_expire t \<le> limit \<and> (\<exists>j. tm_cb t = Some (Close_conn j)))"

lemma loop_okD:
  assumes "loop_ok limit k l"
  shows "el_thread l = k" "threadId (heap_of l) = k" "heap_inv (heap_of l)"
    and "timers_of l fd = Some t \<Longrightarrow> fd_ok fd \<and> tm_expire t \<le> limit \<and> (\<exists>j. tm_cb t = Some (Close_conn j))"
  using assms by (auto simp: loop_ok_def)

lemma loop_ok_length:
  assumes "loop_ok limit k l"
  shows "length (heap (heap_of l)) \<le> 2 ^ 30"
proof -
  let ?h = "heap_of l"
  have r: "ref_ok ?h" using loop_okD(3) [OF assms] by (simp add: heap_inv_def)
  have "set (map tm_fd (heap ?h)) \<subseteq> {0..<2 ^ 30}"
  proof
    fix fd assume "fd \<in> set (map tm_fd (heap ?h))"
    then obtain t where "t \<in> set (heap ?h)" "tm_fd t = fd" by auto
    then have "timers_of l fd = Some t" using ref_ok_timers [OF r] by (auto simp: timers_of_def)
    then show "fd \<in> {0..<2 ^ 30}" using loop_okD(4) [OF assms] by (auto simp: fd_ok_def)
  qed
  then have "card (set (map tm_fd (heap ?h))) \<le> card {0..<2 ^ 30 :: int}" by (intro card_mono) simp_all
  then show ?thesis using distinct_card [OF ref_ok_distinct [OF r]] by simp
qed

lemma loop_ok_mono: "loop_ok limit k l \<Longrightarrow> limit \<le> limit' \<Longrightarrow> loop_ok limit' k l"
  by (fastforce simp: loop_ok_def)

lemma loop_ok_frame:
  "el_thread l' = el_thread l \<Longrightarrow> el_timers l' = el_timers l \<Longrightarrow> loop_ok limit k l' = loop_ok limit k l"
  by (simp add: loop_ok_def heap_of_def timers_of_def)

text \<open>The three operations on the timers of a loop, called from its thread.\<close>

lemma loop_addTimer_ok:
  assumes "loop_ok limit k l" "fd_ok (tm_fd t)" "tm_expire t \<le> limit" "tm_cb t = Some (Close_conn j)"
  shows "\<exists>q. loop_addTimer k t l = Inr (l\<lparr>el_timers := q\<rparr>) \<and> loop_ok limit k (l\<lparr>el_timers := q\<rparr>) \<and>
    timers (timerHeap q) = (timers_of l)(tm_fd t \<mapsto> t)"
proof -
  let ?h = "heap_of l"
  have len: "length (heap ?h) < 2 ^ 31" using loop_ok_length [OF assms(1)] by simp
  note l = loop_okD [OF assms(1)]
  have fd: "0 \<le> tm_fd t" using assms(2) by (simp add: fd_ok_def)
  obtain h' where h': "heap_push k t ?h = Inr h'" "heap_inv h'" "threadId h' = k" "timers h' = (timers ?h)(tm_fd t \<mapsto> t)"
  proof (cases "ref ?h (tm_fd t)")
    case None
    then show ?thesis using heap_push_new [OF l(3) _ fd None len, of k] l(2) that by blast
  next
    case (Some i)
    then show ?thesis using heap_push_old [OF l(3) _ fd Some, of k] l(2) len that by fastforce
  qed
  let ?q = "(el_timers l)\<lparr>timerHeap := h'\<rparr>"
  have "loop_addTimer k t l = Inr (l\<lparr>el_timers := ?q\<rparr>)"
    using h'(1) by (simp add: loop_addTimer_def on_timers_def tq_push_def heap_of_def)
  moreover have "loop_ok limit k (l\<lparr>el_timers := ?q\<rparr>)"
    using l assms h'(2-4) by (auto simp: loop_ok_def heap_of_def timers_of_def)
  ultimately show ?thesis using h'(4) by (intro exI [of _ ?q]) (simp add: timers_of_def)
qed

lemma loop_adjustTimer_ok:
  assumes "loop_ok limit k l" "tm_expire t = limit"
  shows "\<exists>q. loop_adjustTimer k t l = Inr (l\<lparr>el_timers := q\<rparr>) \<and> loop_ok limit k (l\<lparr>el_timers := q\<rparr>) \<and>
    timers (timerHeap q) = (case timers_of l (tm_fd t) of None \<Rightarrow> timers_of l
      | Some u \<Rightarrow> (timers_of l)(tm_fd t \<mapsto> u\<lparr>tm_expire := limit\<rparr>))"
proof -
  let ?h = "heap_of l"
  note l = loop_okD [OF assms(1)]
  have le: "tm_expire u \<le> tm_expire t" if "timers ?h (tm_fd t) = Some u" for u
    using l(4) that assms(2) by (auto simp: timers_of_def)
  obtain h' where h': "heap_adjust k t ?h = Inr h'" "heap_inv h'" "threadId h' = k"
      "timers h' = (case timers ?h (tm_fd t) of None \<Rightarrow> timers ?h
        | Some u \<Rightarrow> (timers ?h)(tm_fd t \<mapsto> u\<lparr>tm_expire := tm_expire t\<rparr>))"
    using heap_adjust_ok [OF l(3) _ le, of k] l(2) by blast
  let ?q = "(el_timers l)\<lparr>timerHeap := h'\<rparr>"
  have "loop_adjustTimer k t l = Inr (l\<lparr>el_timers := ?q\<rparr>)"
    using h'(1) by (simp add: loop_adjustTimer_def on_timers_def tq_adjust_def heap_of_def)
  moreover have "loop_ok limit k (l\<lparr>el_timers := ?q\<rparr>)"
    using l(1,4) assms h'(2-4)
    by (auto simp: loop_ok_def heap_of_def timers_of_def split: option.splits if_splits)
  ultimately show ?thesis using h'(4) unfolding timers_of_def assms(2) by (intro exI [of _ ?q]) simp
qed

lemma loop_delTimer_ok:
  assumes "loop_ok limit k l"
  shows "\<exists>q. loop_delTimer k t l = Inr (l\<lparr>el_timers := q\<rparr>) \<and> loop_ok limit k (l\<lparr>el_timers := q\<rparr>) \<and>
    timers (timerHeap q) = (timers_of l)(tm_fd t := None)"
proof -
  let ?h = "heap_of l"
  note l = loop_okD [OF assms]
  have len: "length (heap ?h) \<le> 2 ^ 31" using loop_ok_length [OF assms] by simp
  obtain h' where h': "heap_remove k t ?h = Inr h'" "heap_inv h'" "threadId h' = k" "timers h' = (timers ?h)(tm_fd t := None)"
    using heap_remove_ok [OF l(3) _ len, of k t] l(2) by blast
  let ?q = "(el_timers l)\<lparr>timerHeap := h'\<rparr>"
  have "loop_delTimer k t l = Inr (l\<lparr>el_timers := ?q\<rparr>)"
    using h'(1) by (simp add: loop_delTimer_def on_timers_def tq_remove_def heap_of_def)
  moreover have "loop_ok limit k (l\<lparr>el_timers := ?q\<rparr>)"
    using l(1,4) h'(2-4) by (auto simp: loop_ok_def heap_of_def timers_of_def)
  ultimately show ?thesis using h'(4) by (intro exI [of _ ?q]) (simp add: timers_of_def)
qed

section \<open>The invariant\<close>

text \<open>A connection in the table: alive, open, and belonging to loop \<open>k\<close>.\<close>

definition conn_at :: "('ctx, 'a, 'k) server \<Rightarrow> int \<Rightarrow> nat \<Rightarrow> nat \<Rightarrow> bool" where
  "conn_at s fd i k \<longleftrightarrow> connects s fd = Some i \<and> fd_ok fd \<and> k < length (loops s) \<and>
     (\<exists>c ch. conns s i = Some c \<and> conn_ok c \<and> getFd c = fd \<and> \<not> disconnected c \<and>
        conn_channel c = Some ch \<and> ch_loop ch = k)"

text \<open>
  What holds of the registrations and timers of a loop. \<open>T\<close> are the tasks still to run, by loop; the
  descriptors in \<open>X\<close> are excused from having a timer.
\<close>

definition loop_inv ::
  "timestamp \<Rightarrow> int set \<Rightarrow> (nat \<Rightarrow> server_task list) \<Rightarrow> ('ctx, 'a, 'k) server \<Rightarrow> nat \<Rightarrow>
   (server_task, 'k server_cb) event_loop \<Rightarrow> bool" where
  "loop_inv limit X T s k l \<longleftrightarrow> loop_ok limit k l \<and>
     (\<forall>fd ev i. el_epoll l fd = Some (ev, i) \<longrightarrow> conn_at s fd i k \<and> On_connect i \<notin> set (T k) \<and>
        (fd \<notin> X \<longrightarrow> (\<exists>t. timers_of l fd = Some t \<and> tm_cb t = Some (Close_conn i)))) \<and>
     (\<forall>fd t i. timers_of l fd = Some t \<longrightarrow> tm_cb t = Some (Close_conn i) \<longrightarrow>
        i < next_id s \<and> (\<forall>k'. On_connect i \<notin> set (T k')) \<and>
        (\<forall>c. conns s i = Some c \<longrightarrow> getFd c = fd \<and> (\<exists>ch. conn_channel c = Some ch \<and> ch_loop ch = k)))"

definition pool_ok :: "pool \<Rightarrow> bool" where
  "pool_ok p \<longleftrightarrow> pool_loops p = [1..<num_thread p + 1] \<and> (0 < num_thread p \<longrightarrow> pool_next p < num_thread p)"

definition server_inv ::
  "timestamp \<Rightarrow> int set \<Rightarrow> (nat \<Rightarrow> server_task list) \<Rightarrow> ('ctx, 'a, 'k) server \<Rightarrow> bool" where
  "server_inv limit X T s \<longleftrightarrow> length (loops s) = num_thread (sv_pool s) + 1 \<and> pool_ok (sv_pool s) \<and>
     (\<forall>k < length (loops s). loop_inv limit X T s k (loops s ! k)) \<and>
     (\<forall>fd i. connects s fd = Some i \<longrightarrow> (\<exists>k. conn_at s fd i k)) \<and>
     (\<forall>i c. conns s i = Some c \<longrightarrow> i < next_id s \<and> (disconnected c \<or> connects s (getFd c) = Some i)) \<and>
     (\<forall>k. distinct (T k) \<and> (\<forall>t \<in> set (T k). \<exists>i fd. t = On_connect i \<and> conn_at s fd i k))"

lemma server_invD:
  assumes "server_inv limit X T s"
  shows "length (loops s) = num_thread (sv_pool s) + 1" "pool_ok (sv_pool s)"
    and "k < length (loops s) \<Longrightarrow> loop_inv limit X T s k (loops s ! k)"
    and "connects s fd = Some i \<Longrightarrow> \<exists>k. conn_at s fd i k"
    and "conns s i = Some c \<Longrightarrow> i < next_id s \<and> (disconnected c \<or> connects s (getFd c) = Some i)"
    and "distinct (T k)" "t \<in> set (T k) \<Longrightarrow> \<exists>i fd. t = On_connect i \<and> conn_at s fd i k"
  using assms by (auto simp: server_inv_def)

lemma loop_invD:
  assumes "loop_inv limit X T s k l"
  shows "loop_ok limit k l"
    and "el_epoll l fd = Some (ev, i) \<Longrightarrow> conn_at s fd i k \<and> On_connect i \<notin> set (T k)"
    and "el_epoll l fd = Some (ev, i) \<Longrightarrow> fd \<notin> X \<Longrightarrow> \<exists>t. timers_of l fd = Some t \<and> tm_cb t = Some (Close_conn i)"
    and "timers_of l fd = Some t \<Longrightarrow> tm_cb t = Some (Close_conn i) \<Longrightarrow> i < next_id s \<and> On_connect i \<notin> set (T k')"
    and "timers_of l fd = Some t \<Longrightarrow> tm_cb t = Some (Close_conn i) \<Longrightarrow> conns s i = Some c \<Longrightarrow>
      getFd c = fd \<and> (\<exists>ch. conn_channel c = Some ch \<and> ch_loop ch = k)"
  using assms unfolding loop_inv_def by blast+

lemma conn_at_loops [simp]: "length ls = length (loops s) \<Longrightarrow> conn_at (s\<lparr>loops := ls\<rparr>) = conn_at s"
  by (intro ext) (simp add: conn_at_def)

lemma conn_atD:
  assumes "conn_at s fd i k"
  shows "connects s fd = Some i" "fd_ok fd" "k < length (loops s)"
    and "\<exists>c ch. conns s i = Some c \<and> conn_ok c \<and> getFd c = fd \<and> \<not> disconnected c \<and>
      conn_channel c = Some ch \<and> ch_loop ch = k"
  using assms by (auto simp: conn_at_def)

lemma conn_at_unique: "conn_at s fd i k \<Longrightarrow> conn_at s fd' i k' \<Longrightarrow> fd' = fd \<and> k' = k"
  by (auto simp: conn_at_def)

text \<open>Changing one loop.\<close>

lemma server_inv_loop:
  assumes "server_inv limit X T s" "k < length (loops s)" "loop_inv limit X' T' s k l'" "X \<subseteq> X'"
    and "\<And>k'. distinct (T' k') \<and> set (T' k') \<subseteq> set (T k')"
  shows "server_inv limit X' T' (s\<lparr>loops := (loops s)[k := l']\<rparr>)"
proof -
  have "loop_inv limit X' T' s k' (loops s ! k')" if "k' < length (loops s)" for k'
    using server_invD(3) [OF assms(1) that] assms(4,5) unfolding loop_inv_def by blast
  then have "loop_inv limit X' T' s k' ((loops s)[k := l'] ! k')" if "k' < length (loops s)" for k'
    using that assms(2,3) by (cases "k = k'") simp_all
  moreover have "loop_inv limit X' T' (s\<lparr>loops := (loops s)[k := l']\<rparr>) = loop_inv limit X' T' s"
    by (intro ext) (simp add: loop_inv_def)
  moreover have "\<exists>i fd. t = On_connect i \<and> conn_at s fd i k'" if "t \<in> set (T' k')" for t k'
    using that assms(1,5) by (blast dest: server_invD(7))
  ultimately show ?thesis using assms(1,5) by (simp add: server_inv_def)
qed

text \<open>Changing a connection without closing it.\<close>

lemma server_inv_conn:
  assumes "server_inv limit X T s" "conns s i = Some c"
    and "conn_ok c \<Longrightarrow> conn_ok c'" "getFd c' = getFd c" "disconnected c' = disconnected c"
    and "map_option ch_loop (conn_channel c') = map_option ch_loop (conn_channel c)"
  shows "server_inv limit X T (set_conn i c' s)"
proof -
  have ch: "(\<exists>ch. conn_channel c' = Some ch \<and> ch_loop ch = k) \<longleftrightarrow> (\<exists>ch. conn_channel c = Some ch \<and> ch_loop ch = k)" for k
    using assms(6) by (cases "conn_channel c"; cases "conn_channel c'") auto
  have at: "conn_at s fd j k \<Longrightarrow> conn_at (set_conn i c' s) fd j k" for fd j k
    using assms(2-5) ch [of k] by (auto simp: conn_at_def set_conn_def)
  have "loop_inv limit X T (set_conn i c' s) k (loops s ! k)" if "k < length (loops s)" for k
  proof -
    note l = server_invD(3) [OF assms(1) that]
    show ?thesis
      unfolding loop_inv_def
    proof (intro conjI allI impI)
      fix fd t j d assume "timers_of (loops s ! k) fd = Some t" "tm_cb t = Some (Close_conn j)"
        and c: "conns (set_conn i c' s) j = Some d"
      then have *: "conns s j = Some e \<Longrightarrow> getFd e = fd \<and> (\<exists>ch. conn_channel e = Some ch \<and> ch_loop ch = k)" for e
        using loop_invD(5) [OF l] by blast
      then show "getFd d = fd" "\<exists>ch. conn_channel d = Some ch \<and> ch_loop ch = k"
        using c assms(2,4) ch [of k] by (auto simp: set_conn_def split: if_splits)
    next
      fix fd t j assume "timers_of (loops s ! k) fd = Some t" "tm_cb t = Some (Close_conn j)"
      then show "j < next_id (set_conn i c' s)" "On_connect j \<notin> set (T k')" for k'
        using loop_invD(4) [OF l] by (simp_all add: set_conn_def)
    qed (use loop_invD(1-3) [OF l] at in \<open>blast+\<close>)
  qed
  moreover have "j < next_id s \<and> (disconnected d \<or> connects s (getFd d) = Some j)"
    if "conns (set_conn i c' s) j = Some d" for j d
    using that assms(1,2,4,5) server_invD(5) [OF assms(1)] by (auto simp: set_conn_def split: if_splits)
  ultimately show ?thesis
    using assms(1) at unfolding server_inv_def by (simp add: set_conn_def) blast
qed

lemma server_inv_app [simp]: "server_inv limit X T (s\<lparr>sv_app := a\<rparr>) = server_inv limit X T s"
  by (simp add: server_inv_def loop_inv_def conn_at_def)

section \<open>Closing a connection\<close>

lemma own_loop_ok:
  assumes "server_inv limit X T s" "k < length (loops s)" "conn_channel c = Some ch" "ch_loop ch = k"
  shows "own_loop k c s = Inr k"
  using assms loop_okD(1) [OF loop_invD(1) [OF server_invD(3) [OF assms(1,2)]]]
  by (simp add: own_loop_def get_loop_def assertInLoopThread_def isInLoopThread_def)

definition closed ::
  "('ctx, 'a, 'k) handlers \<Rightarrow> int \<Rightarrow> nat \<Rightarrow> nat \<Rightarrow> ('ctx, 'a, 'k) server \<Rightarrow> ('ctx, 'a, 'k) server" where
  "closed h fd i k s =
     s\<lparr>connects := (connects s)(fd := None),
       conns := (conns s)(i := (case conns s i of
          None \<Rightarrow> None
        | Some c \<Rightarrow> if pinned h c then Some (c\<lparr>disconnected := True\<rparr>) else None)),
       loops := (loops s)[k := loop_delChannel fd (loops s ! k)]\<rparr>"

lemma handleConnectionClose_thread:
  assumes "conn_at s fd i k" "el_thread (loops s ! k) = k"
  shows "handleConnectionClose h k i s = Inr (closed h fd i k s)"
proof -
  obtain c ch where c: "conns s i = Some c" "getFd c = fd" "\<not> disconnected c" "conn_channel c = Some ch" "ch_loop ch = k"
    using conn_atD(4) [OF assms(1)] by blast
  have "own_loop k c s = Inr k"
    using assms(2) c(4,5) conn_atD(3) [OF assms(1)]
    by (simp add: own_loop_def get_loop_def assertInLoopThread_def isInLoopThread_def)
  then show ?thesis using c conn_atD(3) [OF assms(1)]
    by (auto simp: handleConnectionClose_def on_loop_def get_loop_def release_def set_conn_def closed_def
        pinned_def getFd_def)
qed

lemma handleConnectionClose_open:
  assumes "conn_at s fd i k" "server_inv limit X T s"
  shows "handleConnectionClose h k i s = Inr (closed h fd i k s)"
  using handleConnectionClose_thread [OF assms(1)] conn_atD(3) [OF assms(1)]
    loop_okD(1) [OF loop_invD(1) [OF server_invD(3) [OF assms(2)]]] by blast

lemma handleConnectionClose_gone:
  "(\<And>c. conns s i = Some c \<Longrightarrow> disconnected c) \<Longrightarrow> handleConnectionClose h k i s = Inr s"
  by (auto simp: handleConnectionClose_def split: option.split)

lemma closed_sel [simp]:
  "length (loops (closed h fd i k s)) = length (loops s)" "next_id (closed h fd i k s) = next_id s"
  "sv_pool (closed h fd i k s) = sv_pool s" "connTimeOut (closed h fd i k s) = connTimeOut s"
  by (simp_all add: closed_def)

lemma closed_conn_at:
  assumes "conn_at s fd i k" "conn_at s fd' j k'"
  shows "conn_at (closed h fd i k s) fd' j k' \<longleftrightarrow> j \<noteq> i"
  using assms by (auto simp: conn_at_def closed_def split: if_splits)

text \<open>A connection that is closed has no registration left and needs no timer.\<close>

lemma closed_loop_inv:
  assumes "conn_at s fd i k" "server_inv limit (insert fd X) T s" "k' < length (loops s)"
  shows "loop_inv limit X T (closed h fd i k s) k' (loops (closed h fd i k s) ! k')" (is "loop_inv _ _ _ ?s _ _")
proof -
  note at = closed_conn_at [OF assms(1), of _ _ _ h]
  have same: "timers_of (loops ?s ! k') = timers_of (loops s ! k')"
      "loop_ok limit k' (loops ?s ! k') = loop_ok limit k' (loops s ! k')"
    using assms(3) loop_ok_frame [of "loop_delChannel fd (loops s ! k)" "loops s ! k"]
    by (cases "k' = k"; simp add: closed_def timers_of_def heap_of_def loop_delChannel_def)+
  have reg: "el_epoll (loops s ! k') fd' = Some (ev, j) \<and> fd' \<noteq> fd \<and> j \<noteq> i"
    if "el_epoll (loops ?s ! k') fd' = Some (ev, j)" for fd' ev j
  proof -
    have r: "el_epoll (loops s ! k') fd' = Some (ev, j)" "\<not> (k' = k \<and> fd' = fd)"
      using that assms(3) by (cases "k' = k"; auto simp: closed_def loop_delChannel_def epoll_del_def split: if_splits)+
    then have "conn_at s fd' j k'" using loop_invD(2) [OF server_invD(3) [OF assms(2,3)]] by blast
    then have "fd' \<noteq> fd \<and> j \<noteq> i"
      using r(2) assms(1) by (auto simp: conn_at_def)
    with r(1) show ?thesis by simp
  qed
  note l = server_invD(3) [OF assms(2,3)]
  show ?thesis
    unfolding loop_inv_def same
  proof (intro conjI allI impI)
    fix fd' ev j assume "el_epoll (loops ?s ! k') fd' = Some (ev, j)"
    note r = reg [OF this]
    show "conn_at ?s fd' j k'" "On_connect j \<notin> set (T k')"
      using r at loop_invD(2) [OF l] by blast+
    show "\<exists>t. timers_of (loops s ! k') fd' = Some t \<and> tm_cb t = Some (Close_conn j)" if "fd' \<notin> X"
      using r that loop_invD(3) [OF l] by blast
  next
    fix fd' t j c assume t: "timers_of (loops s ! k') fd' = Some t" "tm_cb t = Some (Close_conn j)"
      and "conns ?s j = Some c"
    then obtain e where "conns s j = Some e" "getFd c = getFd e" "conn_channel c = conn_channel e"
      by (auto simp: closed_def getFd_def split: if_splits option.splits)
    then show "getFd c = fd'" "\<exists>ch. conn_channel c = Some ch \<and> ch_loop ch = k'"
      using loop_invD(5) [OF l t] by auto
  next
    fix fd' t j assume "timers_of (loops s ! k') fd' = Some t" "tm_cb t = Some (Close_conn j)"
    then show "j < next_id ?s" "On_connect j \<notin> set (T k'')" for k''
      using loop_invD(4) [OF l] by simp_all
  qed (use loop_invD(1) [OF l] in simp)
qed

lemma closed_inv:
  assumes "conn_at s fd i k" "server_inv limit (insert fd X) T s" "\<And>k'. On_connect i \<notin> set (T k')"
  shows "server_inv limit X T (closed h fd i k s)" (is "server_inv _ _ _ ?s")
proof -
  note at = closed_conn_at [OF assms(1), of _ _ _ h]
  have "loop_inv limit X T ?s k' (loops ?s ! k')" if "k' < length (loops s)" for k'
    by (rule closed_loop_inv [OF assms(1,2) that])
  moreover have "\<exists>k'. conn_at ?s fd' j k'" if "connects ?s fd' = Some j" for fd' j
  proof -
    have c: "connects s fd' = Some j" "fd' \<noteq> fd" using that by (auto simp: closed_def split: if_splits)
    obtain k' where "conn_at s fd' j k'" using server_invD(4) [OF assms(2) c(1)] by blast
    moreover have "j \<noteq> i" using c(2) calculation assms(1) conn_at_unique by blast
    ultimately show ?thesis using at by blast
  qed
  moreover have "j < next_id s \<and> (disconnected c \<or> connects ?s (getFd c) = Some j)" if "conns ?s j = Some c" for j c
  proof (cases "j = i")
    case True
    then show ?thesis using that server_invD(5) [OF assms(2)]
      by (auto simp: closed_def split: if_splits option.splits)
  next
    case False
    then have "conns s j = Some c" using that by (simp add: closed_def)
    then show ?thesis using server_invD(5) [OF assms(2), of j c] assms(1) False
      by (auto simp: closed_def conn_at_def)
  qed
  moreover have "\<exists>j fd'. t = On_connect j \<and> conn_at ?s fd' j k'" if "t \<in> set (T k')" for t k'
    using server_invD(7) [OF assms(2) that] at that assms(3) by blast
  ultimately show ?thesis using server_invD(1,2,6) [OF assms(2)] unfolding server_inv_def by simp
qed

section \<open>The event handlers\<close>

text \<open>A result that is a value with a property, unless a loop of the socket does not return.\<close>

definition lands :: "'b res \<Rightarrow> ('b \<Rightarrow> bool) \<Rightarrow> bool" where
  "lands r P = (case r of Inl e \<Rightarrow> e = Diverges | Inr x \<Rightarrow> P x)"

lemma lands_simps [simp]: "lands (Inr x) P = P x" "lands (Inl e) P \<longleftrightarrow> e = Diverges"
  by (simp_all add: lands_def)

lemma lands_rbind: "lands r Q \<Longrightarrow> (\<And>x. r = Inr x \<Longrightarrow> Q x \<Longrightarrow> lands (f x) P) \<Longrightarrow> lands (rbind r f) P"
  by (cases r) auto

lemma lands_mono: "lands r Q \<Longrightarrow> (\<And>x. r = Inr x \<Longrightarrow> Q x \<Longrightarrow> P x) \<Longrightarrow> lands r P"
  by (cases r) auto

text \<open>What the handling of descriptor \<open>fd\<close> in loop \<open>k\<close> leaves alone.\<close>

definition moved :: "nat \<Rightarrow> int \<Rightarrow> ('ctx, 'a, 'k) server \<Rightarrow> ('ctx, 'a, 'k) server \<Rightarrow> bool" where
  "moved k fd s s' \<longleftrightarrow> connTimeOut s' = connTimeOut s \<and>
     map pendingTasks (loops s') = map pendingTasks (loops s) \<and>
     (\<forall>fd'. fd' \<noteq> fd \<longrightarrow> el_epoll (loops s' ! k) fd' = el_epoll (loops s ! k) fd') \<and>
     (\<forall>j c. conns s' j = Some c \<longrightarrow> (\<exists>d. conns s j = Some d \<and> getFd d = getFd c))"

lemma moved_refl [simp]: "moved k fd s s"
  by (auto simp: moved_def)

lemma moved_trans: "moved k fd s s' \<Longrightarrow> moved k fd s' s'' \<Longrightarrow> moved k fd s s''"
  unfolding moved_def by metis

lemma moved_length: "moved k fd s s' \<Longrightarrow> length (loops s') = length (loops s)"
  unfolding moved_def by (metis length_map)

lemma moved_conn:
  "conns s i = Some c \<Longrightarrow> getFd c' = getFd c \<Longrightarrow> moved k fd s (set_conn i c' s)"
  by (auto simp: moved_def set_conn_def)

lemma map_same: "k < length xs \<Longrightarrow> f y = f (xs ! k) \<Longrightarrow> map f (xs[k := y]) = map f xs"
  by (simp add: map_update list_update_same_conv)

lemma moved_loop:
  assumes "pendingTasks l' = pendingTasks (loops s ! k)" "k < length (loops s)"
    and "\<And>fd'. fd' \<noteq> fd \<Longrightarrow> el_epoll l' fd' = el_epoll (loops s ! k) fd'"
  shows "moved k fd s (s\<lparr>loops := (loops s)[k := l']\<rparr>)"
  using assms by (auto simp: moved_def map_same)

lemma closed_moved: "k < length (loops s) \<Longrightarrow> moved k fd s (closed h fd i k s)"
  by (auto simp: moved_def closed_def map_same loop_delChannel_def epoll_del_def getFd_def
      split: option.splits if_splits)

lemma on_loop_ok: "k < length (loops s) \<Longrightarrow> f (loops s ! k) = Inr l' \<Longrightarrow> on_loop k f s = Inr (s\<lparr>loops := (loops s)[k := l']\<rparr>)"
  by (simp add: on_loop_def get_loop_def)

text \<open>Timers of some descriptors deleted, the others at most postponed.\<close>

lemma loop_inv_timers:
  assumes "loop_inv limit X T s k l" "loop_ok limit k (l\<lparr>el_timers := q\<rparr>)"
    and "\<And>fd. map_option tm_cb (timers (timerHeap q) fd) = (if fd \<in> D then None else map_option tm_cb (timers_of l fd))"
  shows "loop_inv limit (X \<union> D) T s k (l\<lparr>el_timers := q\<rparr>)"
proof -
  have t: "timers_of (l\<lparr>el_timers := q\<rparr>) = timers (timerHeap q)" by (simp add: timers_of_def heap_of_def)
  have old: "\<exists>u. timers_of l fd = Some u \<and> tm_cb u = tm_cb t" if "timers (timerHeap q) fd = Some t" for fd t
    using assms(3) [of fd] that by (cases "timers_of l fd") (auto split: if_splits)
  have new: "\<exists>t. timers (timerHeap q) fd = Some t \<and> tm_cb t = tm_cb u" if "timers_of l fd = Some u" "fd \<notin> D" for fd u
    using assms(3) [of fd] that by auto
  show ?thesis
    unfolding loop_inv_def t
  proof (intro conjI allI impI)
    fix fd ev i assume "el_epoll (l\<lparr>el_timers := q\<rparr>) fd = Some (ev, i)"
    then have r: "el_epoll l fd = Some (ev, i)" by simp
    show "conn_at s fd i k" "On_connect i \<notin> set (T k)" using loop_invD(2) [OF assms(1) r] by simp_all
    show "\<exists>t. timers (timerHeap q) fd = Some t \<and> tm_cb t = Some (Close_conn i)" if "fd \<notin> X \<union> D"
      using loop_invD(3) [OF assms(1) r] new that by fastforce
  next
    fix fd t i c assume "timers (timerHeap q) fd = Some t" "tm_cb t = Some (Close_conn i)" "conns s i = Some c"
    then show "getFd c = fd" "\<exists>ch. conn_channel c = Some ch \<and> ch_loop ch = k"
      using old loop_invD(5) [OF assms(1)] by metis+
  next
    fix fd t i assume "timers (timerHeap q) fd = Some t" "tm_cb t = Some (Close_conn i)"
    then show "i < next_id s" "On_connect i \<notin> set (T k')" for k' using old loop_invD(4) [OF assms(1)] by metis+
  qed (rule assms(2))
qed

text \<open>Postponing and cancelling the timer of a connection.\<close>

lemma postpone_ok:
  assumes "server_inv limit X T s" "k < length (loops s)"
  shows "\<exists>q. on_loop k (loop_adjustTimer k \<lparr>tm_fd = fd, tm_expire = limit, tm_cb = None\<rparr>) s =
      Inr (s\<lparr>loops := (loops s)[k := (loops s ! k)\<lparr>el_timers := q\<rparr>]\<rparr>) \<and>
    server_inv limit X T (s\<lparr>loops := (loops s)[k := (loops s ! k)\<lparr>el_timers := q\<rparr>]\<rparr>)"
proof -
  let ?t = "\<lparr>tm_fd = fd, tm_expire = limit, tm_cb = None\<rparr>"
  let ?l = "loops s ! k"
  note l = server_invD(3) [OF assms]
  obtain q where q: "loop_adjustTimer k ?t ?l = Inr (?l\<lparr>el_timers := q\<rparr>)" "loop_ok limit k (?l\<lparr>el_timers := q\<rparr>)"
      "timers (timerHeap q) = (case timers_of ?l (tm_fd ?t) of None \<Rightarrow> timers_of ?l
        | Some u \<Rightarrow> (timers_of ?l)(tm_fd ?t \<mapsto> u\<lparr>tm_expire := limit\<rparr>))"
    using loop_adjustTimer_ok [OF loop_invD(1) [OF l], of ?t] unfolding timer.select_convs by blast
  have "loop_inv limit (X \<union> {}) T s k (?l\<lparr>el_timers := q\<rparr>)"
    using q(3) by (intro loop_inv_timers [OF l q(2)]) (auto split: option.split)
  then have "server_inv limit X T (s\<lparr>loops := (loops s)[k := ?l\<lparr>el_timers := q\<rparr>]\<rparr>)"
    using server_invD(6) [OF assms(1)] by (intro server_inv_loop [OF assms]) auto
  moreover have "on_loop k (loop_adjustTimer k ?t) s = Inr (s\<lparr>loops := (loops s)[k := ?l\<lparr>el_timers := q\<rparr>]\<rparr>)"
    by (intro on_loop_ok assms(2) q(1))
  ultimately show ?thesis by blast
qed

lemma cancel_ok:
  assumes "server_inv limit X T s" "k < length (loops s)"
  shows "\<exists>q. on_loop k (loop_delTimer k \<lparr>tm_fd = fd, tm_expire = now, tm_cb = None\<rparr>) s =
      Inr (s\<lparr>loops := (loops s)[k := (loops s ! k)\<lparr>el_timers := q\<rparr>]\<rparr>) \<and>
    server_inv limit (insert fd X) T (s\<lparr>loops := (loops s)[k := (loops s ! k)\<lparr>el_timers := q\<rparr>]\<rparr>) \<and>
    timers (timerHeap q) = (timers_of (loops s ! k))(fd := None)"
proof -
  let ?t = "\<lparr>tm_fd = fd, tm_expire = now, tm_cb = None\<rparr>"
  let ?l = "loops s ! k"
  note l = server_invD(3) [OF assms]
  obtain q where q: "loop_delTimer k ?t ?l = Inr (?l\<lparr>el_timers := q\<rparr>)" "loop_ok limit k (?l\<lparr>el_timers := q\<rparr>)"
      "timers (timerHeap q) = (timers_of ?l)(fd := None)"
    using loop_delTimer_ok [OF loop_invD(1) [OF l], of ?t] by auto
  have "loop_inv limit (X \<union> {fd}) T s k (?l\<lparr>el_timers := q\<rparr>)"
    using q(3) by (intro loop_inv_timers [OF l q(2)]) auto
  then have "server_inv limit (insert fd X) T (s\<lparr>loops := (loops s)[k := ?l\<lparr>el_timers := q\<rparr>]\<rparr>)"
    using server_invD(6) [OF assms(1)] by (intro server_inv_loop [OF assms]) auto
  moreover have "on_loop k (loop_delTimer k ?t) s = Inr (s\<lparr>loops := (loops s)[k := ?l\<lparr>el_timers := q\<rparr>]\<rparr>)"
    by (intro on_loop_ok assms(2) q(1))
  ultimately show ?thesis using q(3) by blast
qed

lemma close_and_cancel_ok:
  assumes "server_inv limit X T s" "conn_at s fd i k" "\<And>k'. On_connect i \<notin> set (T k')"
  shows "\<exists>s'. close_and_cancel h k now k i fd s = Inr s' \<and> server_inv limit X T s' \<and> moved k fd s s' \<and>
    connects s' fd = None \<and> el_epoll (loops s' ! k) fd = None \<and> timers_of (loops s' ! k) fd = None \<and>
    ((\<forall>c. conns s i = Some c \<longrightarrow> \<not> pinned h c) \<longrightarrow> conns s' i = None)"
proof -
  note k = conn_atD(3) [OF assms(2)]
  let ?l = "loops s ! k"
  obtain q where q: "on_loop k (loop_delTimer k \<lparr>tm_fd = fd, tm_expire = now, tm_cb = None\<rparr>) s =
      Inr (s\<lparr>loops := (loops s)[k := ?l\<lparr>el_timers := q\<rparr>]\<rparr>)"
    "server_inv limit (insert fd X) T (s\<lparr>loops := (loops s)[k := ?l\<lparr>el_timers := q\<rparr>]\<rparr>)"
    "timers (timerHeap q) = (timers_of ?l)(fd := None)"
    using cancel_ok [OF assms(1) k] by blast
  let ?s = "s\<lparr>loops := (loops s)[k := ?l\<lparr>el_timers := q\<rparr>]\<rparr>"
  have at: "conn_at ?s fd i k" using assms(2) by simp
  have "close_and_cancel h k now k i fd s = Inr (closed h fd i k ?s)"
    using q(1) handleConnectionClose_open [OF at q(2)] by (simp add: close_and_cancel_def)
  moreover have "moved k fd s (closed h fd i k ?s)"
    using k by (intro moved_trans [OF moved_loop closed_moved]) simp_all
  ultimately show ?thesis
    using closed_inv [OF at q(2) assms(3)] q(3) k
    by (auto simp: closed_def loop_delChannel_def epoll_del_def timers_of_def heap_of_def split: option.split)
qed

section \<open>What a receive and a send leave alone\<close>

lemma recv_loop_lands: "buf_ok b \<Longrightarrow> lands (recv_loop as n s b) (\<lambda>(len, n', s', b'). buf_ok b')"
proof (induction as arbitrary: n s b)
  case (Cons a as)
  obtain l e b1 where r: "(if sk_ssl s then ReadSsl a b else ReadFd a b) = Inr (l, e, b1)" "buf_ok b1"
  proof (cases a)
    case (Read_error e)
    then show ?thesis using Cons.prems that by (auto simp: ReadSsl_def ReadFd_def)
  next
    case (Read_bytes t)
    then show ?thesis using buf_read_ok [OF Cons.prems, of "sk_ssl s" t] that by blast
  qed
  show ?case using Cons.IH [OF r(2)] r(2) unfolding recv_loop.simps r(1) by (simp add: Let_def)
qed simp

lemma send_loop_lands: "lands (send_loop as n s b) (\<lambda>(len, n', s', b'). sk_fd s' = sk_fd s)"
proof (induction as arbitrary: n s b)
  case (Cons a as)
  have "lands (send_loop as m s1 b1) (\<lambda>(len, n', s', b'). sk_fd s' = sk_fd s)" if "sk_fd s1 = sk_fd s" for m s1 b1
    using Cons.IH [of m s1 b1] that by simp
  then show ?case by (simp add: Let_def split: prod.split)
qed simp

lemma file_send_loop_lands: "lands (file_send_loop as n s f) (\<lambda>(len, n', s', f'). sk_fd s' = sk_fd s)"
proof (induction as arbitrary: n s f)
  case (Cons a as)
  have "lands (file_send_loop as m s1 f1) (\<lambda>(len, n', s', f'). sk_fd s' = sk_fd s)" if "sk_fd s1 = sk_fd s" for m s1 f1
    using Cons.IH [of m s1 f1] that by simp
  then show ?case by (cases "limit_answer (length (fs_next f)) a") (simp_all add: Let_def)
qed simp

definition same_place :: "'ctx connection \<Rightarrow> 'ctx connection \<Rightarrow> bool" where
  "same_place c c' \<longleftrightarrow> getFd c' = getFd c \<and> disconnected c' = disconnected c \<and> conn_channel c' = conn_channel c"

lemma conn_recv_lands:
  assumes "conn_ok c"
  shows "lands (conn_recv c) (\<lambda>(st, c'). conn_ok c' \<and> same_place c c')"
proof -
  have b: "buf_ok (recver c)" using assms by (simp add: conn_ok_def)
  show ?thesis
    unfolding conn_recv_def sock_recv_def
    by (rule lands_rbind [OF recv_loop_lands [OF b]])
      (use assms in \<open>auto simp: conn_ok_def same_place_def getFd_def dest!: recv_loop_frame\<close>)
qed

lemma conn_send_lands:
  assumes "conn_ok c"
  shows "lands (conn_send c) (\<lambda>(st, c'). conn_ok c' \<and> same_place c c')"
proof -
  have b: "lands (send_buffered c) (\<lambda>(len, n, c'). same_place c c')"
    unfolding send_buffered_def sock_send_def
    by (cases "0 < ReadableBytes (sender c)")
      (auto simp: same_place_def getFd_def intro!: lands_rbind [OF send_loop_lands])
  have f: "lands (send_file len n c1) (\<lambda>(len', n', c'). same_place c1 c')" for len n and c1 :: "'a connection"
    unfolding send_file_def fs_send_def
    by (cases "fileSender c1") (auto simp: same_place_def getFd_def intro!: lands_rbind [OF file_send_loop_lands])
  have "lands (conn_send c) (\<lambda>(st, c'). same_place c c')"
    unfolding conn_send_def
    by (rule lands_rbind [OF b]) (auto intro!: lands_rbind [OF f] simp: same_place_def)
  then show ?thesis by (rule lands_mono) (use conn_send_ok [OF assms] in auto)
qed

section \<open>The event handlers preserve the invariant\<close>

lemma rearm_ok:
  assumes "server_inv limit X T s" "conn_at s fd i k"
  shows "\<exists>s'. rearm k i ev s = Inr s' \<and> server_inv limit X T s' \<and> moved k fd s s'"
proof -
  obtain c ch where c: "conns s i = Some c" "getFd c = fd" "conn_channel c = Some ch" "ch_loop ch = k"
    using conn_atD(4) [OF assms(2)] by blast
  let ?c = "c\<lparr>conn_channel := Some (ch\<lparr>ch_events := ev\<rparr>)\<rparr>"
  let ?s = "set_conn i ?c s"
  let ?l = "loop_modChannel fd ev i (loops ?s ! k)"
  have k: "k < length (loops ?s)" using conn_atD(3) [OF assms(2)] by (simp add: set_conn_def)
  have inv: "server_inv limit X T ?s"
    using c by (intro server_inv_conn [OF assms(1) c(1)]) (simp_all add: conn_ok_def getFd_def)
  note l = server_invD(3) [OF inv k]
  have at: "conn_at ?s fd i k" using assms(2) c by (auto simp: conn_at_def set_conn_def conn_ok_def getFd_def)
  have owner: "j = i" if "el_epoll (loops ?s ! k) fd = Some (ev', j)" for ev' j
    using loop_invD(2) [OF l that] at by (simp add: conn_at_def)
  have li: "loop_inv limit X T ?s k ?l"
    unfolding loop_inv_def
  proof (intro conjI allI impI)
    show "loop_ok limit k ?l" using loop_invD(1) [OF l] loop_ok_frame [of ?l "loops ?s ! k"]
      by (simp add: loop_modChannel_def)
  next
    fix fd' ev' j assume "el_epoll ?l fd' = Some (ev', j)"
    then obtain ev'' where r: "el_epoll (loops ?s ! k) fd' = Some (ev'', j)"
      using owner by (auto simp: loop_modChannel_def epoll_mod_def split: if_splits)
    show "conn_at ?s fd' j k" "On_connect j \<notin> set (T k)" using loop_invD(2) [OF l r] by simp_all
    show "\<exists>t. timers_of ?l fd' = Some t \<and> tm_cb t = Some (Close_conn j)" if "fd' \<notin> X"
      using loop_invD(3) [OF l r that] by (simp add: loop_modChannel_def timers_of_def heap_of_def)
  qed (use loop_invD(4,5) [OF l] in \<open>auto simp: loop_modChannel_def timers_of_def heap_of_def\<close>)
  have "rearm k i ev s = Inr (?s\<lparr>loops := (loops ?s)[k := ?l]\<rparr>)"
    using c k by (simp add: rearm_def conn_setEvents_def on_loop_def get_loop_def getFd_def)
  moreover have "server_inv limit X T (?s\<lparr>loops := (loops ?s)[k := ?l]\<rparr>)"
    using server_invD(6) [OF inv] by (intro server_inv_loop [OF inv k li]) auto
  moreover have "moved k fd s (?s\<lparr>loops := (loops ?s)[k := ?l]\<rparr>)"
    using k c by (intro moved_trans [OF moved_conn moved_loop, OF c(1)])
      (auto simp: loop_modChannel_def epoll_mod_def getFd_def)
  ultimately show ?thesis by blast
qed

lemma rearm_lands:
  assumes "server_inv limit X T s" "conn_at s fd i k" "moved k fd s0 s"
  shows "lands (rearm k i ev s) (\<lambda>s'. server_inv limit X T s' \<and> moved k fd s0 s')"
  using rearm_ok [OF assms(1,2), of ev] moved_trans [OF assms(3)] by auto

lemma set_conn_ok:
  assumes "server_inv limit X T s" "conn_at s fd i k" "conns s i = Some c" "conn_ok c'" "same_place c c'"
  shows "server_inv limit X T (set_conn i c' s)" "conn_at (set_conn i c' s) fd i k" "moved k fd s (set_conn i c' s)"
  using assms server_inv_conn [OF assms(1,3), of c'] moved_conn [OF assms(3), of c' k fd]
  by (auto simp: same_place_def conn_at_def set_conn_def)

text \<open>The interface a server has to implement, as far as the handlers rely on it.\<close>

locale tcp_app =
  fixes h :: "('ctx, 'a, 'k) handlers"
  assumes message: "conn_ok c \<Longrightarrow> lands (onMessage h now c a) (\<lambda>(ret, c', a', calls). calls = [] \<and> conn_ok c' \<and> same_place c c')"
begin

lemma onRecv_ok:
  assumes "server_inv limit X T s" "conn_at s fd i k" "\<And>k'. On_connect i \<notin> set (T k')"
  shows "lands (onRecv h k now i s) (\<lambda>s'. server_inv limit X T s' \<and> moved k fd s s')"
proof -
  obtain c ch where c: "conns s i = Some c" "conn_ok c" "getFd c = fd" "conn_channel c = Some ch" "ch_loop ch = k"
    using conn_atD(4) [OF assms(2)] by blast
  have "lands (case x of (st, c1) \<Rightarrow>
          let s1 = set_conn i c1 s
          in rbind (own_loop k c1 s1) (\<lambda>m.
               if st_type st = S_CLOSED \<or> st_type st = S_ERROR
               then close_and_cancel h k now m i (getFd c1) s1
               else rbind (onMessage h now c1 (sv_app s1)) (\<lambda>(ret, c2, a, calls).
                      rbind (run_calls k calls (set_conn i c2 (s1\<lparr>sv_app := a\<rparr>))) (\<lambda>s2.
                        if ret = MSG_AGAIN then rearm m i (EPOLLIN OR kConnectionEvent) s2
                        else rearm m i (EPOLLOUT OR kConnectionEvent) s2))))
      (\<lambda>s'. server_inv limit X T s' \<and> moved k fd s s')" (is "lands (?go x) _")
    if r: "(\<lambda>(st, c'). conn_ok c' \<and> same_place c c') x" for x
  proof -
    obtain st c1 where x: "x = (st, c1)" by (cases x)
    let ?s = "set_conn i c1 s"
    have c1: "conn_ok c1" "same_place c c1" "getFd c1 = fd" "conn_channel c1 = Some ch"
      using r x c by (auto simp: same_place_def)
    note s1 = set_conn_ok [OF assms(1,2) c(1) c1(1,2)]
    have own: "own_loop k c1 ?s = Inr k"
      using own_loop_ok [OF s1(1) conn_atD(3) [OF s1(2)] c1(4) c(5)] .
    show ?thesis
    proof (cases "st_type st = S_CLOSED \<or> st_type st = S_ERROR")
      case True
      obtain s' where "close_and_cancel h k now k i fd ?s = Inr s'" "server_inv limit X T s'" "moved k fd ?s s'"
        using close_and_cancel_ok [OF s1(1,2) assms(3)] by blast
      then show ?thesis using True own c1(3) moved_trans [OF s1(3)] by (simp add: x)
    next
      case False
      have "lands (case y of (ret, c2, a, calls) \<Rightarrow>
              rbind (run_calls k calls (set_conn i c2 (?s\<lparr>sv_app := a\<rparr>))) (\<lambda>s2.
                if ret = MSG_AGAIN then rearm k i (EPOLLIN OR kConnectionEvent) s2
                else rearm k i (EPOLLOUT OR kConnectionEvent) s2))
          (\<lambda>s'. server_inv limit X T s' \<and> moved k fd s s')"
        if m: "(\<lambda>(ret, c', a', calls). calls = [] \<and> conn_ok c' \<and> same_place c1 c') y" for y
      proof -
        obtain ret c2 a where y: "y = (ret, c2, a, [])" using m by (cases y) auto
        let ?s1 = "?s\<lparr>sv_app := a\<rparr>"
        have a1: "server_inv limit X T ?s1" "conn_at ?s1 fd i k" "conns ?s1 i = Some c1" "moved k fd ?s ?s1"
          using s1 by (auto simp: conn_at_def set_conn_def moved_def)
        note s2 = set_conn_ok [OF a1(1,2,3), of c2]
        have s2: "server_inv limit X T (set_conn i c2 ?s1)" "conn_at (set_conn i c2 ?s1) fd i k"
            "moved k fd s (set_conn i c2 ?s1)"
          using s2 moved_trans [OF moved_trans [OF s1(3) a1(4)] s2(3)] m y by simp_all
        show ?thesis using rearm_lands [OF s2] by (simp add: y)
      qed
      then show ?thesis using own False by (auto simp: x set_conn_def intro!: lands_rbind [OF message [OF c1(1)]])
    qed
  qed
  then have "lands (rbind (conn_recv c) ?go) (\<lambda>s'. server_inv limit X T s' \<and> moved k fd s s')"
    by (rule lands_rbind [OF conn_recv_lands [OF c(2)]])
  then show ?thesis using c(1) by (simp add: onRecv_def)
qed

lemma onSend_ok:
  assumes "server_inv limit X T s" "conn_at s fd i k" "\<And>k'. On_connect i \<notin> set (T k')"
  shows "lands (onSend h k now i s) (\<lambda>s'. server_inv limit X T s' \<and> moved k fd s s')"
proof -
  let ?P = "\<lambda>s'. server_inv limit X T s' \<and> moved k fd s s'"
  obtain c ch where c: "conns s i = Some c" "conn_ok c" "getFd c = fd" "conn_channel c = Some ch" "ch_loop ch = k"
    using conn_atD(4) [OF assms(2)] by blast
  have "lands (case x of (st, c1) \<Rightarrow>
          let s1 = set_conn i c1 s
          in rbind (own_loop k c1 s1) (\<lambda>m.
               case st_type st of
                 S_COMPLETED \<Rightarrow>
                   if keepAlive c1 then rearm m i (EPOLLIN OR kConnectionEvent) s1
                   else close_and_cancel h k now m i (getFd c1) s1
               | S_AGAIN \<Rightarrow> rearm m i (EPOLLOUT OR kConnectionEvent) s1
               | _ \<Rightarrow> close_and_cancel h k now m i (getFd c1) s1)) ?P" (is "lands (?go x) _")
    if r: "(\<lambda>(st, c'). conn_ok c' \<and> same_place c c') x" for x
  proof -
    obtain st c1 where x: "x = (st, c1)" by (cases x)
    let ?s = "set_conn i c1 s"
    have c1: "conn_ok c1" "same_place c c1" "getFd c1 = fd" "conn_channel c1 = Some ch"
      using r x c by (auto simp: same_place_def)
    note s1 = set_conn_ok [OF assms(1,2) c(1) c1(1,2)]
    have own: "own_loop k c1 ?s = Inr k"
      using own_loop_ok [OF s1(1) conn_atD(3) [OF s1(2)] c1(4) c(5)] .
    have cl: "lands (close_and_cancel h k now k i fd ?s) ?P"
      using close_and_cancel_ok [OF s1(1,2) assms(3), of h now] moved_trans [OF s1(3)] by auto
    have re: "lands (rearm k i ev ?s) ?P" for ev
      by (rule rearm_lands [OF s1])
    show ?thesis using own cl re c1(3) by (cases "st_type st") (simp_all add: x Let_def)
  qed
  then have "lands (rbind (conn_send c) ?go) ?P"
    by (rule lands_rbind [OF conn_send_lands [OF c(2)]])
  then show ?thesis using c(1) by (simp add: onSend_def)
qed

lemma postpone_then_ok:
  assumes "server_inv limit X T s" "conn_at s fd i k" "deadline now s = Inr limit"
    and "\<And>s1. server_inv limit X T s1 \<Longrightarrow> conn_at s1 fd i k \<Longrightarrow>
      lands (f i s1) (\<lambda>s'. server_inv limit X T s' \<and> moved k fd s1 s')"
  shows "lands (postpone_then f k now i s) (\<lambda>s'. server_inv limit X T s' \<and> moved k fd s s')"
proof -
  note k = conn_atD(3) [OF assms(2)]
  obtain c ch where c: "conns s i = Some c" "\<not> disconnected c" "getFd c = fd" "conn_channel c = Some ch" "ch_loop ch = k"
    using conn_atD(4) [OF assms(2)] by blast
  obtain q where q: "on_loop k (loop_adjustTimer k \<lparr>tm_fd = fd, tm_expire = limit, tm_cb = None\<rparr>) s =
      Inr (s\<lparr>loops := (loops s)[k := (loops s ! k)\<lparr>el_timers := q\<rparr>]\<rparr>)"
    "server_inv limit X T (s\<lparr>loops := (loops s)[k := (loops s ! k)\<lparr>el_timers := q\<rparr>]\<rparr>)"
    using postpone_ok [OF assms(1) k] by blast
  let ?s = "s\<lparr>loops := (loops s)[k := (loops s ! k)\<lparr>el_timers := q\<rparr>]\<rparr>"
  have "moved k fd s ?s" using k by (intro moved_loop) simp_all
  moreover have "postpone_then f k now i s = f i ?s"
    using c q(1) own_loop_ok [OF assms(1) k c(4,5)] assms(3) by (simp add: postpone_then_def)
  moreover have "lands (f i ?s) (\<lambda>s'. server_inv limit X T s' \<and> moved k fd ?s s')"
    using assms(2) by (intro assms(4) q(2)) simp
  ultimately show ?thesis using moved_trans [of k fd s ?s] by (simp, elim lands_mono) blast
qed

text \<open>An event of a registered connection.\<close>

lemma conn_event_ok:
  assumes "server_inv limit {} T s" "conn_at s fd i k" "deadline now s = Inr limit"
    and "\<And>k'. On_connect i \<notin> set (T k')"
  shows "lands (handle_conn_event h k now i revents s) (\<lambda>s'. server_inv limit {} T s' \<and> moved k fd s s')"
proof -
  let ?P = "\<lambda>s'. server_inv limit {} T s' \<and> moved k fd s s'"
  note k = conn_atD(3) [OF assms(2)]
  obtain c where c: "conns s i = Some c" using conn_atD(4) [OF assms(2)] by blast
  have inv': "server_inv limit (insert fd {}) T s"
    using assms(1) unfolding server_inv_def loop_inv_def by blast
  have "lands (handleConnectionClose h k i s) ?P"
    using handleConnectionClose_open [OF assms(2,1)] closed_inv [OF assms(2) inv' assms(4)] closed_moved [OF k] by simp
  moreover have "lands (handleConnectionRead h k now i s) ?P"
    unfolding handleConnectionRead_def by (intro postpone_then_ok assms onRecv_ok)
  moreover have "lands (handleConnectionWrite h k now i s) ?P"
    unfolding handleConnectionWrite_def by (intro postpone_then_ok assms onSend_ok)
  ultimately show ?thesis using c assms(1)
    by (auto simp: handle_conn_event_def split: option.split channel_cb.split)
qed

end

end
