(* ===== verification/TcpServerRun.thy ===== *)
theory TcpServerRun
  imports TcpServerInv
begin

text \<open>
  The rounds of the loops: accepting, connecting, timeouts and batches of events preserve the
  invariant of \<open>TcpServerInv\<close>, so that it holds in every state a server reaches.
\<close>

section \<open>Connecting and accepting\<close>

lemma deadline_loops [simp]: "deadline now (s\<lparr>loops := ls\<rparr>) = deadline now s"
  by (simp add: deadline_def)

text \<open>A task to connect is run: the connection is registered and gets its timer.\<close>

lemma onConnect_ok:
  assumes "server_inv limit {} T s" "k < length (loops s)" "T k = On_connect i # ts" "deadline now s = Inr limit"
  shows "\<exists>l'. onConnect k now i s = Inr (s\<lparr>loops := (loops s)[k := l']\<rparr>) \<and>
    server_inv limit {} (T(k := ts)) (s\<lparr>loops := (loops s)[k := l']\<rparr>) \<and>
    pendingTasks l' = pendingTasks (loops s ! k) \<and>
    (\<forall>fd x. el_epoll (loops s ! k) fd = Some x \<longrightarrow> el_epoll l' fd = Some x)"
proof -
  let ?l = "loops s ! k"
  note l = server_invD(3) [OF assms(1,2)]
  obtain fd where at: "conn_at s fd i k" using server_invD(7) [OF assms(1), of "On_connect i" k] assms(3) by auto
  obtain c ch where c: "conns s i = Some c" "getFd c = fd" "conn_channel c = Some ch" "ch_loop ch = k"
    using conn_atD(4) [OF at] by blast
  have ts: "distinct (On_connect i # ts)" using server_invD(6) [OF assms(1), of k] assms(3) by simp
  have other: "On_connect i \<notin> set (T k')" if "k' \<noteq> k" for k'
    using server_invD(7) [OF assms(1), of _ k'] conn_at_unique [OF at] that by blast
  have free: "el_epoll ?l fd = None"
  proof (rule ccontr)
    assume "el_epoll ?l fd \<noteq> None"
    then obtain ev j where "el_epoll ?l fd = Some (ev, j)" by auto
    then have "conn_at s fd j k \<and> On_connect j \<notin> set (T k)" using loop_invD(2) [OF l] by blast
    then show False using at assms(3) by (auto simp: conn_at_def)
  qed
  let ?t = "\<lparr>tm_fd = fd, tm_expire = limit, tm_cb = Some (Close_conn i)\<rparr>"
  let ?l1 = "loop_addChannel fd (ch_events ch) i ?l"
  have ok1: "loop_ok limit k ?l1" using loop_invD(1) [OF l] loop_ok_frame [of ?l1 ?l] by (simp add: loop_addChannel_def)
  obtain q where q: "loop_addTimer k ?t ?l1 = Inr (?l1\<lparr>el_timers := q\<rparr>)" "loop_ok limit k (?l1\<lparr>el_timers := q\<rparr>)"
      "timers (timerHeap q) = (timers_of ?l1)(tm_fd ?t \<mapsto> ?t)"
    using loop_addTimer_ok [OF ok1, of ?t i] conn_atD(2) [OF at] by auto
  let ?l2 = "?l1\<lparr>el_timers := q\<rparr>"
  have tm: "timers_of ?l2 = (timers_of ?l)(fd \<mapsto> ?t)"
    using q(3) by (simp add: timers_of_def heap_of_def loop_addChannel_def)
  have ep: "el_epoll ?l2 = (el_epoll ?l)(fd \<mapsto> (ch_events ch, i))"
    using free by (simp add: loop_addChannel_def epoll_add_def)
  have "loop_inv limit {} (T(k := ts)) s k ?l2"
    unfolding loop_inv_def tm ep
  proof (intro conjI allI impI)
    fix fd' ev j assume r: "((el_epoll ?l)(fd \<mapsto> (ch_events ch, i))) fd' = Some (ev, j)"
    show "conn_at s fd' j k" "On_connect j \<notin> set ((T(k := ts)) k)"
      using r at ts assms(3) loop_invD(2) [OF l] by (auto split: if_splits)
    show "\<exists>t. ((timers_of ?l)(fd \<mapsto> ?t)) fd' = Some t \<and> tm_cb t = Some (Close_conn j)"
      using r loop_invD(3) [OF l] by (auto split: if_splits)
  next
    fix fd' t j assume t: "((timers_of ?l)(fd \<mapsto> ?t)) fd' = Some t" "tm_cb t = Some (Close_conn j)"
    show "j < next_id s" using t server_invD(5) [OF assms(1) c(1)] loop_invD(4) [OF l] by (auto split: if_splits)
    show "On_connect j \<notin> set ((T(k := ts)) k')" for k'
      using t ts other assms(3) loop_invD(4) [OF l, where k' = k'] by (fastforce split: if_splits)
    show "getFd d = fd'" "\<exists>ch. conn_channel d = Some ch \<and> ch_loop ch = k" if "conns s j = Some d" for d
      using t that c loop_invD(5) [OF l] by (auto split: if_splits)
  qed (rule q(2))
  then have "server_inv limit {} (T(k := ts)) (s\<lparr>loops := (loops s)[k := ?l2]\<rparr>)"
    using server_invD(6) [OF assms(1)] ts assms(3) by (intro server_inv_loop [OF assms(1,2)]) auto
  moreover have "onConnect k now i s = Inr (s\<lparr>loops := (loops s)[k := ?l2]\<rparr>)"
    using c own_loop_ok [OF assms(1,2) c(3,4)] assms(2,4) q(1) by (simp add: onConnect_def on_loop_def get_loop_def)
  ultimately show ?thesis using ep free
    by (intro exI [of _ ?l2]) (auto simp: loop_addChannel_def)
qed

definition fresh_fd :: "int \<Rightarrow> ('ctx, 'a, 'k) server \<Rightarrow> bool" where
  "fresh_fd fd s \<longleftrightarrow> (\<forall>j c. conns s j = Some c \<longrightarrow> getFd c \<noteq> fd)"

text \<open>The state after the connection is put into the table, its task still to run.\<close>

lemma accepted_ok:
  assumes "server_inv limit {} T s" "fresh_fd fd s" "fd_ok fd" "getFd c = fd" "conn_ok c" "\<not> disconnected c"
    and "conn_channel c = Some ch" "ch_loop ch = k" "k < length (loops s)"
    and "pool_ok p" "num_thread p = num_thread (sv_pool s)"
    and "\<And>k'. distinct (T' k') \<and> set (T' k') = set (T k') \<union> (if k' = k then {On_connect (next_id s)} else {})"
  shows "server_inv limit {} T' (s\<lparr>sv_pool := p, next_id := next_id s + 1,
    conns := (conns s)(next_id s \<mapsto> c), connects := (connects s)(fd \<mapsto> next_id s)\<rparr>)" (is "server_inv _ _ _ ?s")
proof -
  let ?i = "next_id s"
  have new: "conns s ?i = None" using server_invD(5) [OF assms(1), of ?i] by fastforce
  have nofd: "connects s fd = None"
  proof (rule ccontr)
    assume "connects s fd \<noteq> None"
    then obtain j k' where "conn_at s fd j k'" using server_invD(4) [OF assms(1)] by fastforce
    then show False using conn_atD(4) assms(2) by (fastforce simp: fresh_fd_def)
  qed
  have old: "conn_at ?s fd' j k'" if "conn_at s fd' j k'" for fd' j k'
    using that new nofd by (auto simp: conn_at_def)
  have at: "conn_at ?s fd ?i k" using assms(3-9) by (auto simp: conn_at_def)
  have ne: "On_connect j \<notin> set (T' k')" if "On_connect j \<notin> set (T k')" "j \<noteq> ?i" for j k'
    using that assms(12) [of k'] by (auto split: if_splits)
  have "loop_inv limit {} T' ?s k' (loops s ! k')" if k': "k' < length (loops s)" for k'
  proof -
    note l = server_invD(3) [OF assms(1) k']
    show ?thesis
      unfolding loop_inv_def
    proof (intro conjI allI impI)
      fix fd' ev j assume r: "el_epoll (loops s ! k') fd' = Some (ev, j)"
      have "conn_at s fd' j k'" using loop_invD(2) [OF l r] by simp
      moreover have "j \<noteq> ?i" using calculation new conn_atD(4) by fastforce
      ultimately show "conn_at ?s fd' j k'" "On_connect j \<notin> set (T' k')"
        using old ne loop_invD(2) [OF l r] by blast+
      show "\<exists>t. timers_of (loops s ! k') fd' = Some t \<and> tm_cb t = Some (Close_conn j)"
        using loop_invD(3) [OF l r] by simp
    next
      fix fd' t j assume t: "timers_of (loops s ! k') fd' = Some t" "tm_cb t = Some (Close_conn j)"
      have j: "j < ?i" "\<And>k''. On_connect j \<notin> set (T k'')" using loop_invD(4) [OF l t] by blast+
      then show "j < next_id ?s" "On_connect j \<notin> set (T' k'')" for k'' using ne by auto
      show "getFd d = fd'" "\<exists>ch. conn_channel d = Some ch \<and> ch_loop ch = k'" if "conns ?s j = Some d" for d
        using that j(1) loop_invD(5) [OF l t] by auto
    qed (rule loop_invD(1) [OF l])
  qed
  moreover have "\<exists>k'. conn_at ?s fd' j k'" if "connects ?s fd' = Some j" for fd' j
    using that at old server_invD(4) [OF assms(1)] by (fastforce split: if_splits)
  moreover have "j < next_id ?s \<and> (disconnected d \<or> connects ?s (getFd d) = Some j)" if "conns ?s j = Some d" for j d
    using that assms(2,4) server_invD(5) [OF assms(1), of j d] by (auto simp: fresh_fd_def split: if_splits)
  moreover have "\<exists>j fd'. t = On_connect j \<and> conn_at ?s fd' j k'" if "t \<in> set (T' k')" for t k'
  proof (cases "t \<in> set (T k')")
    case True
    then show ?thesis using server_invD(7) [OF assms(1)] old by blast
  next
    case False
    then show ?thesis using that assms(12) [of k'] at by (auto split: if_splits)
  qed
  ultimately show ?thesis using assms(10-12) server_invD(1) [OF assms(1)] unfolding server_inv_def by simp
qed

lemma getNextLoop_ok:
  assumes "pool_ok p"
  shows "\<exists>k p'. getNextLoop 0 p = Inr (k, p') \<and> k \<le> num_thread p \<and> pool_ok p' \<and> num_thread p' = num_thread p"
proof (cases "num_thread p = 0")
  case True
  with assms show ?thesis by (simp add: getNextLoop_def pool_ok_def)
next
  case False
  have len: "length (pool_loops p) = num_thread p" "pool_loops p \<noteq> []" "pool_next p < num_thread p"
    using assms False by (auto simp: pool_ok_def simp del: upt_Suc)
  have "pool_loops p ! pool_next p = pool_next p + 1"
    using assms len(3) by (simp add: pool_ok_def del: upt_Suc)
  then show ?thesis using assms len by (auto simp: getNextLoop_def pool_ok_def Let_def simp del: upt_Suc)
qed

section \<open>The tasks of a state\<close>

definition tasks :: "('ctx, 'a, 'k) server \<Rightarrow> nat \<Rightarrow> server_task list" where
  "tasks s k = (if k < length (loops s) then pendingTasks (loops s ! k) else [])"

lemma tasks_eqI: "map pendingTasks (loops s') = map pendingTasks (loops s) \<Longrightarrow> tasks s' = tasks s"
  by (intro ext) (metis length_map nth_map tasks_def)

lemma moved_tasks: "moved k fd s s' \<Longrightarrow> tasks s' = tasks s"
  by (intro tasks_eqI) (simp add: moved_def)

lemma accept_ok:
  assumes "server_inv limit {} (tasks s) s" "deadline now s = Inr limit" "fresh_fd (sk_fd sk) s" "fd_ok (sk_fd sk)"
  shows "\<exists>s'. handleServerAccept 0 now (Some sk) s = Inr s' \<and> server_inv limit {} (tasks s') s' \<and>
    connTimeOut s' = connTimeOut s \<and> length (loops s') = length (loops s) \<and>
    (\<forall>fd x. el_epoll (loops s ! 0) fd = Some x \<longrightarrow> el_epoll (loops s' ! 0) fd = Some x)"
proof -
  obtain k p where p: "getNextLoop 0 (sv_pool s) = Inr (k, p)" "k \<le> num_thread (sv_pool s)" "pool_ok p"
      "num_thread p = num_thread (sv_pool s)"
    using getNextLoop_ok [OF server_invD(2) [OF assms(1)]] by blast
  let ?fd = "sk_fd sk"
  let ?i = "next_id s"
  let ?c = "(new_connection (setNonBlocking sk))
      \<lparr>conn_channel := Some \<lparr>ch_fd = ?fd, ch_events = EPOLLIN OR kConnectionEvent, ch_loop = k\<rparr>\<rparr>"
  let ?s = "s\<lparr>sv_pool := p, next_id := ?i + 1, conns := (conns s)(?i \<mapsto> ?c), connects := (connects s)(?fd \<mapsto> ?i)\<rparr>"
  have k: "k < length (loops s)" using p(2) server_invD(1) [OF assms(1)] by simp
  have c: "getFd ?c = ?fd" "conn_ok ?c" "\<not> disconnected ?c"
    using new_connection_ok [of "setNonBlocking sk"]
    by (simp_all add: getFd_def new_connection_def setNonBlocking_def conn_ok_def)
  have new: "On_connect ?i \<notin> set (tasks s k')" for k'
    using server_invD(7) [OF assms(1), of "On_connect ?i" k'] server_invD(5) [OF assms(1), of ?i]
    by (fastforce simp: conn_at_def)
  have d: "distinct (tasks s k')" for k' using server_invD(6) [OF assms(1)] .
  have thread: "el_thread (loops s ! k) = k" using loop_okD(1) [OF loop_invD(1) [OF server_invD(3) [OF assms(1) k]]] .
  show ?thesis
  proof (cases "k = 0")
    case True
    let ?T = "(tasks s)(0 := On_connect ?i # tasks s 0)"
    have "server_inv limit {} ?T ?s"
      by (rule accepted_ok [OF assms(1,3,4) c _ _ k p(3,4)]) (use new d True in auto)
    then obtain l' where l': "onConnect 0 now ?i ?s = Inr (?s\<lparr>loops := (loops ?s)[0 := l']\<rparr>)"
        "server_inv limit {} (?T(0 := tasks s 0)) (?s\<lparr>loops := (loops ?s)[0 := l']\<rparr>)"
        "pendingTasks l' = pendingTasks (loops s ! 0)"
        "\<forall>fd x. el_epoll (loops s ! 0) fd = Some x \<longrightarrow> el_epoll l' fd = Some x"
      using onConnect_ok [of limit ?T ?s 0 ?i "tasks s 0" now] k True assms(2) by (auto simp: deadline_def)
    let ?s' = "?s\<lparr>loops := (loops ?s)[0 := l']\<rparr>"
    have "handleServerAccept 0 now (Some sk) s = Inr ?s'"
      using p(1) l'(1) k thread True by (simp add: handleServerAccept_def get_loop_def isInLoopThread_def Let_def)
    moreover have "tasks ?s' = tasks s" using l'(3) k True by (intro tasks_eqI) (simp add: map_same)
    ultimately show ?thesis using l'(2,4) k True by auto
  next
    case False
    let ?T = "(tasks s)(k := tasks s k @ [On_connect ?i])"
    let ?l = "queueInLoop 0 (On_connect ?i) (loops s ! k)"
    let ?s' = "?s\<lparr>loops := (loops ?s)[k := ?l]\<rparr>"
    have inv: "server_inv limit {} ?T ?s"
      by (rule accepted_ok [OF assms(1,3,4) c _ _ k p(3,4)]) (use new d in auto)
    have kl: "k < length (loops ?s)" using k by simp
    note l = server_invD(3) [OF inv kl]
    have fr: "el_thread ?l = el_thread (loops s ! k)" "el_timers ?l = el_timers (loops s ! k)"
        "el_epoll ?l = el_epoll (loops s ! k)" "pendingTasks ?l = pendingTasks (loops s ! k) @ [On_connect ?i]"
      by (simp_all add: queueInLoop_def push_task_def wakeup_def Let_def)
    have "loop_inv limit {} ?T ?s k ?l"
      using l fr loop_ok_frame [OF fr(1,2)] by (simp add: loop_inv_def timers_of_def heap_of_def)
    then have "server_inv limit {} ?T ?s'"
      using server_invD(6) [OF inv] by (intro server_inv_loop [OF inv kl]) auto
    moreover have "handleServerAccept 0 now (Some sk) s = Inr ?s'"
      using p(1) k thread False by (simp add: handleServerAccept_def get_loop_def isInLoopThread_def on_loop_def Let_def)
    moreover have "tasks ?s' = ?T"
      using fr(4) k by (intro ext) (auto simp: tasks_def nth_list_update)
    ultimately show ?thesis using False k by auto
  qed
qed

section \<open>Pending tasks\<close>

lemma run_server_tasks_ok:
  "server_inv limit {} T s \<Longrightarrow> k < length (loops s) \<Longrightarrow> T k = ts \<Longrightarrow> deadline now s = Inr limit \<Longrightarrow>
   \<exists>s'. run_server_tasks k now ts s = Inr s' \<and> server_inv limit {} (T(k := [])) s' \<and>
     map pendingTasks (loops s') = map pendingTasks (loops s) \<and> connTimeOut s' = connTimeOut s"
proof (induction ts arbitrary: s T)
  case Nil
  then show ?case by (auto simp: fun_upd_idem)
next
  case (Cons t ts)
  obtain i where i: "t = On_connect i" using server_invD(7) [OF Cons.prems(1), of t k] Cons.prems(3) by auto
  obtain l' where l': "onConnect k now i s = Inr (s\<lparr>loops := (loops s)[k := l']\<rparr>)"
      "server_inv limit {} (T(k := ts)) (s\<lparr>loops := (loops s)[k := l']\<rparr>)" "pendingTasks l' = pendingTasks (loops s ! k)"
    using onConnect_ok [OF Cons.prems(1,2), of i ts now] Cons.prems(3,4) i by blast
  let ?s = "s\<lparr>loops := (loops s)[k := l']\<rparr>"
  obtain s' where "run_server_tasks k now ts ?s = Inr s'" "server_inv limit {} ((T(k := ts))(k := [])) s'"
      "map pendingTasks (loops s') = map pendingTasks (loops ?s)" "connTimeOut s' = connTimeOut ?s"
    using Cons.IH [OF l'(2) _ fun_upd_same] Cons.prems(2,4) by (simp del: fun_upd_apply) blast
  then show ?case using l'(1,3) Cons.prems(2) by (simp add: i run_task_def map_same del: fun_upd_apply)
qed

lemma doPendingTasks_ok:
  assumes "server_inv limit {} (tasks s) s" "k < length (loops s)" "deadline now s = Inr limit"
  shows "\<exists>s'. doPendingTasks k now k s = Inr s' \<and> server_inv limit {} (tasks s') s' \<and> connTimeOut s' = connTimeOut s"
proof -
  let ?l = "loops s ! k"
  let ?l1 = "?l\<lparr>callingPendingTasks := True, pendingTasks := []\<rparr>"
  let ?s1 = "s\<lparr>loops := (loops s)[k := ?l1]\<rparr>"
  have li: "loop_inv limit {} (tasks s) s' k (l\<lparr>callingPendingTasks := x, pendingTasks := y\<rparr>) =
      loop_inv limit {} (tasks s) s' k l"
    "loop_inv limit {} T s' k (l\<lparr>callingPendingTasks := x\<rparr>) = loop_inv limit {} T s' k l"
    for s' :: "('a, 'b, 'c) server" and l :: "(server_task, 'c server_cb) event_loop" and T x y
    by (simp_all add: loop_inv_def loop_ok_def timers_of_def heap_of_def)
  have "server_inv limit {} (tasks s) ?s1"
    using server_invD(3) [OF assms(1,2)] server_invD(6) [OF assms(1)] li
    by (intro server_inv_loop [OF assms(1,2)]) auto
  then obtain s2 where s2: "run_server_tasks k now (pendingTasks ?l) ?s1 = Inr s2"
      "server_inv limit {} ((tasks s)(k := [])) s2"
      "map pendingTasks (loops s2) = map pendingTasks (loops ?s1)" "connTimeOut s2 = connTimeOut s"
    using run_server_tasks_ok [of limit "tasks s" ?s1 k "pendingTasks ?l" now] assms(2,3) by (auto simp: tasks_def)
  have len: "length (loops s2) = length (loops s)" using s2(3) by (metis length_map length_list_update server.select_convs(4) server.surjective server.update_convs(4))
  let ?l2 = "end_tasks (loops s2 ! k)"
  let ?s' = "s2\<lparr>loops := (loops s2)[k := ?l2]\<rparr>"
  have k: "k < length (loops s2)" using assms(2) len by simp
  have "server_inv limit {} ((tasks s)(k := [])) ?s'"
    using server_invD(3) [OF s2(2) k] server_invD(6) [OF s2(2)] li(2)
    by (intro server_inv_loop [OF s2(2) k]) (auto simp: end_tasks_def)
  moreover have "tasks ?s' = (tasks s)(k := [])"
  proof
    fix j
    have p: "pendingTasks (loops s2 ! j) = pendingTasks (loops ?s1 ! j)" if "j < length (loops s)"
      using arg_cong [OF s2(3), of "\<lambda>xs. xs ! j"] that len by simp
    show "tasks ?s' j = ((tasks s)(k := [])) j"
      using p k len by (auto simp: tasks_def end_tasks_def nth_list_update)
  qed
  moreover have "doPendingTasks k now k s = Inr ?s'"
    using assms(2) s2(1) k by (simp add: doPendingTasks_def get_loop_def take_tasks_def on_loop_def)
  ultimately show ?thesis using s2(4) by simp
qed

section \<open>Timeouts\<close>

text \<open>The state with a heap put into a loop: what the callbacks see and what the loop is left with.\<close>

definition with_heap :: "nat \<Rightarrow> 'k server_cb timer_queue_state \<Rightarrow> 'k server_cb timer_heap \<Rightarrow>
   ('ctx, 'a, 'k) server \<Rightarrow> ('ctx, 'a, 'k) server" where
  "with_heap k q hp s = s\<lparr>loops := (loops s)[k := (loops s ! k)\<lparr>el_timers := q\<lparr>timerHeap := hp\<rparr>\<rparr>]\<rparr>"

lemma with_heap_sel [simp]:
  "length (loops (with_heap k q hp s)) = length (loops s)" "conns (with_heap k q hp s) = conns s"
  "connects (with_heap k q hp s) = connects s" "conn_at (with_heap k q hp s) = conn_at s"
  by (simp_all add: with_heap_def)

lemma with_heap_loop [simp]:
  "k < length (loops s) \<Longrightarrow> loops (with_heap k q hp s) ! k = (loops s ! k)\<lparr>el_timers := q\<lparr>timerHeap := hp\<rparr>\<rparr>"
  by (simp add: with_heap_def)

lemma closed_with_heap:
  "k < length (loops s) \<Longrightarrow> closed h fd i k (with_heap k q hp s) = with_heap k q hp (closed h fd i k s)"
  by (cases "loops s ! k") (simp add: closed_def with_heap_def loop_delChannel_def)

definition shrunk :: "('ctx, 'a, 'k) server \<Rightarrow> ('ctx, 'a, 'k) server \<Rightarrow> bool" where
  "shrunk s s' \<longleftrightarrow> connTimeOut s' = connTimeOut s \<and>
     map pendingTasks (loops s') = map pendingTasks (loops s) \<and>
     (\<forall>j c. conns s' j = Some c \<longrightarrow> (\<exists>d. conns s j = Some d \<and> getFd d = getFd c))"

lemma shrunk_refl [simp]: "shrunk s s"
  by (auto simp: shrunk_def)

lemma shrunk_trans: "shrunk s s' \<Longrightarrow> shrunk s' s'' \<Longrightarrow> shrunk s s''"
  unfolding shrunk_def by metis

lemma moved_shrunk: "moved k fd s s' \<Longrightarrow> shrunk s s'"
  by (simp add: moved_def shrunk_def)

lemma shrunk_fresh: "shrunk s s' \<Longrightarrow> fresh_fd fd s \<Longrightarrow> fresh_fd fd s'"
  unfolding shrunk_def fresh_fd_def by metis

lemma loop_inv_unexcuse:
  assumes "loop_inv limit (insert fd X) T s k l" "el_epoll l fd = None"
  shows "loop_inv limit X T s k l"
  unfolding loop_inv_def
proof (intro conjI allI impI)
  fix fd' ev i assume r: "el_epoll l fd' = Some (ev, i)"
  show "conn_at s fd' i k" "On_connect i \<notin> set (T k)" using loop_invD(2) [OF assms(1) r] by simp_all
  have "fd' \<noteq> fd" using r assms(2) by auto
  then show "\<exists>t. timers_of l fd' = Some t \<and> tm_cb t = Some (Close_conn i)" if "fd' \<notin> X"
    using loop_invD(3) [OF assms(1) r] that by simp
qed (use loop_invD [OF assms(1)] in \<open>blast+\<close>)

text \<open>The timer at the top fires and is deleted; its connection, if it still lives, is closed.\<close>

lemma fire_ok:
  assumes inv: "server_inv limit {} T (with_heap k q hp s)" and k: "k < length (loops s)"
    and t: "timers hp (tm_fd t) = Some t" "timers hp' = (timers hp)(tm_fd t := None)"
    and hp': "heap_inv hp'" "threadId hp' = threadId hp" and thread: "el_thread (loops s ! k) = k"
  shows "\<exists>cb s'. tm_cb t = Some cb \<and> run_timer_cb h k cb s = Inr s' \<and>
    server_inv limit {} T (with_heap k q hp' s') \<and> shrunk s s' \<and> length (loops s') = length (loops s) \<and>
    el_thread (loops s' ! k) = k \<and>
    (\<forall>fd. fd \<noteq> tm_fd t \<longrightarrow> el_epoll (loops s' ! k) fd = el_epoll (loops s ! k) fd)"
proof -
  let ?v = "with_heap k q hp s"
  let ?l = "loops ?v ! k"
  have kv: "k < length (loops ?v)" using k by simp
  note l = server_invD(3) [OF inv kv]
  have tm: "timers_of ?l = timers hp" using k by (simp add: timers_of_def heap_of_def)
  obtain i where cb: "tm_cb t = Some (Close_conn i)"
    using loop_okD(4) [OF loop_invD(1) [OF l], of "tm_fd t" t] t(1) tm by auto
  note ti = loop_invD(4,5) [OF l, of "tm_fd t" t i]
  let ?l' = "?l\<lparr>el_timers := q\<lparr>timerHeap := hp'\<rparr>\<rparr>"
  have ok': "loop_ok limit k ?l'"
    using loop_okD [OF loop_invD(1) [OF l]] k t(2) hp' unfolding loop_ok_def
    by (auto simp: heap_of_def timers_of_def split: if_splits)
  have "loop_inv limit ({} \<union> {tm_fd t}) T ?v k ?l'"
    using t(2) tm by (intro loop_inv_timers [OF l ok']) auto
  then have li: "loop_inv limit {tm_fd t} T ?v k ?l'" by simp
  have v': "?v\<lparr>loops := (loops ?v)[k := ?l']\<rparr> = with_heap k q hp' s"
    using k by (simp add: with_heap_def)
  show ?thesis
  proof (cases "\<exists>c. conns s i = Some c \<and> \<not> disconnected c")
    case True
    then obtain c where c: "conns s i = Some c" "\<not> disconnected c" by blast
    obtain ch where ch: "getFd c = tm_fd t" "conn_channel c = Some ch" "ch_loop ch = k"
      using ti(2) cb t(1) tm c(1) by auto
    have "connects s (tm_fd t) = Some i" using server_invD(5) [OF inv, of i c] c ch(1) by simp
    then obtain k' where "conn_at s (tm_fd t) i k'" using server_invD(4) [OF inv] by auto
    then have at: "conn_at s (tm_fd t) i k" using c(1) ch(2,3) by (auto simp: conn_at_def)
    have inv': "server_inv limit (insert (tm_fd t) {}) T (with_heap k q hp' s)"
      using server_inv_loop [OF inv kv li] server_invD(6) [OF inv] v' by auto
    have at': "conn_at (with_heap k q hp' s) (tm_fd t) i k" using at by simp
    have "server_inv limit {} T (closed h (tm_fd t) i k (with_heap k q hp' s))"
      using ti(1) cb t(1) tm by (intro closed_inv [OF at' inv']) auto
    then have "server_inv limit {} T (with_heap k q hp' (closed h (tm_fd t) i k s))"
      using closed_with_heap [OF k] by metis
    moreover have "run_timer_cb h k (Close_conn i) s = Inr (closed h (tm_fd t) i k s)"
      using handleConnectionClose_thread [OF at thread] by (simp add: run_timer_cb_def)
    moreover have "el_thread (loops (closed h (tm_fd t) i k s) ! k) = k"
      using thread k by (simp add: closed_def loop_delChannel_def)
    moreover note mv = closed_moved [OF k, of "tm_fd t" h i]
    ultimately show ?thesis using cb moved_shrunk [OF mv] mv unfolding moved_def by auto
  next
    case False
    have nr: "el_epoll ?l (tm_fd t) = None"
    proof (rule ccontr)
      assume "el_epoll ?l (tm_fd t) \<noteq> None"
      then obtain ev j where r: "el_epoll ?l (tm_fd t) = Some (ev, j)" by auto
      have "conn_at ?v (tm_fd t) j k" using loop_invD(2) [OF l r] by simp
      moreover have "j = i" using loop_invD(3) [OF l r] t(1) tm cb by auto
      ultimately show False using False conn_atD(4) by fastforce
    qed
    have "loop_inv limit {} T ?v k ?l'" by (rule loop_inv_unexcuse [OF li]) (use nr in simp)
    then have "server_inv limit {} T (with_heap k q hp' s)"
      using server_inv_loop [OF inv kv, of "{}" T ?l'] server_invD(6) [OF inv] v' by auto
    moreover have "run_timer_cb h k (Close_conn i) s = Inr s"
      using handleConnectionClose_gone [of s i h k] False by (auto simp: run_timer_cb_def)
    ultimately show ?thesis using cb thread by auto
  qed
qed

abbreviation timer_world ::
  "('ctx, 'a, 'k) handlers \<Rightarrow> nat \<Rightarrow> 'k server_cb \<Rightarrow> ('ctx, 'a, 'k) server \<times> 'k server_cb timer_heap \<Rightarrow>
   (('ctx, 'a, 'k) server \<times> 'k server_cb timer_heap) res" where
  "timer_world h tid cb x \<equiv> (case x of (s', hp) \<Rightarrow> rbind (run_timer_cb h tid cb s') (\<lambda>s''. Inr (s'', hp)))"

lemma timeouts_ok:
  "server_inv limit {} T (with_heap k q hp s) \<Longrightarrow> k < length (loops s) \<Longrightarrow> el_thread (loops s ! k) = k \<Longrightarrow>
   \<exists>s' hp'. timeout_loop k now (timer_world h k) (s, hp) = Some (Inr (s', hp')) \<and>
     server_inv limit {} T (with_heap k q hp' s') \<and> shrunk s s' \<and> length (loops s') = length (loops s) \<and>
     (\<forall>fd t. timers hp' fd = Some t \<longrightarrow> \<not> ts_le (tm_expire t) now) \<and>
     (\<forall>fd t. timers hp fd = Some t \<longrightarrow> \<not> ts_le (tm_expire t) now \<longrightarrow>
       el_epoll (loops s' ! k) fd = el_epoll (loops s ! k) fd)"
proof (induction "length (heap hp)" arbitrary: hp s rule: less_induct)
  case less
  let ?v = "with_heap k q hp s"
  have k: "k < length (loops ?v)" using less.prems(2) by simp
  have ok: "loop_ok limit k (loops ?v ! k)" using loop_invD(1) [OF server_invD(3) [OF less.prems(1) k]] .
  have heap: "heap_of (loops ?v ! k) = hp" using less.prems(2) by (simp add: heap_of_def)
  have hp: "heap_inv hp" "threadId hp = k" "length (heap hp) \<le> 2 ^ 30"
    using loop_okD(2,3) [OF ok] loop_ok_length [OF ok] heap by simp_all
  then have use: "usable hp" by (simp add: usable_def)
  show ?case
  proof (cases "heap hp = []")
    case True
    then have "timers hp = Map.empty" using th.empty_contents [OF use] by simp
    then show ?thesis using True less.prems(1) hp(2)
      by (subst timeout_loop.simps) (auto simp: heap_empty_def heap_thread_def)
  next
    case False
    obtain t where t: "heap_top k hp = Inr t" "timers hp (tm_fd t) = Some t"
        "\<And>fd u. timers hp fd = Some u \<Longrightarrow> tm_expire t \<le> tm_expire u"
      using th.top_min [OF use] False hp(2) by auto
    have empty: "heap_empty k hp = Inr False" using False hp(2) by (simp add: heap_empty_def heap_thread_def)
    show ?thesis
    proof (cases "ts_le (tm_expire t) now")
      case late: False
      have "\<not> ts_le (tm_expire u) now" if "timers hp fd = Some u" for fd u
        using t(3) [OF that] late by (simp add: ts_le_def)
      then show ?thesis using less.prems(1) empty t(1) late by (subst timeout_loop.simps) auto
    next
      case True
      obtain hp1 where hp1: "heap_pop k hp = Inr hp1" "usable hp1" "length (heap hp1) < length (heap hp)"
          "timers hp1 = (timers hp)(tm_fd t := None)" "threadId hp1 = threadId hp"
        using th.pop_top [OF use _ t(1) [folded hp(2)]] False hp(2) heap_pop_ok [OF hp(1), of k] hp(3) by force
      have inv1: "heap_inv hp1" using hp1(2) by (simp add: usable_def)
      obtain cb s1 where s1: "tm_cb t = Some cb" "run_timer_cb h k cb s = Inr s1"
          "server_inv limit {} T (with_heap k q hp1 s1)" "shrunk s s1" "length (loops s1) = length (loops s)"
          "el_thread (loops s1 ! k) = k" "\<forall>fd. fd \<noteq> tm_fd t \<longrightarrow> el_epoll (loops s1 ! k) fd = el_epoll (loops s ! k) fd"
        using fire_ok [OF less.prems(1,2) t(2) hp1(4) inv1 hp1(5) less.prems(3), of h] by blast
      have "timeout_loop k now (timer_world h k) (s, hp) = timeout_loop k now (timer_world h k) (s1, hp1)"
        using empty t(1) True s1(1,2) hp1(1) by (subst timeout_loop.simps) (simp add: call_timer_def)
      moreover obtain s' hp' where r: "timeout_loop k now (timer_world h k) (s1, hp1) = Some (Inr (s', hp'))"
          "server_inv limit {} T (with_heap k q hp' s')" "shrunk s1 s'" "length (loops s') = length (loops s1)"
          "\<forall>fd t. timers hp' fd = Some t \<longrightarrow> \<not> ts_le (tm_expire t) now"
          "\<forall>fd t. timers hp1 fd = Some t \<longrightarrow> \<not> ts_le (tm_expire t) now \<longrightarrow>
            el_epoll (loops s' ! k) fd = el_epoll (loops s1 ! k) fd"
        using less.hyps [OF hp1(3) s1(3) _ s1(6)] less.prems(2) s1(5) by auto
      moreover have "el_epoll (loops s' ! k) fd = el_epoll (loops s ! k) fd"
        if u: "timers hp fd = Some u" "\<not> ts_le (tm_expire u) now" for fd u
      proof -
        have "fd \<noteq> tm_fd t" using u True t(2) by auto
        then have "timers hp1 fd = Some u" using u(1) hp1(4) by simp
        then show ?thesis using r(6) u(2) s1(7) \<open>fd \<noteq> tm_fd t\<close> by auto
      qed
      ultimately show ?thesis using s1(5) shrunk_trans [OF s1(4) r(3)] by (intro exI [of _ s'] exI [of _ hp']) auto
    qed
  qed
qed

lemma handle_loop_timeout_ok:
  assumes "server_inv limit {} (tasks s) s" "k < length (loops s)"
  shows "\<exists>s'. handle_loop_timeout h k now k s = Inr s' \<and> server_inv limit {} (tasks s') s' \<and> shrunk s s' \<and>
    (\<forall>fd t. timers_of (loops s' ! k) fd = Some t \<longrightarrow> \<not> ts_le (tm_expire t) now) \<and>
    (\<forall>fd t. timers_of (loops s ! k) fd = Some t \<longrightarrow> \<not> ts_le (tm_expire t) now \<longrightarrow>
       el_epoll (loops s' ! k) fd = el_epoll (loops s ! k) fd)"
proof -
  let ?q = "el_timers (loops s ! k)"
  have self: "with_heap k ?q (timerHeap ?q) s = s"
    using assms(2) by (simp add: with_heap_def)
  have thread: "el_thread (loops s ! k) = k" using loop_okD(1) [OF loop_invD(1) [OF server_invD(3) [OF assms]]] .
  obtain s1 hp1 where r: "timeout_loop k now (timer_world h k) (s, timerHeap ?q) = Some (Inr (s1, hp1))"
      "server_inv limit {} (tasks s) (with_heap k ?q hp1 s1)" "shrunk s s1" "length (loops s1) = length (loops s)"
      "\<forall>fd t. timers hp1 fd = Some t \<longrightarrow> \<not> ts_le (tm_expire t) now"
      "\<forall>fd t. timers (timerHeap ?q) fd = Some t \<longrightarrow> \<not> ts_le (tm_expire t) now \<longrightarrow>
        el_epoll (loops s1 ! k) fd = el_epoll (loops s ! k) fd"
    using timeouts_ok [of limit "tasks s" k ?q "timerHeap ?q" s now h] assms thread self by auto
  let ?s = "with_heap k ?q hp1 s1"
  have "handle_loop_timeout h k now k s = Inr ?s"
    using assms(2) r(1,4) unfolding handle_loop_timeout_def handleTimeout_def get_loop_def on_loop_def
    by (simp add: with_heap_def split_def)
  moreover have "shrunk s ?s" using r(3,4) assms(2) by (simp add: shrunk_def with_heap_def map_same)
  moreover have "tasks ?s = tasks s" using calculation(2) by (intro tasks_eqI) (simp add: shrunk_def)
  ultimately show ?thesis using r(2,4,5,6) assms(2) by (auto simp: timers_of_def heap_of_def)
qed

section \<open>Batches and rounds\<close>

text \<open>
  What \<open>epoll_wait\<close> and \<open>accept\<close> answer: events of descriptors registered with the loop, each at most
  once; at most one event of the listening socket, and a descriptor that is not open. The timer's
  event comes after those of the connections.
\<close>

fun event_conns :: "active list \<Rightarrow> nat list" where
  "event_conns [] = []"
| "event_conns (A_conn i ev # es) = i # event_conns es"
| "event_conns (_ # es) = event_conns es"

fun accepts :: "active list \<Rightarrow> socket list" where
  "accepts [] = []"
| "accepts (A_listen (Some sk) # es) = sk # accepts es"
| "accepts (_ # es) = accepts es"

definition registered :: "nat \<Rightarrow> nat \<Rightarrow> ('ctx, 'a, 'k) server \<Rightarrow> bool" where
  "registered k i s \<longleftrightarrow> (\<exists>fd ev. el_epoll (loops s ! k) fd = Some (ev, i))"

fun timeout_last :: "active list \<Rightarrow> bool" where
  "timeout_last [] = True"
| "timeout_last (A_timeout # es) = (event_conns es = [] \<and> timeout_last es)"
| "timeout_last (_ # es) = timeout_last es"

definition batch_ok :: "nat \<Rightarrow> active list \<Rightarrow> ('ctx, 'a, 'k) server \<Rightarrow> bool" where
  "batch_ok k es s \<longleftrightarrow> k < length (loops s) \<and> distinct (event_conns es) \<and>
     (\<forall>i \<in> set (event_conns es). registered k i s) \<and> timeout_last es \<and>
     (accepts es = [] \<or> k = 0 \<and> (\<exists>sk. accepts es = [sk] \<and> fd_ok (sk_fd sk) \<and> fresh_fd (sk_fd sk) s))"

definition server_ok :: "int \<Rightarrow> timestamp \<Rightarrow> ('ctx, 'a, 'k) server \<Rightarrow> bool" where
  "server_ok timeout now s \<longleftrightarrow> connTimeOut s = timeout \<and> (\<exists>limit. deadline now s = Inr limit \<and> server_inv limit {} (tasks s) s)"

lemma registered_conn_at:
  "server_inv limit X T s \<Longrightarrow> k < length (loops s) \<Longrightarrow> el_epoll (loops s ! k) fd = Some (ev, i) \<Longrightarrow> conn_at s fd i k"
  using loop_invD(2) server_invD(3) by blast

lemma registered_moved:
  assumes "server_inv limit {} T s" "k < length (loops s)" "conn_at s fd i k" "moved k fd s s'"
    and "registered k j s" "j \<noteq> i"
  shows "registered k j s'"
proof -
  obtain fd' ev where r: "el_epoll (loops s ! k) fd' = Some (ev, j)" using assms(5) by (auto simp: registered_def)
  have "fd' \<noteq> fd" using registered_conn_at [OF assms(1,2) r] assms(3,6) by (auto simp: conn_at_def)
  then have "el_epoll (loops s' ! k) fd' = Some (ev, j)" using r assms(4) by (simp add: moved_def)
  then show ?thesis unfolding registered_def by blast
qed

context tcp_app
begin

text \<open>After an event the rest of the batch is still as the kernel reported it.\<close>

definition event_done ::
  "timestamp \<Rightarrow> nat \<Rightarrow> active list \<Rightarrow> ('ctx, 'a, 'k) server \<Rightarrow> ('ctx, 'a, 'k) server \<Rightarrow> bool" where
  "event_done limit k es s s' \<longleftrightarrow>
     server_inv limit {} (tasks s') s' \<and> connTimeOut s' = connTimeOut s \<and> batch_ok k es s'"

lemma conn_active_ok:
  assumes "deadline now s = Inr limit" "server_inv limit {} (tasks s) s" "batch_ok k (A_conn i ev # es) s"
  shows "lands (handle_active h now k (A_conn i ev) s) (event_done limit k es s)"
proof -
  have k: "k < length (loops s)" and i: "registered k i s" "i \<notin> set (event_conns es)"
    using assms(3) by (simp_all add: batch_ok_def)
  obtain fd ev' where r: "el_epoll (loops s ! k) fd = Some (ev', i)" using i(1) by (auto simp: registered_def)
  note at = registered_conn_at [OF assms(2) k r]
  obtain t where t: "timers_of (loops s ! k) fd = Some t" "tm_cb t = Some (Close_conn i)"
    using loop_invD(3) [OF server_invD(3) [OF assms(2) k] r] by auto
  have np: "On_connect i \<notin> set (tasks s k')" for k'
    using loop_invD(4) [OF server_invD(3) [OF assms(2) k] t] by blast
  have "batch_ok k es s'" if "moved k fd s s'" for s'
    using assms(3) i(2) registered_moved [OF assms(2) k at that] moved_length [OF that]
      shrunk_fresh [OF moved_shrunk [OF that]] by (auto simp: batch_ok_def)
  then have "event_done limit k es s s'" if "server_inv limit {} (tasks s) s' \<and> moved k fd s s'" for s'
    using that moved_tasks [of k fd s s'] by (simp add: moved_def event_done_def)
  then show ?thesis using lands_mono [OF conn_event_ok [OF assms(2) at assms(1) np, of ev]]
    by (simp add: handle_active_def)
qed

lemma timeout_active_ok:
  assumes "server_inv limit {} (tasks s) s" "batch_ok k (A_timeout # es) s"
  shows "lands (handle_active h now k A_timeout s) (event_done limit k es s)"
proof -
  have k: "k < length (loops s)" using assms(2) by (simp add: batch_ok_def)
  obtain s' where s': "handle_loop_timeout h k now k s = Inr s'" "server_inv limit {} (tasks s') s'" "shrunk s s'"
    using handle_loop_timeout_ok [OF assms(1) k, of h now] by blast
  have "length (loops s') = length (loops s)" using s'(3) unfolding shrunk_def by (metis length_map)
  then have "batch_ok k es s'"
    using assms(2) shrunk_fresh [OF s'(3)] by (auto simp: batch_ok_def)
  then show ?thesis using s' by (simp add: handle_active_def shrunk_def event_done_def)
qed

lemma wakeup_active_ok:
  assumes "server_inv limit {} (tasks s) s" "batch_ok k (A_wakeup # es) s"
  shows "lands (handle_active h now k A_wakeup s) (event_done limit k es s)"
proof -
  have k: "k < length (loops s)" using assms(2) by (simp add: batch_ok_def)
  let ?s = "s\<lparr>loops := (loops s)[k := handleWakeup (loops s ! k)]\<rparr>"
  have "loop_inv limit {} (tasks s) s k (handleWakeup (loops s ! k))"
    using server_invD(3) [OF assms(1) k] by (simp add: loop_inv_def loop_ok_def handleWakeup_def timers_of_def heap_of_def)
  then have "server_inv limit {} (tasks s) ?s"
    using server_invD(6) [OF assms(1)] by (intro server_inv_loop [OF assms(1) k]) auto
  moreover have "tasks ?s = tasks s" using k by (intro tasks_eqI) (simp add: map_same handleWakeup_def)
  moreover have "batch_ok k es ?s"
    using assms(2) k by (auto simp: batch_ok_def registered_def fresh_fd_def handleWakeup_def)
  ultimately show ?thesis using k by (simp add: handle_active_def on_loop_def get_loop_def event_done_def)
qed

lemma listen_active_ok:
  assumes "deadline now s = Inr limit" "server_inv limit {} (tasks s) s" "batch_ok k (A_listen ans # es) s"
  shows "lands (handle_active h now k (A_listen ans) s) (event_done limit k es s)"
proof (cases ans)
  case None
  then show ?thesis using assms(2,3)
    by (simp add: handle_active_def handleServerAccept_def batch_ok_def event_done_def)
next
  case (Some sk)
  then have sk: "k = 0" "fd_ok (sk_fd sk)" "fresh_fd (sk_fd sk) s" "accepts es = []"
    using assms(3) by (auto simp: batch_ok_def)
  obtain s' where s': "handleServerAccept 0 now (Some sk) s = Inr s'" "server_inv limit {} (tasks s') s'"
      "connTimeOut s' = connTimeOut s" "length (loops s') = length (loops s)"
      "\<forall>fd x. el_epoll (loops s ! 0) fd = Some x \<longrightarrow> el_epoll (loops s' ! 0) fd = Some x"
    using accept_ok [OF assms(2,1) sk(3,2)] by blast
  have "batch_ok k es s'" using assms(3) Some sk s'(4,5)
    by (fastforce simp: batch_ok_def registered_def)
  then show ?thesis using s' Some sk(1) by (simp add: handle_active_def event_done_def)
qed

lemma handle_batch_ok:
  "server_ok timeout now s \<Longrightarrow> batch_ok k es s \<Longrightarrow>
   lands (handle_batch h now k es s) (\<lambda>s'. server_ok timeout now s' \<and> k < length (loops s'))"
proof (induction es arbitrary: s)
  case Nil
  then show ?case by (simp add: batch_ok_def)
next
  case (Cons e es)
  obtain limit where inv: "deadline now s = Inr limit" "server_inv limit {} (tasks s) s"
    using Cons.prems(1) by (auto simp: server_ok_def)
  have rest: "lands (handle_batch h now k es s') (\<lambda>s'. server_ok timeout now s' \<and> k < length (loops s'))"
    if "event_done limit k es s s'" for s'
    using Cons.IH [of s'] that inv(1) Cons.prems(1) by (auto simp: server_ok_def deadline_def event_done_def)
  have "lands (handle_active h now k e s) (event_done limit k es s)"
    using Cons.prems(2) conn_active_ok [OF inv] timeout_active_ok [OF inv(2)]
      wakeup_active_ok [OF inv(2)] listen_active_ok [OF inv]
    by (cases e) simp_all
  then show ?case using rest by (auto elim!: lands_rbind)
qed

lemma loop_round_ok:
  assumes "server_ok timeout now s" "batch_ok k es s"
  shows "lands (loop_round h now k es s) (server_ok timeout now)"
  unfolding loop_round_def
proof (rule lands_rbind [OF handle_batch_ok [OF assms]])
  fix s' assume "server_ok timeout now s' \<and> k < length (loops s')"
  then show "lands (doPendingTasks k now k s') (server_ok timeout now)"
    using doPendingTasks_ok [of _ s' k now] by (fastforce simp: server_ok_def deadline_def)
qed

end

end
