(* ===== verification/TcpServerSpec.thy ===== *)
theory TcpServerSpec
  imports TcpServerRun
begin

text \<open>
  What a server promises: the states it reaches, round by round, from a fresh server; that no round
  fails in them; that every registered connection is alive, in the table and has a timer; what
  becomes of a connection whose answer has been sent or whose time has passed; and the order of
  events in which the server does use a connection it has freed.
\<close>

section \<open>Reachable states\<close>

text \<open>The clock does not wrap and the timeout fits the multiplication of \<open>ofSecond\<close>.\<close>

definition clock_ok :: "int \<Rightarrow> timestamp \<Rightarrow> bool" where
  "clock_ok timeout now \<longleftrightarrow> 0 \<le> timeout \<and> timeout \<le> 2147 \<and> now + nat timeout * 1000000 < 2 ^ 64"

inductive server_reaches ::
  "('ctx, 'a, 'k) handlers \<Rightarrow> nat \<Rightarrow> int \<Rightarrow> timestamp \<Rightarrow> ('ctx, 'a, 'k) server \<Rightarrow> bool"
  for h n timeout where
  start: "clock_ok timeout now \<Longrightarrow> server_reaches h n timeout now (new_server n timeout a)"
| round: "server_reaches h n timeout now s \<Longrightarrow> now \<le> now' \<Longrightarrow> clock_ok timeout now' \<Longrightarrow> batch_ok k es s \<Longrightarrow>
    loop_round h now' k es s = Inr s' \<Longrightarrow> server_reaches h n timeout now' s'"

inductive_cases server_reachesE: "server_reaches h n timeout now s"

lemma clock_deadline: "clock_ok (connTimeOut s) now \<Longrightarrow> deadline now s = Inr (now + nat (connTimeOut s) * 1000000)"
  by (simp add: clock_ok_def deadline_def nowSecond_val)

lemma server_inv_mono: "server_inv limit X T s \<Longrightarrow> limit \<le> limit' \<Longrightarrow> server_inv limit' X T s"
  using loop_ok_mono unfolding server_inv_def loop_inv_def by blast

lemma server_ok_later:
  assumes "server_ok timeout now s" "now \<le> now'" "clock_ok timeout now'"
  shows "server_ok timeout now' s"
proof -
  have "clock_ok timeout now" using assms(2,3) by (simp add: clock_ok_def)
  then show ?thesis using assms clock_deadline [of s now] clock_deadline [of s now'] server_inv_mono
    by (fastforce simp: server_ok_def)
qed

lemma new_server_sel [simp]:
  "length (loops (new_server n timeout a)) = n + 1" "k < n + 1 \<Longrightarrow> loops (new_server n timeout a) ! k = new_event_loop k (int k)"
  "connects (new_server n timeout a) = Map.empty" "conns (new_server n timeout a) = Map.empty"
  "connTimeOut (new_server n timeout a) = timeout" "num_thread (sv_pool (new_server n timeout a)) = n"
  "pool_ok (sv_pool (new_server n timeout a))"
  by (simp_all add: new_server_def pool_ok_def del: upt_Suc)

lemma new_server_ok:
  assumes c: "clock_ok timeout now"
  shows "server_ok timeout now (new_server n timeout a :: ('ctx, 'a, 'k) server)"
proof -
  let ?s = "new_server n timeout a :: ('ctx, 'a, 'k) server"
  have "loop_inv limit {} T ?s k (new_event_loop k fd)" if "T = (\<lambda>_. [])" for limit k fd T
    by (simp add: loop_inv_def loop_ok_def timers_of_def heap_of_def new_event_loop_def new_timer_queue_def
        new_timer_heap_def timers_def heap_inv_def ref_ok_def heap_ordered_def)
  moreover have "tasks ?s = (\<lambda>_. [])" by (intro ext) (simp add: tasks_def new_event_loop_def)
  ultimately have "server_inv limit {} (tasks ?s) ?s" for limit unfolding server_inv_def by simp
  then show ?thesis using c clock_deadline [of ?s now] by (auto simp: server_ok_def)
qed

context tcp_app
begin

lemma reaches_ok: "server_reaches h n timeout now s \<Longrightarrow> server_ok timeout now s"
proof (induction rule: server_reaches.induct)
  case (start now a)
  then show ?case by (rule new_server_ok)
next
  case (round now s now' k es s')
  have "server_ok timeout now' s" using server_ok_later [OF round.IH] round.hyps by blast
  then show ?case using loop_round_ok [of timeout now' s k es] round.hyps(4,5) by simp
qed

lemma round_safe:
  assumes "server_reaches h n timeout now s" "now \<le> now'" "clock_ok timeout now'" "batch_ok k es s"
  shows "(\<exists>s'. loop_round h now' k es s = Inr s' \<and> server_reaches h n timeout now' s') \<or>
    loop_round h now' k es s = Inl Diverges"
proof -
  have "lands (loop_round h now' k es s) (server_ok timeout now')"
    using server_ok_later [OF reaches_ok [OF assms(1)] assms(2,3)] loop_round_ok assms(4) by blast
  then show ?thesis using server_reaches.round [OF assms] by (cases "loop_round h now' k es s") auto
qed

lemma reaches_registered:
  assumes "server_reaches h n timeout now s" "k < length (loops s)" "el_epoll (loops s ! k) fd = Some (ev, i)"
  shows "connects s fd = Some i"
    and "\<exists>c ch. conns s i = Some c \<and> getFd c = fd \<and> \<not> disconnected c \<and> conn_channel c = Some ch \<and> ch_loop ch = k"
    and "\<exists>t. timers (timerHeap (el_timers (loops s ! k))) fd = Some t \<and> tm_cb t = Some (Close_conn i) \<and>
      tm_expire t \<le> now + nat timeout * 1000000"
proof -
  have ok: "server_ok timeout now s" by (rule reaches_ok [OF assms(1)])
  have clk: "clock_ok timeout now" using assms(1) by (cases rule: server_reaches.cases)
  obtain limit where inv: "server_inv limit {} (tasks s) s" and limit: "limit = now + nat timeout * 1000000"
    using ok clk clock_deadline [of s now] by (auto simp: server_ok_def)
  note l = server_invD(3) [OF inv assms(2)]
  have at: "conn_at s fd i k" using loop_invD(2) [OF l assms(3)] by blast
  then show "connects s fd = Some i" by (simp add: conn_at_def)
  show "\<exists>c ch. conns s i = Some c \<and> getFd c = fd \<and> \<not> disconnected c \<and> conn_channel c = Some ch \<and> ch_loop ch = k"
    using conn_atD(4) [OF at] by blast
  show "\<exists>t. timers (timerHeap (el_timers (loops s ! k))) fd = Some t \<and> tm_cb t = Some (Close_conn i) \<and>
      tm_expire t \<le> now + nat timeout * 1000000"
    using loop_invD(3) [OF l assms(3)] loop_okD(4) [OF loop_invD(1) [OF l]] limit
    by (auto simp: timers_of_def heap_of_def)
qed

end

text \<open>The virtual functions of \<open>TcpServer\<close> keep the contract.\<close>

interpretation tcp: tcp_app tcp_handlers
  by unfold_locales (simp add: tcp_handlers_def tcp_onMessage_def same_place_def)

section \<open>A server with a connection\<close>

definition demo_sock :: socket where
  "demo_sock = \<lparr>sk_fd = 7, isBlocked = True, sk_ssl = False, sk_errno = 0, sk_reads = [], sk_writes = [Written 2], wire = []\<rparr>"

definition demo_conn :: "'ctx connection" where
  "demo_conn = (new_connection (setNonBlocking demo_sock))
     \<lparr>conn_channel := Some \<lparr>ch_fd = 7, ch_events = EPOLLIN OR kConnectionEvent, ch_loop = 0\<rparr>\<rparr>"

definition demo_server :: "'a \<Rightarrow> ('ctx, 'a, 'k) server" where
  "demo_server a = (new_server 0 10 a)
     \<lparr>connects := [7 \<mapsto> 0], conns := [0 \<mapsto> demo_conn], next_id := 1,
      loops := [(new_event_loop 0 0)
        \<lparr>el_epoll := [7 \<mapsto> (EPOLLIN OR kConnectionEvent, 0)],
         el_timers := \<lparr>timeFd = 0, timerHeap = \<lparr>heap = [\<lparr>tm_fd = 7, tm_expire = 10000000, tm_cb = Some (Close_conn 0)\<rparr>],
           ref = [7 \<mapsto> 0], threadId = 0\<rparr>\<rparr>\<rparr>]\<rparr>"

lemma demo_accept: "loop_round tcp_handlers 0 0 [A_listen (Some demo_sock)] (new_server 0 10 a) = Inr (demo_server a)"
  by (simp add: loop_round_def handle_active_def handleServerAccept_def new_server_def getNextLoop_def get_loop_def
      new_event_loop_def isInLoopThread_def onConnect_def own_loop_def assertInLoopThread_def on_loop_def
      deadline_def nowSecond_val loop_addTimer_def on_timers_def tq_push_def heap_push_def heap_thread_def
      new_timer_queue_def new_timer_heap_def siftup_def loop_addChannel_def epoll_add_def getFd_def
      new_connection_def setNonBlocking_def doPendingTasks_def take_tasks_def end_tasks_def
      demo_server_def demo_conn_def demo_sock_def siftup_loop.simps [of 0] sift_parent_value Let_def)

lemma clock_demo: "now < 2 ^ 63 \<Longrightarrow> clock_ok 10 now"
  by (simp add: clock_ok_def)

lemma demo_reaches: "server_reaches tcp_handlers 0 10 0 (demo_server a)"
proof (rule server_reaches.round [OF server_reaches.start _ _ _ demo_accept])
  show "batch_ok 0 [A_listen (Some demo_sock)] (new_server 0 10 a)"
    by (simp add: batch_ok_def fd_ok_def fresh_fd_def demo_sock_def)
qed (simp_all add: clock_demo)

lemma demo_registered: "el_epoll (loops (demo_server a) ! 0) 7 = Some (EPOLLIN OR kConnectionEvent, 0)"
  by (simp add: demo_server_def)

abbreviation demo :: "(unit, unit, unit) server" where
  "demo \<equiv> demo_server ()"

lemma demo_ok: "server_reaches tcp_handlers 0 10 0 demo"
  by (rule demo_reaches)

section \<open>What holds in every reachable state\<close>



text \<open>C7: in every reachable state a descriptor that is registered with a loop belongs to an open
  connection of that loop, which the table knows under this descriptor, and a timer of the loop will
  close exactly this connection at most the configured timeout from now.\<close>

theorem registered_connections_live:
  assumes "server_reaches tcp_handlers n timeout now s" "k < length (loops s)" "el_epoll (loops s ! k) fd = Some (ev, i)"
  shows "connects s fd = Some i \<and>
    (\<exists>c ch. conns s i = Some c \<and> getFd c = fd \<and> \<not> disconnected c \<and> conn_channel c = Some ch \<and> ch_loop ch = k) \<and>
    (\<exists>t. timers (timerHeap (el_timers (loops s ! k))) fd = Some t \<and> tm_cb t = Some (Close_conn i) \<and>
      tm_expire t \<le> now + nat timeout * 1000000)"
  using tcp.reaches_registered [OF assms] by blast

lemma registered_connections_live_witness:
  "connects demo 7 = Some 0 \<and>
    (\<exists>c ch. conns demo 0 = Some c \<and> getFd c = 7 \<and> \<not> disconnected c \<and> conn_channel c = Some ch \<and> ch_loop ch = 0) \<and>
    (\<exists>t. timers (timerHeap (el_timers (loops demo ! 0))) 7 = Some t \<and> tm_cb t = Some (Close_conn 0) \<and>
      tm_expire t \<le> 0 + nat 10 * 1000000)"
  by (rule registered_connections_live [OF demo_ok _ demo_registered]) (simp add: demo_server_def)

section \<open>Closing\<close>

lemma reaches_now_ok:
  assumes "server_reaches tcp_handlers n timeout now s" "now \<le> now'" "clock_ok timeout now'"
  shows "\<exists>limit. deadline now' s = Inr limit \<and> server_inv limit {} (tasks s) s"
  using server_ok_later [OF tcp.reaches_ok [OF assms(1)] assms(2,3)] by (simp add: server_ok_def)



lemma answered_closed:
  assumes "server_ok timeout now s" "k < length (loops s)" "el_epoll (loops s ! k) fd = Some (ev, i)" "conns s i = Some c"
    and "conn_send c = Inr (st, c')" "st_type st = S_COMPLETED" "\<not> keepAlive c'" "\<not> pinned h c'"
  shows "\<exists>s'. handle_conn_event h k now i EPOLLOUT s = Inr s' \<and>
    connects s' fd = None \<and> conns s' i = None \<and> el_epoll (loops s' ! k) fd = None \<and>
    timers (timerHeap (el_timers (loops s' ! k))) fd = None"
proof -
  obtain limit where inv: "deadline now s = Inr limit" "server_inv limit {} (tasks s) s"
    using assms(1) by (auto simp: server_ok_def)
  note at = registered_conn_at [OF inv(2) assms(2,3)]
  obtain ch where c: "conn_ok c" "getFd c = fd" "\<not> disconnected c" "conn_channel c = Some ch" "ch_loop ch = k"
    using conn_atD(4) [OF at] assms(4) by auto
  have c': "conn_ok c'" "same_place c c'" using conn_send_lands [OF c(1)] assms(5) by simp_all
  obtain q where q: "on_loop k (loop_adjustTimer k \<lparr>tm_fd = fd, tm_expire = limit, tm_cb = None\<rparr>) s =
      Inr (s\<lparr>loops := (loops s)[k := (loops s ! k)\<lparr>el_timers := q\<rparr>]\<rparr>)"
    "server_inv limit {} (tasks s) (s\<lparr>loops := (loops s)[k := (loops s ! k)\<lparr>el_timers := q\<rparr>]\<rparr>)"
    using postpone_ok [OF inv(2) assms(2)] by blast
  let ?s = "s\<lparr>loops := (loops s)[k := (loops s ! k)\<lparr>el_timers := q\<rparr>]\<rparr>"
  have "conn_at ?s fd i k" "conns ?s i = Some c" using at assms(4) by simp_all
  note s1 = set_conn_ok [OF q(2) this c']
  have np: "On_connect i \<notin> set (tasks s k')" for k'
    using loop_invD(3,4) [OF server_invD(3) [OF inv(2) assms(2)]] assms(3) by blast
  obtain s' where s': "close_and_cancel h k now k i fd (set_conn i c' ?s) = Inr s'" "connects s' fd = None"
      "el_epoll (loops s' ! k) fd = None" "timers_of (loops s' ! k) fd = None" "conns s' i = None"
    using close_and_cancel_ok [OF s1(1,2) np, of h now] assms(8) by (auto simp: set_conn_def)
  have "own_loop k c' (set_conn i c' ?s) = Inr k"
    using own_loop_ok [OF s1(1) conn_atD(3) [OF s1(2)]] c' c by (auto simp: same_place_def)
  then have "onSend h k now i ?s = Inr s'"
    using assms(4-7) s'(1) c' c(2) by (simp add: onSend_def same_place_def)
  then have "handleConnectionWrite h k now i s = Inr s'"
    using q(1) inv(1) assms(4) c own_loop_ok [OF inv(2) assms(2) c(4,5)]
    by (simp add: handleConnectionWrite_def postpone_then_def)
  moreover have "channel_dispatch EPOLLOUT = Some Write_cb"
    by (simp add: channel_dispatch_def epoll_bits)
  ultimately show ?thesis using s' assms(4) by (auto simp: handle_conn_event_def timers_of_def heap_of_def)
qed

text \<open>An answer that has been sent completely ends a connection that is not to be kept: the
  connection is removed from the table, its descriptor is no longer registered, its timer is
  cancelled and the object is freed.\<close>

theorem answered_connection_closed:
  assumes "server_ok timeout now s" "k < length (loops s)" "el_epoll (loops s ! k) fd = Some (ev, i)" "conns s i = Some c"
    and "conn_send c = Inr (st, c')" "st_type st = S_COMPLETED" "\<not> keepAlive c'" "\<not> pinned h c'"
  shows "\<exists>s'. handle_conn_event h k now i EPOLLOUT s = Inr s' \<and>
    connects s' fd = None \<and> conns s' i = None \<and> el_epoll (loops s' ! k) fd = None \<and>
    timers (timerHeap (el_timers (loops s' ! k))) fd = None"
  by (rule answered_closed [OF assms])

text \<open>The connection of \<open>demo_server\<close> with an answer of two bytes.\<close>

definition answering_server :: "(unit, unit, unit) server" where
  "answering_server = set_conn 0 (demo_conn\<lparr>sender := full_buffer ''ok''\<rparr>) demo"

lemma answering_server_ok: "server_ok 10 0 answering_server"
proof -
  obtain limit where inv: "deadline 0 demo = Inr limit" "server_inv limit {} (tasks demo) demo"
    using reaches_now_ok [OF demo_ok order_refl clock_demo] by auto
  have "server_inv limit {} (tasks demo) answering_server"
    unfolding answering_server_def
    by (rule server_inv_conn [OF inv(2), where c = demo_conn])
      (simp_all add: demo_server_def conn_ok_def getFd_def full_buffer_def buf_ok_def)
  moreover have "tasks answering_server = tasks demo"
    by (intro tasks_eqI) (simp add: answering_server_def set_conn_def)
  ultimately show ?thesis using inv(1)
    by (auto simp: server_ok_def answering_server_def set_conn_def deadline_def demo_server_def new_server_def)
qed

lemma answered_connection_closed_witness:
  "\<exists>s'. handle_conn_event tcp_handlers 0 0 0 EPOLLOUT answering_server = Inr s' \<and> conns s' 0 = None"
proof -
  let ?c = "demo_conn\<lparr>sender := full_buffer ''ok''\<rparr> :: unit connection"
  have "\<exists>st c'. conn_send ?c = Inr (st, c') \<and> st_type st = S_COMPLETED \<and> \<not> keepAlive c'"
    by (simp add: conn_send_def send_buffered_def send_file_def demo_conn_def new_connection_def demo_sock_def
        full_buffer_def ReadableBytes_def sock_send_def WriteFd_def readable_def setNonBlocking_def set_errno_def
        put_wire_def send_status_def conn_sendable_def Let_def)
  then obtain st c' where "conn_send ?c = Inr (st, c')" "st_type st = S_COMPLETED" "\<not> keepAlive c'" by blast
  moreover have "el_epoll (loops answering_server ! 0) 7 = Some (EPOLLIN OR kConnectionEvent, 0)"
      "conns answering_server 0 = Some ?c" "0 < length (loops answering_server)"
    by (simp_all add: answering_server_def set_conn_def demo_server_def)
  ultimately show ?thesis
    using answered_connection_closed [OF answering_server_ok, of 0 7 _ 0 ?c st c' tcp_handlers]
    by (auto simp: pinned_def tcp_handlers_def)
qed

section \<open>A connection freed before its event\<close>

text \<open>The channels of a batch are raw pointers. When the timer's event stands before that of a
  connection whose deadline has passed, the timeout frees the connection and the loop then calls a
  channel that no longer exists.\<close>

theorem stale_event_undefined:
  "\<exists>s :: (unit, unit, unit) server. server_reaches tcp_handlers 0 10 0 s \<and>
    el_epoll (loops s ! 0) 7 = Some (EPOLLIN OR kConnectionEvent, 0) \<and>
    handle_batch tcp_handlers 20000000 0 [A_timeout, A_conn 0 EPOLLIN] s = Inl Undefined"
proof -
  let ?h = "\<lparr>heap = [\<lparr>tm_fd = 7, tm_expire = 10000000, tm_cb = Some (Close_conn 0)\<rparr>], ref = [7 \<mapsto> 0], threadId = 0\<rparr>
    :: unit server_cb timer_heap"
  let ?h' = "\<lparr>heap = [], ref = Map.empty, threadId = 0\<rparr> :: unit server_cb timer_heap"
  have pop: "heap_pop 0 ?h = Inr ?h'"
    by (simp add: heap_pop_def heap_thread_def del_node_def SwapNode_def siftup_def siftdown_def sift_both_def Let_def)
  obtain limit where inv: "server_inv limit {} (tasks demo) demo"
    using reaches_now_ok [OF demo_ok order_refl clock_demo] by auto
  have len: "0 < length (loops demo)" and hp: "timerHeap (el_timers (loops demo ! 0)) = ?h"
    by (simp_all add: demo_server_def)
  let ?s = "closed tcp_handlers 7 0 0 demo"
  have close: "run_timer_cb tcp_handlers 0 (Close_conn 0) demo = Inr ?s"
    using handleConnectionClose_open [OF registered_conn_at [OF inv len demo_registered] inv]
    by (simp add: run_timer_cb_def)
  have gone: "conns ?s 0 = None" "loops ?s \<noteq> []"
    by (simp_all add: closed_def demo_server_def pinned_def tcp_handlers_def)
  have "timeout_loop 0 20000000 (timer_world tcp_handlers 0) (?s, ?h') = Some (Inr (?s, ?h'))"
    by (subst timeout_loop.simps) (simp add: heap_empty_def heap_thread_def)
  then have "timeout_loop 0 20000000 (timer_world tcp_handlers 0) (demo, ?h) = Some (Inr (?s, ?h'))"
    by (subst timeout_loop.simps)
      (simp add: heap_empty_def heap_thread_def heap_top_def ts_le_def call_timer_def close pop)
  then have "\<exists>s'. handle_loop_timeout tcp_handlers 0 20000000 0 demo = Inr s' \<and> conns s' 0 = None"
    using gone len hp by (simp add: handle_loop_timeout_def get_loop_def handleTimeout_def on_loop_def)
  then obtain s' where "handle_loop_timeout tcp_handlers 0 20000000 0 demo = Inr s'" "conns s' 0 = None" by blast
  then have "handle_batch tcp_handlers 20000000 0 [A_timeout, A_conn 0 EPOLLIN] demo = Inl Undefined"
    by (simp add: handle_active_def handle_conn_event_def)
  then show ?thesis by (intro exI [of _ demo] conjI demo_ok demo_registered)
qed

end
