(* ===== verification/HttpServer.thy ===== *)
theory HttpServer
  imports Servlet TcpServer JsonParse
begin

text \<open>
  \<open>haha_web/http/HttpServer.{h,cpp}\<close>: the server that parses requests, dispatches them to servlets
  and answers, as handlers of \<open>TcpServer\<close>. The context of a connection is its request; it holds the
  connection, so every context pins it. The file system, \<open>fnmatch\<close> and the text of the date are
  members of an environment.
\<close>

section \<open>State\<close>

record environment =
  env_fs :: "string \<Rightarrow> file_lookup"
  env_fnmatch :: "string \<Rightarrow> string \<Rightarrow> bool"
  env_date :: "timestamp \<Rightarrow> string"

type_synonym body_json = "json option"

record 'v http_app =
  servletDispatcher :: "(body_json, 'v, unit main_call) dispatcher option"
  sessionManager :: "'v session_store"

definition new_http_app ::
  "(string \<Rightarrow> file_lookup) \<Rightarrow> http_content_type umap \<Rightarrow> 'v session_store \<Rightarrow> 'v http_app" where
  "new_http_app fs types sm = \<lparr>servletDispatcher = Some (new_dispatcher fs types), sessionManager = sm\<rparr>"

definition setServletDispatcher ::
  "(body_json, 'v, unit main_call) dispatcher option \<Rightarrow> 'v http_app \<Rightarrow> 'v http_app" where
  "setServletDispatcher d a = a\<lparr>servletDispatcher := d\<rparr>"

definition app_addServlet ::
  "string \<Rightarrow> (body_json, 'v, unit main_call) servlet \<Rightarrow> 'v http_app \<Rightarrow> 'v http_app res" where
  "app_addServlet uri f a =
     (case servletDispatcher a of
        None \<Rightarrow> Inl Undefined
      | Some d \<Rightarrow> Inr (a\<lparr>servletDispatcher := Some (addServlet uri f d)\<rparr>))"

section \<open>The hooks around a servlet\<close>

definition beforeServlet :: "('j, 'v, 'c) servlet" where
  "beforeServlet x =
     (let ssid = sessionId (r_cookie (ex_req x))
      in if ssid \<noteq> [] then on_response (resp_setCookie (cookie_add ''SESSIONID'' ssid empty_cookie)) x
         else Inr x)"

text \<open>
  The timer of a session: its key is the hash of the id, converted to \<open>int\<close>. The callback captures
  the local variable \<open>session\<close> by reference, so it carries nothing that can be used.
\<close>

definition session_timer :: "timestamp \<Rightarrow> 'v http_session \<Rightarrow> unit server_cb option \<Rightarrow> unit server_cb timer res" where
  "session_timer now ss cb =
     rbind (nowSecond now (ss_interval ss)) (\<lambda>t.
       Inr \<lparr>tm_fd = sint (murmurHash2 (ss_id ss)), tm_expire = t, tm_cb = cb\<rparr>)"

definition afterServlet :: "timestamp \<Rightarrow> ('j, 'v, unit main_call) servlet" where
  "afterServlet now x =
     (case fst (req_getSession [] False (ex_req x) (ex_store x)) of
        None \<Rightarrow> Inr x
      | Some p \<Rightarrow>
          let ss = sess_heap (ex_store x) ! p
          in if ss_status ss = Destroy then Inr x
             else if ss_status ss = New
             then rbind (session_timer now ss (Some (App_timer ()))) (\<lambda>t.
                    Inr (x\<lparr>ex_store := setStatus p Accessed (ex_store x), ex_calls := ex_calls x @ [Add_timer t]\<rparr>))
             else rbind (session_timer now ss None) (\<lambda>t.
                    Inr (x\<lparr>ex_calls := ex_calls x @ [Adjust_timer t]\<rparr>)))"

text \<open>What the callback is meant to do.\<close>

definition handleSessionTimeout :: "session_ptr \<Rightarrow> 'v session_store \<Rightarrow> 'v session_store" where
  "handleSessionTimeout p sm = sm_delSession (ss_id (sess_heap sm ! p)) (setStatus p Destroy sm)"

section \<open>A message\<close>

definition run_servlet ::
  "environment \<Rightarrow> timestamp \<Rightarrow> 'v http_app \<Rightarrow> (body_json, 'v, unit main_call) servlet" where
  "run_servlet env now a x =
     (case servletDispatcher a of
        None \<Rightarrow> Inr x
      | Some d \<Rightarrow> dispatch (env_fnmatch env) beforeServlet (afterServlet now) d x)"

definition http_onMessage ::
  "environment \<Rightarrow> timestamp \<Rightarrow> body_json http_request connection \<Rightarrow> 'v http_app \<Rightarrow>
   (message_status \<times> body_json http_request connection \<times> 'v http_app \<times> unit main_call list) res" where
  "http_onMessage env now c a =
     (let r = (case conn_context c of None \<Rightarrow> new_request | Some r \<Rightarrow> r)
      in rbind (parseRequest (sm_getSession (sessionManager a)) parse (recver c) r) (\<lambda>(ret, b, r').
           let c1 = c\<lparr>recver := b, conn_context := Some r'\<rparr>;
               resp = new_response (env_date env now) (r_version r')
           in if ret = AGAIN_REQUEST
              then rbind (destroy_response (env_fs env) resp (sender c1)) (\<lambda>out.
                     Inr (MSG_AGAIN, c1\<lparr>sender := out\<rparr>, a, []))
              else let (c2, resp2) = (if ret = BAD_REQUEST
                                      then (c1\<lparr>keepAlive := False\<rparr>, resp_setKeepAlive False (setStatusCode http_status.BAD_REQUEST resp))
                                      else (c1, resp))
                   in rbind (run_servlet env now a
                               \<lparr>ex_req = r', ex_resp = resp2, ex_conn = c2, ex_store = sessionManager a, ex_calls = []\<rparr>) (\<lambda>x.
                        rbind (destroy_response (env_fs env) (ex_resp x) (sender (ex_conn x))) (\<lambda>out.
                          Inr (MSG_OK, (ex_conn x)\<lparr>sender := out, conn_context := None\<rparr>,
                               a\<lparr>sessionManager := ex_store x\<rparr>, ex_calls x)))))"

definition http_handlers :: "environment \<Rightarrow> (body_json http_request, 'v http_app, unit) handlers" where
  "http_handlers env = \<lparr>onMessage = http_onMessage env, pins = (\<lambda>_. True), onTimer = (\<lambda>_ _. Inl Undefined)\<rparr>"

end
