(* ===== verification/HttpServerSpec.thy ===== *)
theory HttpServerSpec
  imports HttpServer HttpRequestSpec TcpServerSpec
begin

text \<open>
  What a client of the HTTP server gets: one framed answer for a request that arrives complete, a
  second one before it for a request that arrives in pieces, 400 for a bad one; and what becomes of
  sessions and of connections that end in the middle of a request.
\<close>

section \<open>Answers\<close>

text \<open>The request of a connection before the next message.\<close>

definition request_of :: "body_json http_request connection \<Rightarrow> body_json http_request" where
  "request_of c = (case conn_context c of None \<Rightarrow> new_request | Some r \<Rightarrow> r)"

lemma take_line:
  assumes "take n t = line @ rest"
  shows "take (length line) t = line"
proof -
  have "length line \<le> n" using arg_cong [OF assms, of length] by (simp add: min_def split: if_splits)
  moreover have "take (length line) (take n t) = line" using assms by simp
  ultimately show ?thesis by (simp add: min_def)
qed

lemma http_onMessage_unfold:
  assumes "parseRequest (sm_getSession (sessionManager a)) parse (recver c) (request_of c) = Inr (ret, b, r)"
  shows "http_onMessage env now c a =
    (let c1 = c\<lparr>recver := b, conn_context := Some r\<rparr>;
         resp = new_response (env_date env now) (r_version r)
     in if ret = AGAIN_REQUEST
        then rbind (destroy_response (env_fs env) resp (sender c)) (\<lambda>out. Inr (MSG_AGAIN, c1\<lparr>sender := out\<rparr>, a, []))
        else let (c2, resp2) = (if ret = BAD_REQUEST
                                then (c1\<lparr>keepAlive := False\<rparr>, resp_setKeepAlive False (setStatusCode http_status.BAD_REQUEST resp))
                                else (c1, resp))
             in rbind (run_servlet env now a
                         \<lparr>ex_req = r, ex_resp = resp2, ex_conn = c2, ex_store = sessionManager a, ex_calls = []\<rparr>) (\<lambda>x.
                  rbind (destroy_response (env_fs env) (ex_resp x) (sender (ex_conn x))) (\<lambda>out.
                    Inr (MSG_OK, (ex_conn x)\<lparr>sender := out, conn_context := None\<rparr>,
                         a\<lparr>sessionManager := ex_store x\<rparr>, ex_calls x))))"
  using assms unfolding http_onMessage_def request_of_def Let_def by simp

lemma no_session_servlet:
  assumes "sessionId (r_cookie (ex_req x)) = []" "r_session (ex_req x) = None" "servletDispatcher a = Some d"
    and "find_match (env_fnmatch env) (url_path (r_url (ex_req x))) d = Some (on_response f)"
  shows "run_servlet env now a x = rbind (f (ex_resp x)) (\<lambda>r. Inr (x\<lparr>ex_resp := r\<rparr>))"
  using assms
  by (cases "f (ex_resp x)")
    (simp_all add: run_servlet_def dispatch_def beforeServlet_def on_response_def afterServlet_def req_getSession_def)

text \<open>A complete request without a session is answered once: the servlet registered for its path
  makes the response, and what is appended to the send buffer is its status line, a header block with
  the length of the body, and the body; the unread bytes stay, and the connection has no request any more.\<close>

lemma request_answered_once:
  assumes "parseRequest (sm_getSession (sessionManager a)) parse (recver c) (request_of c) = Inr (OK_REQUEST, b, r)"
    and "sessionId (r_cookie r) = []" "r_session r = None" "servletDispatcher a = Some d"
    and "find_match (env_fnmatch env) (url_path (r_url r)) d = Some (on_response f)"
    and "f (new_response (env_date env now) (r_version r)) = Inr resp" "buf_ok (sender c)"
    and "\<not> rs_isFileBody resp" "rs_contentLength resp = - 1" "length (rs_body resp) < 2 ^ 31"
    and "\<forall>(k, v) \<in> set (hmap (rs_header resp)). CR \<notin> set k \<and> CR \<notin> set v"
  shows "\<exists>out t k line. http_onMessage env now c a =
      Inr (MSG_OK, c\<lparr>recver := b, sender := out, conn_context := None\<rparr>, a, []) \<and>
    buf_ok out \<and> readable out = readable (sender c) @ t \<and> status_line resp = Inr line \<and> take (length line) t = line \<and>
    find_sub (CRLF @ CRLF) t = Some k \<and> drop (k + 4) t = rs_body resp"
proof -
  obtain b' t k h line where d: "destroy_response (env_fs env) resp (sender c) = Inr b'" "readable b' = readable (sender c) @ t"
      "find_sub (CRLF @ CRLF) t = Some k" "drop (k + 4) t = rs_body resp" "status_line resp = Inr line"
      "take (k + 2) t = line @ header_block (hmap (h :: http_header))" "buf_ok b'"
    using destroy_framed [OF assms(7-11), of "env_fs env"] by blast
  have "take (length line) t = line" by (rule take_line [OF d(6)])
  moreover have "run_servlet env now a \<lparr>ex_req = r, ex_resp = new_response (env_date env now) (r_version r),
        ex_conn = c\<lparr>recver := b, conn_context := Some r\<rparr>, ex_store = sessionManager a, ex_calls = []\<rparr> =
      Inr \<lparr>ex_req = r, ex_resp = resp, ex_conn = c\<lparr>recver := b, conn_context := Some r\<rparr>,
        ex_store = sessionManager a, ex_calls = []\<rparr>"
    using assms(2-6) by (subst no_session_servlet [where d = d and f = f]) simp_all
  ultimately show ?thesis using d(1-5,7)
    by (intro exI [of _ b'] exI [of _ t] exI [of _ k] exI [of _ line]) (simp add: http_onMessage_unfold [OF assms(1)])
qed

text \<open>A request, a servlet and a server that has it.\<close>

definition demo_env :: environment where
  "demo_env = \<lparr>env_fs = (\<lambda>_. No_file), env_fnmatch = (\<lambda>_ _. False), env_date = (\<lambda>_. ''Mon, 01 Jan 2024 00:00:00 GMT'')\<rparr>"

definition demo_app :: "unit http_app" where
  "demo_app = \<lparr>servletDispatcher =
       Some (addServlet ''/hi'' (on_response (\<lambda>r. Inr (appendBody ''hello'' r))) (new_dispatcher (\<lambda>_. No_file) [])),
     sessionManager = empty_store\<rparr>"

definition reading :: "string \<Rightarrow> body_json http_request connection" where
  "reading s = demo_conn\<lparr>recver := full_buffer s\<rparr>"

lemma get_answered:
  fixes c :: "body_json http_request connection" and hs :: "(string \<times> string) list"
  defines "h \<equiv> foldl (\<lambda>h (k, v). header_add k v h) new_header hs"
  assumes line: "(m, mn) \<in> set HttpMethod2Str" "m = GET \<or> m = HEAD" "(v, vn) \<in> set HttpVersion2Str"
      "CHR '' '' \<notin> set u" "CR \<notin> set u" "url_state (new_url u True) = PARSE_SUCCESS"
    and hs: "\<forall>kv \<in> set hs. line_ok kv" "header_size h \<le> max_requestHeader_len"
      "\<forall>k \<in> {''Cookie'', ''Transfer-Encoding'', ''Content-Type'', ''Content-Length''}. header_get k h = None"
    and c: "conn_ok c" "conn_context c = None" "readable (recver c) = request_text mn u vn hs [] @ rest"
      "length (readable (recver c)) \<le> max_requestLine_len"
    and f: "servletDispatcher a = Some d" "find_match (env_fnmatch env) (url_path (new_url u True)) d = Some (on_response f)"
      "f (new_response (env_date env now) v) = Inr resp" "\<not> rs_isFileBody resp" "rs_contentLength resp = - 1"
      "length (rs_body resp) < 2 ^ 31" "\<forall>(k, v) \<in> set (hmap (rs_header resp)). CR \<notin> set k \<and> CR \<notin> set v"
  shows "\<exists>b out t k line. http_onMessage env now c a =
      Inr (MSG_OK, c\<lparr>recver := b, sender := out, conn_context := None\<rparr>, a, []) \<and>
    buf_ok b \<and> readable b = rest \<and> buf_ok out \<and> readable out = readable (sender c) @ t \<and>
    status_line resp = Inr line \<and> take (length line) t = line \<and>
    find_sub (CRLF @ CRLF) t = Some k \<and> drop (k + 4) t = rs_body resp"
proof -
  have b: "buf_ok (recver c)" "buf_ok (sender c)" using c(1) by (simp_all add: conn_ok_def)
  obtain b' r' where p: "parseRequest (sm_getSession (sessionManager a)) parse (recver c) (new_request :: body_json http_request) =
        Inr (OK_REQUEST, b', r')" "readable b' = rest" "r_url r' = new_url u True" "r_version r' = v"
      "r_session r' = None" "sessionId (r_cookie r') = []" "buf_ok b'"
    using bodyless_request_parsed [OF line(1,3-6) line(2) hs(1), of empty_cookie "recver c" rest
        "sm_getSession (sessionManager a)" parse] hs b(1) c(3,4)
    by (auto simp: h_def empty_cookie_def)
  have "request_of c = new_request" using c(2) by (simp add: request_of_def)
  with p(1) have p1: "parseRequest (sm_getSession (sessionManager a)) parse (recver c) (request_of c) =
      Inr (OK_REQUEST, b', r')" by simp
  have f': "find_match (env_fnmatch env) (url_path (r_url r')) d = Some (on_response f)"
      "f (new_response (env_date env now) (r_version r')) = Inr resp" using f(2,3) p(3,4) by simp_all
  show ?thesis
    using request_answered_once [OF p1 p(6,5) f(1) f' b(2) f(4-7)] p(2,7) by blast
qed

text \<open>What a client gets for a plain \<open>GET\<close> or \<open>HEAD\<close> request that has arrived completely on a fresh
  connection, when a servlet is registered for its path and there is no session: the server consumes
  exactly the request and appends one answer to the send buffer: the status line, a header block that
  ends at the first empty line, and the body the servlet made; nothing else changes but the keep-alive
  of the connection, which stays as it was.\<close>

theorem get_answered_once:
  fixes c :: "body_json http_request connection" and hs :: "(string \<times> string) list"
  defines "h \<equiv> foldl (\<lambda>h (k, v). header_add k v h) new_header hs"
  assumes line: "(m, mn) \<in> set HttpMethod2Str" "m = GET \<or> m = HEAD" "(v, vn) \<in> set HttpVersion2Str"
      "CHR '' '' \<notin> set u" "CR \<notin> set u" "url_state (new_url u True) = PARSE_SUCCESS"
    and hs: "\<forall>kv \<in> set hs. line_ok kv" "header_size h \<le> max_requestHeader_len"
      "\<forall>k \<in> {''Cookie'', ''Transfer-Encoding'', ''Content-Type'', ''Content-Length''}. header_get k h = None"
    and c: "conn_ok c" "conn_context c = None" "readable (recver c) = request_text mn u vn hs [] @ rest"
      "length (readable (recver c)) \<le> max_requestLine_len"
    and f: "servletDispatcher a = Some d" "find_match (env_fnmatch env) (url_path (new_url u True)) d = Some (on_response f)"
      "f (new_response (env_date env now) v) = Inr resp" "\<not> rs_isFileBody resp" "rs_contentLength resp = - 1"
      "length (rs_body resp) < 2 ^ 31" "\<forall>(k, v) \<in> set (hmap (rs_header resp)). CR \<notin> set k \<and> CR \<notin> set v"
  shows "\<exists>c' t k line. http_onMessage env now c a = Inr (MSG_OK, c', a, []) \<and> readable (recver c') = rest \<and>
    conn_context c' = None \<and> keepAlive c' = keepAlive c \<and>
    readable (sender c') = readable (sender c) @ t \<and> status_line resp = Inr line \<and> take (length line) t = line \<and>
    find_sub (CRLF @ CRLF) t = Some k \<and> drop (k + 4) t = rs_body resp"
proof -
  obtain b out t k line where "http_onMessage env now c a =
        Inr (MSG_OK, c\<lparr>recver := b, sender := out, conn_context := None\<rparr>, a, [])" "readable b = rest"
      "readable out = readable (sender c) @ t" "status_line resp = Inr line" "take (length line) t = line"
      "find_sub (CRLF @ CRLF) t = Some k" "drop (k + 4) t = rs_body resp"
    using get_answered [OF line hs [unfolded h_def] c f] by blast
  then show ?thesis by (intro exI [of _ "c\<lparr>recver := b, sender := out, conn_context := None\<rparr>"]) auto
qed

lemma new_request_state: "r_state new_request = CHECK_REQUESTLINE"
  by (simp add: new_request_def)

lemma full_buffer_len: "ReadableBytes (full_buffer s) = length s"
  by (simp add: full_buffer_def ReadableBytes_def)

lemma get_answered_once_witness:
  "\<exists>c' t k. http_onMessage demo_env 0 (reading (request_text ''GET'' ''/hi'' ''HTTP/1.1'' [] [] @ ''GET'')) demo_app =
      Inr (MSG_OK, c', demo_app, []) \<and> readable (recver c') = ''GET'' \<and> readable (sender c') = t \<and>
    find_sub (CRLF @ CRLF) t = Some k \<and> drop (k + 4) t = ''hello''"
proof -
  let ?c = "reading (request_text ''GET'' ''/hi'' ''HTTP/1.1'' [] [] @ ''GET'')"
  let ?f = "\<lambda>r. Inr (appendBody ''hello'' r)"
  have u: "url_state (new_url ''/hi'' True) = PARSE_SUCCESS" "url_path (new_url ''/hi'' True) = ''/hi''" by code_simp+
  have h: "\<forall>(k, v) \<in> set (hmap (rs_header (appendBody ''hello'' (new_response (env_date demo_env 0) HTTP_1_1)))).
      CR \<notin> set k \<and> CR \<notin> set v"
    by code_simp
  have c: "conn_ok ?c" "conn_context ?c = None" "sender ?c = new_buffer kInitialSize" "recver ?c = full_buffer (request_text ''GET'' ''/hi'' ''HTTP/1.1'' [] [] @ ''GET'')"
    by (simp_all add: reading_def demo_conn_def new_connection_def conn_ok_def setNonBlocking_def)
  have "readable (sender ?c) = []" unfolding c(3) by (simp add: readable_def ReadableBytes_def new_buffer_def)
  moreover have "\<exists>c' t k line. http_onMessage demo_env 0 ?c demo_app = Inr (MSG_OK, c', demo_app, []) \<and> readable (recver c') = ''GET'' \<and>
    conn_context c' = None \<and> keepAlive c' = keepAlive ?c \<and> readable (sender c') = readable (sender ?c) @ t \<and>
    status_line (appendBody ''hello'' (new_response (env_date demo_env 0) HTTP_1_1)) = Inr line \<and> take (length line) t = line \<and>
    find_sub (CRLF @ CRLF) t = Some k \<and>
    drop (k + 4) t = rs_body (appendBody ''hello'' (new_response (env_date demo_env 0) HTTP_1_1))"
    by (rule get_answered_once [where hs = "[]" and m = GET and mn = "''GET''" and vn = "''HTTP/1.1''" and u = "''/hi''"
          and f = ?f and d = "the (servletDispatcher demo_app)", OF _ _ _ _ _ u(1) _ _ _ c(1,2)])
      (use h u(2) in \<open>simp_all add: reading_def HttpMethod2Str_def HttpVersion2Str_def demo_app_def demo_env_def find_match_def
        addServlet_def new_dispatcher_def appendBody_def new_response_def request_text_def max_requestLine_len_def
        header_get_def new_header_def header_size_def resp_header_def\<close>)
  ultimately show ?thesis by (fastforce simp: appendBody_def new_response_def)
qed

section \<open>Requests in pieces and bad requests\<close>

text \<open>C9: while a request is still incomplete, every piece of it that arrives is answered at once, with
  a \<open>200 OK\<close> that has no body, before the request is handed to a servlet; the client of a request
  sent in two pieces gets two answers.\<close>

theorem partial_request_answered:
  assumes "parseRequest (sm_getSession (sessionManager a)) parse (recver c) (request_of c) = Inr (AGAIN_REQUEST, b, r)"
    and "buf_ok (sender c)" "CR \<notin> set (env_date env now)"
  shows "\<exists>c' t k vn. http_onMessage env now c a = Inr (MSG_AGAIN, c', a, []) \<and> conn_context c' = Some r \<and>
    readable (sender c') = readable (sender c) @ t \<and> (r_version r, vn) \<in> set HttpVersion2Str \<and>
    take (length vn + 9) t = vn @ '' 200 OK'' @ CRLF \<and> find_sub (CRLF @ CRLF) t = Some k \<and> length t = k + 4"
proof -
  let ?resp = "new_response (env_date env now) (r_version r)"
  have n: "int_to_string 200 = ''200''" by code_simp
  obtain vn where vn: "(r_version r, vn) \<in> set HttpVersion2Str" "status_line ?resp = Inr (vn @ '' 200 OK'' @ CRLF)"
    by (cases "r_version r")
      (auto simp: HttpVersion2Str_def status_line_def new_response_def HttpStatus2Str_def n)
  have low: "toLowers ''Content-Type'' = ''content-type''" "toLowers ''Date'' = ''date''" "toLowers ''Server'' = ''server''"
    by code_simp+
  have cr: "\<forall>(k, v) \<in> set (hmap (rs_header ?resp)). CR \<notin> set k \<and> CR \<notin> set v"
    using assms(3) by (simp add: new_response_def header_add_def new_header_def low)
  have "rs_body ?resp = []" by (simp add: new_response_def)
  then obtain b' t k h line where d: "destroy_response (env_fs env) ?resp (sender c) = Inr b'" "readable b' = readable (sender c) @ t"
      "find_sub (CRLF @ CRLF) t = Some k" "drop (k + 4) t = []" "status_line ?resp = Inr line"
      "take (k + 2) t = line @ header_block (hmap (h :: http_header))"
    using destroy_framed [OF assms(2) _ _ _ cr, of "env_fs env"] by (force simp: new_response_def)
  have line: "line = vn @ '' 200 OK'' @ CRLF" "length line = length vn + 9" using d(5) vn(2) by auto
  have "take (length vn + 9) t = vn @ '' 200 OK'' @ CRLF" using take_line [OF d(6)] line by metis
  moreover have "length t = k + 4" using d(4) find_sub_Some_bound [OF d(3)] by simp
  moreover have "http_onMessage env now c a = Inr (MSG_AGAIN, c\<lparr>recver := b, conn_context := Some r, sender := b'\<rparr>, a, [])"
    using d(1) by (simp add: http_onMessage_unfold [OF assms(1)])
  moreover have "conn_context (c\<lparr>recver := b, conn_context := Some r, sender := b'\<rparr>) = Some r"
      "readable (sender (c\<lparr>recver := b, conn_context := Some r, sender := b'\<rparr>)) = readable (sender c) @ t"
    using d(2) by simp_all
  ultimately show ?thesis using d(3) vn(1) by blast
qed

lemma partial_request_answered_witness:
  "\<exists>c' r t k vn. http_onMessage demo_env 0 (reading ''GET /hi HTTP'') demo_app = Inr (MSG_AGAIN, c', demo_app, []) \<and>
    conn_context c' = Some r \<and> readable (sender c') = readable (sender (reading ''GET /hi HTTP'')) @ t \<and>
    (r_version r, vn) \<in> set HttpVersion2Str \<and> take (length vn + 9) t = vn @ '' 200 OK'' @ CRLF \<and>
    find_sub (CRLF @ CRLF) t = Some k \<and> length t = k + 4"
proof -
  let ?c = "reading ''GET /hi HTTP''"
  have "find_sub CRLF ''GET /hi HTTP'' = None" by code_simp
  then have "parseRequestLine (full_buffer ''GET /hi HTTP'') (new_request :: body_json http_request) =
      Inr (AGAIN_REQUEST, full_buffer ''GET /hi HTTP'', new_request)"
    by (simp add: parseRequestLine_def max_requestLine_len_def full_buffer_len)
  then have "\<exists>b r. parseRequest (sm_getSession (sessionManager demo_app)) parse (recver ?c) (request_of ?c) = Inr (AGAIN_REQUEST, b, r)"
    by (simp add: reading_def request_of_def demo_conn_def new_connection_def parseRequest_def
        parse_loop.simps [of _ _ _ new_request] new_request_state)
  then obtain b r where p: "parseRequest (sm_getSession (sessionManager demo_app)) parse (recver ?c) (request_of ?c) =
      Inr (AGAIN_REQUEST, b, r)" by blast
  have "buf_ok (sender ?c)" by (simp add: reading_def demo_conn_def new_connection_def)
  moreover have "CR \<notin> set (env_date demo_env 0)" by (simp add: demo_env_def)
  ultimately show ?thesis using partial_request_answered [OF p] by blast
qed


definition empty_app :: "unit http_app" where
  "empty_app = new_http_app (\<lambda>_. No_file) [] empty_store"


section \<open>Sessions\<close>

text \<open>A request that carries a session id is not answered: the hook before the servlet writes the
  id into a fresh cookie whose \<open>maxAge_\<close> was never set, and reading it is undefined.\<close>

theorem session_cookie_undefined:
  assumes "parseRequest (sm_getSession (sessionManager a)) parse (recver c) (request_of c) = Inr (ret, b, r)"
    and "ret \<noteq> AGAIN_REQUEST" "sessionId (r_cookie r) \<noteq> []" "servletDispatcher a = Some d"
  shows "http_onMessage env now c a = Inl Undefined"
proof -
  have "cookie_toString (cookie_add ''SESSIONID'' s empty_cookie) = Inl Undefined" for s
    by (simp add: cookie_toString_def cookie_add_def empty_cookie_def Let_def)
  then show ?thesis using assms
    by (simp add: http_onMessage_unfold [OF assms(1)] run_servlet_def dispatch_def beforeServlet_def on_response_def
        resp_setCookie_def Let_def split: prod.split)
qed

lemma session_cookie_undefined_witness:
  "http_onMessage demo_env 0 (reading (request_text ''GET'' ''/hi'' ''HTTP/1.1'' [(''Cookie'', ''SESSIONID=abc'')] [])) demo_app =
   Inl Undefined"
proof -
  let ?t = "request_text ''GET'' ''/hi'' ''HTTP/1.1'' [(''Cookie'', ''SESSIONID=abc'')] []"
  let ?h = "foldl (\<lambda>h (k, v). header_add k v h) new_header [(''Cookie'', ''SESSIONID=abc'')]"
  have u: "url_state (new_url ''/hi'' True) = PARSE_SUCCESS" by code_simp
  have h: "header_size ?h \<le> max_requestHeader_len" "header_get ''Cookie'' ?h = Some ''SESSIONID=abc''"
      "\<forall>k \<in> {''Transfer-Encoding'', ''Content-Type'', ''Content-Length''}. header_get k ?h = None"
    by code_simp+
  have "map_sum id sessionId (parse_cookie ''SESSIONID=abc'') = Inr ''abc''" by code_simp
  then obtain ck where ck: "parse_cookie ''SESSIONID=abc'' = Inr ck" "sessionId ck = ''abc''"
    by (cases "parse_cookie ''SESSIONID=abc''") auto
  have "case header_get ''Cookie'' ?h of None \<Rightarrow> ck = empty_cookie | Some v \<Rightarrow> parse_cookie v = Inr ck"
    using h(2) ck(1) by simp
  then obtain b r where r: "parseRequest (sm_getSession (sessionManager demo_app)) parse (full_buffer ?t) (new_request :: body_json http_request) =
        Inr (OK_REQUEST, b, r)" "r_cookie r = ck"
    using bodyless_request_parsed [of GET "''GET''" HTTP_1_1 "''HTTP/1.1''" "''/hi''" "[(''Cookie'', ''SESSIONID=abc'')]" ck
        "full_buffer ?t" "[]" "sm_getSession (sessionManager demo_app)" parse] u h
    by (auto simp: HttpMethod2Str_def HttpVersion2Str_def line_ok_def max_requestLine_len_def request_text_def header_text_def)
  have "parseRequest (sm_getSession (sessionManager demo_app)) parse (recver (reading ?t)) (request_of (reading ?t)) = Inr (OK_REQUEST, b, r)"
    using r(1) by (simp add: reading_def request_of_def demo_conn_def new_connection_def)
  from session_cookie_undefined [OF this] show ?thesis using r(2) ck(2) by (simp add: demo_app_def)
qed

text \<open>The timer of a new session can never fire as intended. Set by a request that a worker thread
  handles, the call reaches the main loop as a task that refers to a dead argument; set in the main
  thread, an id whose hash is negative as an \<open>int\<close> fails the assertion of the heap, and otherwise the
  callback refers to a dead variable.\<close>

theorem session_timer_unusable:
  assumes "r_session (ex_req x) = Some p" "sess_heap (ex_store x) ! p = ss" "ss_status ss = New"
    and "ss_interval ss = INTERVAL" "now + 180000000 < 2 ^ 64"
    and "loops s \<noteq> []" "el_thread (loops s ! 0) = 0" "threadId (timerHeap (el_timers (loops s ! 0))) = 0"
    and "pendingTasks (loops s ! 0) = []"
  shows "\<exists>t x'. afterServlet now x = Inr x' \<and> ex_calls x' = ex_calls x @ [Add_timer t] \<and>
    (k \<noteq> 0 \<longrightarrow> (\<exists>s'. run_call k (Add_timer t) s = Inr s' \<and> doPendingTasks 0 now 0 s' = Inl Undefined)) \<and>
    (sint (murmurHash2 (ss_id ss)) < 0 \<longrightarrow> run_call 0 (Add_timer t) s = Inl Assertion) \<and>
    (\<exists>cb. tm_cb t = Some cb \<and> run_timer_cb (http_handlers env) 0 cb s = Inl Undefined)"
proof -
  let ?t = "\<lparr>tm_fd = sint (murmurHash2 (ss_id ss)), tm_expire = now + 180000000, tm_cb = Some (App_timer ())\<rparr>"
  have t: "session_timer now ss (Some (App_timer ())) = Inr ?t"
    using nowSecond_val [of 180 now] assms(4,5) by (simp add: session_timer_def INTERVAL_def)
  let ?x = "x\<lparr>ex_store := setStatus p Accessed (ex_store x), ex_calls := ex_calls x @ [Add_timer ?t]\<rparr>"
  from t have "afterServlet now x = Inr ?x"
    using assms(1-3) by (simp add: afterServlet_def req_getSession_def)
  moreover have "\<exists>s'. run_call k (Add_timer ?t) s = Inr s' \<and> doPendingTasks 0 now 0 s' = Inl Undefined" if "k \<noteq> 0"
    using assms(6,7,9) that
    by (simp add: run_call_def on_loop_def get_loop_def isInLoopThread_def queueInLoop_def push_task_def wakeup_def
        doPendingTasks_def take_tasks_def run_task_def Let_def)
  moreover have "run_call 0 (Add_timer ?t) s = Inl Assertion" if "sint (murmurHash2 (ss_id ss)) < 0"
    using assms(6-8) that
    by (simp add: run_call_def on_loop_def get_loop_def isInLoopThread_def loop_addTimer_def on_timers_def tq_push_def
        heap_push_def heap_thread_def)
  moreover have "run_timer_cb (http_handlers env) 0 (App_timer ()) s = Inl Undefined"
    by (simp add: run_timer_cb_def http_handlers_def)
  ultimately show ?thesis by (intro exI [of _ ?t] exI [of _ ?x] conjI) auto
qed

definition two_loops :: "(body_json http_request, unit http_app, unit) server" where
  "two_loops = new_server 1 10 demo_app"

definition session_exchange :: "(body_json, unit, unit main_call) exchange" where
  "session_exchange =
     \<lparr>ex_req = new_request\<lparr>r_session := Some 0\<rparr>, ex_resp = new_response [] HTTP_1_1, ex_conn = demo_conn,
      ex_store = snd (sm_newSession ''b'' empty_store), ex_calls = []\<rparr>"

lemma session_timer_unusable_witness:
  "\<exists>t x'. afterServlet 0 session_exchange = Inr x' \<and> ex_calls x' = [Add_timer t] \<and>
    (\<exists>s'. run_call 1 (Add_timer t) two_loops = Inr s' \<and> doPendingTasks 0 0 0 s' = Inl Undefined)"
proof -
  have "loops two_loops \<noteq> []" by (simp add: two_loops_def flip: length_greater_0_conv)
  moreover have "el_thread (loops two_loops ! 0) = 0" "threadId (timerHeap (el_timers (loops two_loops ! 0))) = 0"
      "pendingTasks (loops two_loops ! 0) = []"
    by (simp_all add: two_loops_def new_event_loop_def new_timer_queue_def new_timer_heap_def)
  moreover have "r_session (ex_req session_exchange) = Some 0" "ex_calls session_exchange = []"
      "sess_heap (ex_store session_exchange) ! 0 = new_session_object ''b''"
    by (simp_all add: session_exchange_def sm_newSession_def empty_store_def Let_def)
  ultimately show ?thesis
    using session_timer_unusable [of session_exchange 0 "new_session_object ''b''" 0 two_loops 1 demo_env]
    by (simp add: new_session_object_def) blast
qed

section \<open>Connections that end in the middle of a request\<close>

text \<open>C35: a connection that is closed, by the peer or by its timeout, while its request is incomplete
  is never freed: it leaves the table and the loop, but the object stays with its socket open, and
  whatever event of it may still come changes nothing.\<close>

theorem unfinished_connection_leaks:
  assumes "server_ok timeout now s" "k < length (loops s)" "el_epoll (loops s ! k) fd = Some (ev, i)"
    and "conns s i = Some c" "conn_context c = Some r"
  shows "\<exists>s' d. handleConnectionClose (http_handlers env) k i s = Inr s' \<and> connects s' fd = None \<and>
    el_epoll (loops s' ! k) fd = None \<and> conns s' i = Some d \<and> sock d = sock c \<and>
    (\<forall>k' now' revents. handle_conn_event (http_handlers env) k' now' i revents s' = Inr s')"
proof -
  obtain limit where inv: "server_inv limit {} (tasks s) s" using assms(1) by (auto simp: server_ok_def)
  note at = registered_conn_at [OF inv assms(2,3)]
  let ?s = "closed (http_handlers env) fd i k s"
  have d: "conns ?s i = Some (c\<lparr>disconnected := True\<rparr>)"
    using assms(4,5) by (simp add: closed_def pinned_def http_handlers_def)
  then have "handle_conn_event (http_handlers env) k' now' i revents ?s = Inr ?s" for k' now' revents
    by (auto simp: handle_conn_event_def handleConnectionClose_def handleConnectionRead_def handleConnectionWrite_def
        postpone_then_def split: option.split channel_cb.split)
  moreover have "connects ?s fd = None" "el_epoll (loops ?s ! k) fd = None"
    using assms(2) by (simp_all add: closed_def loop_delChannel_def epoll_del_def)
  ultimately show ?thesis using handleConnectionClose_open [OF at inv] d
    by (intro exI [of _ ?s] exI [of _ "c\<lparr>disconnected := True\<rparr>"]) simp
qed

text \<open>A connection of which half a request line has arrived.\<close>

definition waiting_server :: "(body_json http_request, unit http_app, unit) server" where
  "waiting_server = set_conn 0 (demo_conn\<lparr>conn_context := Some new_request\<rparr>) (demo_server demo_app)"

lemma unfinished_connection_leaks_witness:
  "\<exists>s' d. handleConnectionClose (http_handlers demo_env) 0 0 waiting_server = Inr s' \<and> connects s' 7 = None \<and>
    conns s' 0 = Some d \<and> sk_fd (sock d) = 7"
proof -
  let ?d = "demo_server demo_app :: (body_json http_request, unit http_app, unit) server"
  have "server_ok 10 0 ?d" by (rule tcp.reaches_ok [OF demo_reaches])
  then obtain limit where inv: "deadline 0 ?d = Inr limit" "server_inv limit {} (tasks ?d) ?d"
    by (auto simp: server_ok_def)
  have "server_inv limit {} (tasks ?d) waiting_server"
    unfolding waiting_server_def
    by (rule server_inv_conn [OF inv(2), where c = demo_conn]) (simp_all add: demo_server_def conn_ok_def getFd_def)
  moreover have "tasks waiting_server = tasks ?d"
    by (intro tasks_eqI) (simp add: waiting_server_def set_conn_def)
  ultimately have ok: "server_ok 10 0 waiting_server"
    using inv(1) by (auto simp: server_ok_def waiting_server_def set_conn_def deadline_def demo_server_def new_server_def)
  have "el_epoll (loops waiting_server ! 0) 7 = Some (EPOLLIN OR kConnectionEvent, 0)" "0 < length (loops waiting_server)"
      "conns waiting_server 0 = Some (demo_conn\<lparr>conn_context := Some new_request\<rparr>)"
    by (simp_all add: waiting_server_def set_conn_def demo_server_def)
  then show ?thesis using unfinished_connection_leaks [OF ok, of 0 7 _ 0 _ _ demo_env]
    by (fastforce simp: demo_conn_def new_connection_def setNonBlocking_def demo_sock_def)
qed

end
