(* ===== verification/Segments.thy ===== *)
theory Segments
  imports HttpRequestSim
begin

text \<open>
  The parser of \<open>http/HttpRequest.cpp\<close> fed by a connection: whatever arrives is appended to the buffer and
  the parser is called again while it asks for more. The result does not depend on where the request
  was cut.
\<close>

section \<open>The parser only takes bytes away\<close>

lemma Retrieve_less:
  assumes "Retrieve k b = Inr b'" and "buf_ok b"
  shows "buf_ok b' \<and> ReadableBytes b' \<le> ReadableBytes b"
proof -
  have "extends b b []" using assms(2) by (simp add: extends_def)
  from extends_Retrieve [OF this assms(1)] have "buf_ok b'" "length (readable b') \<le> length (readable b)"
    by (auto simp: extends_def)
  with assms show ?thesis by simp
qed

lemma parse_body_buffer: "parse_body fs b r = Inr (ret, b', r') \<Longrightarrow> b' = b"
  by (auto simp: parse_body_def rbind_Inr_conv split: if_splits option.splits)

lemma parseRequestLine_shrinks:
  assumes "buf_ok b" and "parseRequestLine b r = Inr (ret, b', r')"
  shows "buf_ok b' \<and> ReadableBytes b' \<le> ReadableBytes b"
  using assms Retrieve_less [OF _ assms(1)]
  by (auto simp: parseRequestLine_def Let_def rbind_Inr_conv split: if_split_asm option.split_asm)

lemma parseRequestContent_shrinks:
  assumes "buf_ok b" and "parseRequestContent fs b r = Inr (ret, b', r')"
  shows "buf_ok b' \<and> ReadableBytes b' \<le> ReadableBytes b"
proof (cases "r_hasTransferEncoding r \<and> r_chunked r")
  case True
  with assms(2) show ?thesis
    using chunks.run_shrinks [OF assms(1) _ order_refl]
    by (auto simp: parseRequestContent_def rbind_Inr_conv split: if_split_asm dest!: parse_body_buffer)
next
  case False
  with assms show ?thesis
    using Retrieve_less [OF _ assms(1)]
    by (auto simp: parseRequestContent_def Let_def rbind_Inr_conv split: if_split_asm option.split_asm
        dest!: parse_body_buffer)
qed

lemma stage_shrinks:
  assumes "buf_ok b" and "stage lookup fs b r = Inr (ret, b', r')"
  shows "buf_ok b' \<and> ReadableBytes b' \<le> ReadableBytes b"
  using assms parseRequestLine_shrinks [OF assms(1)] header.run_shrinks [OF assms(1) _ order_refl]
    parseRequestContent_shrinks [OF assms(1)]
  by (cases "r_state r") (simp_all add: stage_def, blast+)

lemma parse_loop_step:
  assumes "parse_loop lookup fs b r = Inr (b', r')" and "r_retState r' = Some AGAIN_REQUEST"
    and nm: "\<not> (r_hasContentType r' \<and> r_contentType r' = Some MULTIPART)" and "buf_ok b"
  shows "buf_ok b' \<and> ReadableBytes b' \<le> ReadableBytes b \<and>
    (r_state r' = CHECK_REQUESTLINE \<longrightarrow> r_state r = CHECK_REQUESTLINE)"
  using assms(1,2,4)
proof (induction "state_rank (r_state r)" arbitrary: b r rule: less_induct)
  case less
  show ?case
  proof (cases "r_state r = CHECK_DONE")
    case True
    with less.prems show ?thesis by (simp add: parse_loop_done)
  next
    case False
    note eq = parse_loop_stage [OF False]
    obtain ret b1 r1 where p: "stage lookup fs b r = Inr (ret, b1, r1)"
      using less.prems(1) by (auto simp: eq rbind_Inr_conv)
    note b1 = stage_shrinks [OF less.prems(3) p]
    show ?thesis
    proof (cases "ret = OK_REQUEST")
      case True
      let ?r = "r1\<lparr>r_retState := Some OK_REQUEST, r_state := next_state (r_state r)\<rparr>"
      have "parse_loop lookup fs b1 ?r = Inr (b', r')" using True less.prems(1) p by (simp add: eq)
      then have "buf_ok b' \<and> ReadableBytes b' \<le> ReadableBytes b1 \<and>
          (r_state r' = CHECK_REQUESTLINE \<longrightarrow> r_state ?r = CHECK_REQUESTLINE)"
        using less.prems(2) b1 False by (intro less.hyps) (simp_all add: next_state_rank)
      with b1 show ?thesis by (cases "r_state r") auto
    next
      case no: False
      with less.prems(1,2) p have r': "b' = b1" "r' = r1\<lparr>r_retState := Some AGAIN_REQUEST\<rparr>" and ret: "ret = AGAIN_REQUEST"
        by (auto simp: eq)
      have "r_state r1 = CHECK_REQUESTLINE \<Longrightarrow> r_state r = CHECK_REQUESTLINE"
        using stage_state [OF p [unfolded ret] less.prems(3)] nm r' by simp
      with b1 r' show ?thesis by simp
    qed
  qed
qed

section \<open>Feeding the parser\<close>

text \<open>
  A connection's read events: each appends what arrived to the input buffer and calls the parser again
  while it asks for more. \<open>wants_more\<close> says that the parser asks for more after every segment but
  the last, and that no multipart body is being read, whose end test restarts.
\<close>

fun feed ::
  "(string \<Rightarrow> session_ptr option) \<Rightarrow> (string \<Rightarrow> 'j res) \<Rightarrow> string list \<Rightarrow> buffer \<Rightarrow> 'j http_request \<Rightarrow>
   (ret_state \<times> buffer \<times> 'j http_request) res" where
  "feed lookup fs [] b r = parseRequest lookup fs b r"
| "feed lookup fs (w # ws) b r =
     rbind (parseRequest lookup fs b r) (\<lambda>(ret, b', r').
       if ret \<noteq> AGAIN_REQUEST then Inr (ret, b', r')
       else rbind (Append w b') (\<lambda>b1. feed lookup fs ws b1 r'))"

fun wants_more ::
  "(string \<Rightarrow> session_ptr option) \<Rightarrow> (string \<Rightarrow> 'j res) \<Rightarrow> string list \<Rightarrow> buffer \<Rightarrow> 'j http_request \<Rightarrow> bool" where
  "wants_more lookup fs [] b r = True"
| "wants_more lookup fs (w # ws) b r =
     (case parseRequest lookup fs b r of
        Inl e \<Rightarrow> False
      | Inr (ret, b', r') \<Rightarrow>
          ret = AGAIN_REQUEST \<and> \<not> (r_hasContentType r' \<and> r_contentType r' = Some MULTIPART) \<and>
          (case Append w b' of Inl e \<Rightarrow> False | Inr b1 \<Rightarrow> wants_more lookup fs ws b1 r'))"

lemma parseRequest_step:
  assumes "parseRequest lookup fs b r = Inr (AGAIN_REQUEST, b', r')"
    and "\<not> (r_hasContentType r' \<and> r_contentType r' = Some MULTIPART)" and "buf_ok b"
  shows "buf_ok b' \<and> ReadableBytes b' \<le> ReadableBytes b \<and>
    (r_state r' = CHECK_REQUESTLINE \<longrightarrow> r_state r = CHECK_REQUESTLINE)"
  using assms parse_loop_step [of lookup fs b r b' r']
  by (auto simp: parseRequest_def rbind_Inr_conv split: option.splits)

lemma feed_whole:
  assumes "wants_more lookup fs ws b r" and "extends b c (concat ws)"
    and "length (readable c) < 2 ^ 31"
    and "r_state r = CHECK_REQUESTLINE \<longrightarrow> length (readable c) \<le> max_requestLine_len"
  shows "rsim (parseRequest lookup fs c r) (feed lookup fs ws b r)"
  using assms
proof (induction ws arbitrary: b c r)
  case Nil
  then have "bsim c b" by (auto simp: extends_def bsim_def)
  then show ?case by (simp add: parseRequest_bsim)
next
  case (Cons w ws)
  from Cons.prems(1) obtain b' r' where p: "parseRequest lookup fs b r = Inr (AGAIN_REQUEST, b', r')"
    by (cases "parseRequest lookup fs b r") auto
  with Cons.prems(1) obtain b1 where a: "Append w b' = Inr b1"
    by (cases "Append w b'") auto
  with p Cons.prems(1) have nm: "\<not> (r_hasContentType r' \<and> r_contentType r' = Some MULTIPART)"
    and more: "wants_more lookup fs ws b1 r'" by auto
  have "buf_ok b" using Cons.prems(2) by (simp add: extends_def)
  note st = parseRequest_step [OF p nm this]
  let ?c = "full_buffer (readable b' @ w @ concat ws)"
  have ext: "extends b' ?c (concat (w # ws))" using st by (simp add: extends_def)
  have ext1: "extends b1 ?c (concat ws)" using Append_ok [of b' w] a st by (auto simp: extends_def)
  have len: "length (readable ?c) \<le> length (readable c)"
    using Cons.prems(2) st by (simp add: extends_def)
  have "rsim (parseRequest lookup fs c r) (parseRequest lookup fs ?c r')"
    by (rule segmentation_irrelevant [OF p Cons.prems(2) ext Cons.prems(3,4) nm])
  also have "rsim (parseRequest lookup fs ?c r') (feed lookup fs ws b1 r')"
    using len st Cons.prems(3,4) by (intro Cons.IH [OF more ext1]) auto
  finally (rsim_trans) show ?case using p a by simp
qed


definition cut_request :: "string list" where
  "cut_request = [''T /a HTTP/1.1'' @ [CHR 13], [CHR 10] @ ''Ho'', ''st: h'' @ CRLF, CRLF]"


end
