(* ===== verification/Uuid.thy ===== *)
theory Uuid
  imports Prelude "HOL-Library.Word"
begin

text \<open>
  \<open>haha_web/base/uuid.h\<close>: the text of an identifier, from which the sessions are named. The sixteen
  bytes that \<open>uuid_generate\<close> fills in are an argument; the lock makes the thread-safe version one step.
\<close>

section \<open>The text\<close>

definition GUID_LEN :: nat where "GUID_LEN = 64"

definition hex_digits :: string where "hex_digits = ''0123456789ABCDEF''"

definition upper_hex :: "nat \<Rightarrow> char" where
  "upper_hex d = hex_digits ! d"

text \<open>\<open>%02X\<close> of a byte.\<close>

definition hex_byte :: "8 word \<Rightarrow> string" where
  "hex_byte w = [upper_hex (unat w div 16), upper_hex (unat w mod 16)]"

text \<open>\<open>sprintf\<close> to an index of the array: the text and a NUL behind it.\<close>

definition sprintf_at :: "nat \<Rightarrow> string \<Rightarrow> string \<Rightarrow> string res" where
  "sprintf_at index s buf =
     (if index + length s < length buf
      then Inr (take index buf @ s @ NUL # drop (index + length s + 1) buf)
      else Inl Undefined)"

text \<open>The loop over \<open>i\<close>; \<open>index\<close> is where the next pair goes. Reading beyond the sixteen bytes is undefined.\<close>

function generate_loop :: "8 word list \<Rightarrow> nat \<Rightarrow> nat \<Rightarrow> string \<Rightarrow> string res" where
  "generate_loop uu i index buf =
     (if i < 16
      then if i < length uu
           then let s = (if i < 15 then hex_byte (uu ! i) @ ''-'' else hex_byte (uu ! i))
                in rbind (sprintf_at index s buf) (generate_loop uu (i + 1) (index + length s))
           else Inl Undefined
      else Inr buf)"
  by pat_completeness auto
termination by (relation "measure (\<lambda>(uu, i, index, buf). 16 - i)") auto

declare generate_loop.simps [simp del]

definition generate :: "8 word list \<Rightarrow> string res" where
  "generate uu =
     rbind (generate_loop uu 0 0 (replicate GUID_LEN NUL)) (\<lambda>buf. Inr (takeWhile (\<lambda>c. c \<noteq> NUL) buf))"

section \<open>What the text is\<close>

text \<open>The pairs of digits with dashes between them.\<close>

fun dashed :: "8 word list \<Rightarrow> string" where
  "dashed [] = []"
| "dashed [w] = hex_byte w"
| "dashed (w # ws) = hex_byte w @ ''-'' @ dashed ws"

text \<open>The array after some bytes: their pairs, each with its dash, then only NULs.\<close>

definition pairs :: "8 word list \<Rightarrow> string" where
  "pairs ws = concat (map (\<lambda>w. hex_byte w @ ''-'') ws)"

lemma length_hex_byte [simp]: "length (hex_byte w) = 2"
  by (simp add: hex_byte_def)

lemma length_pairs [simp]: "length (pairs ws) = 3 * length ws"
  by (induction ws) (simp_all add: pairs_def)

lemma pairs_snoc: "pairs (ws @ [w]) = pairs ws @ hex_byte w @ ''-''"
  by (simp add: pairs_def)

lemma dashed_snoc: "dashed (ws @ [w]) = pairs ws @ hex_byte w"
  by (induction ws rule: dashed.induct) (simp_all add: pairs_def)

lemma sprintf_nuls:
  assumes "length t + length s < n"
  shows "sprintf_at (length t) s (t @ replicate (n - length t) NUL) =
    Inr ((t @ s) @ replicate (n - length (t @ s)) NUL)"
proof -
  have "NUL # replicate (n - length t - (length s + 1)) NUL = replicate (n - length (t @ s)) NUL"
    using assms by (metis Suc_diff_Suc add.commute add_Suc diff_diff_left length_append plus_1_eq_Suc replicate_Suc)
  with assms show ?thesis by (simp add: sprintf_at_def)
qed

lemma generate_loop_pairs:
  assumes "length uu = 16" and "i \<le> 15"
  shows "generate_loop uu i (3 * i) (pairs (take i uu) @ replicate (GUID_LEN - 3 * i) NUL) =
    Inr (dashed uu @ replicate (GUID_LEN - 47) NUL)"
  using assms(2)
proof (induction "15 - i" arbitrary: i)
  case 0
  then have i: "i = 15" by simp
  have uu: "uu = take 15 uu @ [uu ! 15]"
    using assms(1) take_Suc_conv_app_nth [of 15 uu] by simp
  have "sprintf_at (length (pairs (take 15 uu))) (hex_byte (uu ! 15))
      (pairs (take 15 uu) @ replicate (64 - length (pairs (take 15 uu))) NUL) =
      Inr ((pairs (take 15 uu) @ hex_byte (uu ! 15)) @
        replicate (64 - length (pairs (take 15 uu) @ hex_byte (uu ! 15))) NUL)"
    by (rule sprintf_nuls) (simp add: assms(1))
  then have "sprintf_at 45 (hex_byte (uu ! 15)) (pairs (take 15 uu) @ replicate 19 NUL) =
      Inr (dashed uu @ replicate 17 NUL)"
    using uu dashed_snoc [of "take 15 uu" "uu ! 15"] by (simp add: assms(1))
  then show ?case
    unfolding i by (simp add: generate_loop.simps [of uu 15] generate_loop.simps [of uu 16] assms(1) GUID_LEN_def)
next
  case (Suc d)
  then have i: "i < 15" by simp
  have "pairs (take (Suc i) uu) = pairs (take i uu) @ hex_byte (uu ! i) @ ''-''"
    using i assms(1) by (simp add: take_Suc_conv_app_nth pairs_snoc)
  moreover have "sprintf_at (length (pairs (take i uu))) (hex_byte (uu ! i) @ ''-'')
      (pairs (take i uu) @ replicate (64 - length (pairs (take i uu))) NUL) =
      Inr ((pairs (take i uu) @ hex_byte (uu ! i) @ ''-'') @
        replicate (64 - length (pairs (take i uu) @ hex_byte (uu ! i) @ ''-'')) NUL)"
    by (rule sprintf_nuls) (use i assms(1) in simp)
  ultimately have s: "sprintf_at (3 * i) (hex_byte (uu ! i) @ ''-'') (pairs (take i uu) @ replicate (64 - 3 * i) NUL) =
      Inr (pairs (take (Suc i) uu) @ replicate (64 - 3 * Suc i) NUL)"
    using i assms(1) by simp
  have "generate_loop uu (i + 1) (3 * i + 3) (pairs (take (Suc i) uu) @ replicate (64 - 3 * Suc i) NUL) =
      Inr (dashed uu @ replicate (GUID_LEN - 47) NUL)"
    using Suc(1) [of "Suc i"] Suc(2) i by (simp add: GUID_LEN_def add.commute)
  with s i assms(1) show ?case
    by (subst generate_loop.simps) (simp add: GUID_LEN_def)
qed

lemma unat_byte: "unat (w :: 8 word) < 256"
  by (rule order_less_le_trans [OF unsigned_less]) simp

lemma hex_digits_facts [simp]: "length hex_digits = 16" "distinct hex_digits" "NUL \<notin> set hex_digits"
  by (simp_all add: hex_digits_def)

lemma upper_hex_digit: "d < 16 \<Longrightarrow> upper_hex d \<in> set hex_digits"
  unfolding upper_hex_def by (rule nth_mem) simp

lemma upper_hex_inj: "d < 16 \<Longrightarrow> e < 16 \<Longrightarrow> upper_hex d = upper_hex e \<longleftrightarrow> d = e"
  unfolding upper_hex_def by (rule nth_eq_iff_index_eq) simp_all

lemma hex_byte_inj: "hex_byte v = hex_byte w \<longleftrightarrow> v = w"
proof
  assume "hex_byte v = hex_byte w"
  moreover have "unat v < 256" "unat w < 256" by (rule unat_byte)+
  ultimately have "unat v div 16 = unat w div 16" "unat v mod 16 = unat w mod 16"
    by (simp_all add: hex_byte_def upper_hex_inj)
  then have "unat v = unat w" by (metis div_mult_mod_eq)
  then show "v = w" by (simp add: word_unat_eq_iff)
qed simp

lemma dashed_inj: "length vs = length ws \<Longrightarrow> dashed vs = dashed ws \<Longrightarrow> vs = ws"
proof (induction vs arbitrary: ws rule: dashed.induct)
  case (3 v v' vs)
  then obtain w w' us where ws: "ws = w # w' # us" by (metis length_Suc_conv)
  from 3(3) have "hex_byte v @ ''-'' @ dashed (v' # vs) = hex_byte w @ ''-'' @ dashed (w' # us)"
    by (simp add: ws)
  then have "hex_byte v = hex_byte w" "dashed (v' # vs) = dashed (w' # us)"
    by (simp_all add: append_eq_append_conv)
  then show ?case using 3(1) [of "w' # us"] 3(2) by (simp add: ws hex_byte_inj)
next
  case (2 v)
  then obtain w where "ws = [w]" by (metis length_0_conv length_Suc_conv)
  with 2 show ?case by (simp add: hex_byte_inj)
qed simp

lemma hex_byte_digits: "set (hex_byte w) \<subseteq> set hex_digits"
  using upper_hex_digit [of "unat w div 16"] upper_hex_digit [of "unat w mod 16"] unat_byte [of w]
  by (simp add: hex_byte_def)

lemma dashed_digits: "set (dashed ws) \<subseteq> insert (CHR ''-'') (set hex_digits)"
  using hex_byte_digits by (induction ws rule: dashed.induct) (auto dest: subsetD)

lemma length_dashed: "ws \<noteq> [] \<Longrightarrow> length (dashed ws) = 3 * length ws - 1"
  by (induction ws rule: dashed.induct) simp_all

lemma generate_dashed: "length uu = 16 \<Longrightarrow> generate uu = Inr (dashed uu)"
proof -
  assume uu: "length uu = 16"
  have "generate_loop uu 0 0 (replicate GUID_LEN NUL) = Inr (dashed uu @ replicate (GUID_LEN - 47) NUL)"
    using generate_loop_pairs [OF uu, of 0] by (simp add: pairs_def)
  moreover have "\<forall>c \<in> set (dashed uu). c \<noteq> NUL" using dashed_digits [of uu] by auto
  ultimately show ?thesis
    by (simp add: generate_def takeWhile_append2 takeWhile_replicate)
qed

text \<open>C31: the text of an identifier stays inside its array of 64 bytes, has 47 characters, digits and
  dashes only, and different identifiers have different texts.\<close>

theorem uuid_text_exact:
  assumes "length uu = 16"
  shows "\<exists>s. generate uu = Inr s \<and> length s = 47 \<and> set s \<subseteq> insert (CHR ''-'') (set hex_digits) \<and>
    (\<forall>vv. length vv = 16 \<and> generate vv = Inr s \<longrightarrow> vv = uu)"
proof (intro exI conjI)
  show "generate uu = Inr (dashed uu)" using assms by (rule generate_dashed)
  show "length (dashed uu) = 47" using assms length_dashed [of uu] by fastforce
  show "set (dashed uu) \<subseteq> insert (CHR ''-'') (set hex_digits)" by (rule dashed_digits)
  show "\<forall>vv. length vv = 16 \<and> generate vv = Inr (dashed uu) \<longrightarrow> vv = uu"
    using assms by (auto simp: generate_dashed intro: dashed_inj)
qed

theorem uuid_text_exact_witness:
  "\<exists>s. generate (replicate 15 0 @ [171]) = Inr s \<and> length s = 47 \<and> set s \<subseteq> insert (CHR ''-'') (set hex_digits)"
  using uuid_text_exact [of "replicate 15 0 @ [171]"] by auto

end
