(* ===== verification/Files.thy ===== *)
theory Files
  imports Prelude
begin

text \<open>
  \<open>haha_web/base/FileUtil.{h,cpp}\<close> without the sending streams (theory \<open>NetSocket\<close>): reading a small
  file, and the class \<open>File\<close> with the descriptors it opens and closes.
\<close>

section \<open>Reading a small file\<close>

text \<open>
  What \<open>fstat\<close> and \<open>read\<close> answer. A read of a regular file gives at least one byte unless the end is
  reached, and at most what is asked for: \<open>Upto k\<close> gives \<open>k\<close> bytes when so many are asked for and
  left; when the answers run out reads are complete.
\<close>

datatype file_kind = Regular | Directory | Other_kind

record file_stat =
  st_kind :: file_kind
  st_size :: int
  st_mtime :: int
  st_ctime :: int

datatype file_read = Upto nat | Read_fails int

record file_source =
  src_fd :: int
  src_errno :: int
  src_stat :: "int + file_stat"
  src_data :: string
  src_reads :: "file_read list"

record small_file =
  smf_fd :: int
  smf_err :: int

definition kBufferSize :: nat where "kBufferSize = 64 * 1024"

definition EISDIR :: int where "EISDIR = 21"

definition new_small_file :: "file_source \<Rightarrow> small_file" where
  "new_small_file f = \<lparr>smf_fd = src_fd f, smf_err = (if src_fd f < 0 then src_errno f else 0)\<rparr>"

definition next_read :: "file_read list \<Rightarrow> nat \<Rightarrow> nat \<Rightarrow> int + nat" where
  "next_read reads toRead left =
     (case reads of
        [] \<Rightarrow> Inr (min left toRead)
      | r # _ \<Rightarrow>
          (case r of
             Upto k \<Rightarrow> Inr (min left (min toRead (max 1 k)))
           | Read_fails e \<Rightarrow> Inl e))"

lemma next_read_bound: "next_read reads toRead left = Inr n \<Longrightarrow> n \<le> left \<and> n \<le> toRead"
  by (auto simp: next_read_def split: list.splits file_read.splits)

text \<open>
  The loop of \<open>readToString\<close>: the bytes still in the file, the content so far and the error. A
  negative \<open>maxSize\<close> is converted to a huge size.
\<close>

definition size_of_int :: "int \<Rightarrow> nat" where
  "size_of_int i = nat (i mod 2 ^ 64)"

function read_loop :: "nat \<Rightarrow> file_read list \<Rightarrow> string \<Rightarrow> string \<Rightarrow> int \<Rightarrow> string \<times> int" where
  "read_loop maxSize reads rest content err =
     (if length content < maxSize
      then case next_read reads (min (maxSize - length content) kBufferSize) (length rest) of
             Inl e \<Rightarrow> (content, e)
           | Inr n \<Rightarrow>
               if n > 0 then read_loop maxSize (tl reads) (drop n rest) (content @ take n rest) err
               else (content, err)
      else (content, err))"
  by pat_completeness auto
termination
  by (relation "measure (\<lambda>(m, rs, rest, c, e). length rest)") (auto dest: next_read_bound)

declare read_loop.simps [simp del]

text \<open>
  The whole of \<open>readToString\<close>: the error, the content (unchanged when the file is not open), and the
  size and times when they are asked for.
\<close>

record read_result =
  rr_err :: int
  rr_content :: string
  rr_size :: "int option"
  rr_mtime :: "int option"
  rr_ctime :: "int option"

definition readToString ::
  "int \<Rightarrow> string \<Rightarrow> bool \<Rightarrow> bool \<Rightarrow> bool \<Rightarrow> file_source \<Rightarrow> small_file \<Rightarrow> read_result" where
  "readToString maxSize content wantSize wantMtime wantCtime src f =
     (let r = \<lparr>rr_err = smf_err f, rr_content = content, rr_size = None, rr_mtime = None, rr_ctime = None\<rparr>
      in if smf_fd f < 0 then r
         else let r = r\<lparr>rr_content := []\<rparr>;
                  r = (if wantSize
                       then case src_stat src of
                              Inl e \<Rightarrow> r\<lparr>rr_err := e\<rparr>
                            | Inr st \<Rightarrow>
                                let r = (case st_kind st of
                                           Regular \<Rightarrow> r\<lparr>rr_size := Some (st_size st)\<rparr>
                                         | Directory \<Rightarrow> r\<lparr>rr_err := EISDIR\<rparr>
                                         | Other_kind \<Rightarrow> r)
                                in r\<lparr>rr_mtime := (if wantMtime then Some (st_mtime st) else None),
                                     rr_ctime := (if wantCtime then Some (st_ctime st) else None)\<rparr>
                       else r);
                  (content, err) = read_loop (size_of_int maxSize) (src_reads src) (src_data src) [] (rr_err r)
              in r\<lparr>rr_content := content, rr_err := err\<rparr>)"

text \<open>\<open>readToBuffer\<close>: the error, the length when it is asked for and the bytes of the buffer up to the NUL.\<close>

definition readToBuffer :: "bool \<Rightarrow> file_source \<Rightarrow> small_file \<Rightarrow> int \<times> int option \<times> string" where
  "readToBuffer wantSize src f =
     (if smf_fd f < 0 then (smf_err f, None, [NUL])
      else case next_read (src_reads src) (kBufferSize - 1) (length (src_data src)) of
             Inl e \<Rightarrow> (e, None, [NUL])
           | Inr n \<Rightarrow> (smf_err f, if wantSize then Some (int n) else None, take n (src_data src) @ [NUL]))"

definition readSmallFile ::
  "int \<Rightarrow> string \<Rightarrow> bool \<Rightarrow> bool \<Rightarrow> bool \<Rightarrow> file_source \<Rightarrow> read_result" where
  "readSmallFile maxSize content wantSize wantMtime wantCtime src =
     readToString maxSize content wantSize wantMtime wantCtime src (new_small_file src)"

text \<open>Without failing reads the loop collects the file up to the limit, however the reads are cut.\<close>

definition reads_ok :: "file_read list \<Rightarrow> bool" where
  "reads_ok rs \<longleftrightarrow> (\<forall>r \<in> set rs. \<exists>k. r = Upto k)"

lemma next_read_ok:
  assumes "reads_ok rs"
  obtains n where "next_read rs toRead left = Inr n" and "0 < toRead \<Longrightarrow> 0 < left \<Longrightarrow> 0 < n"
    and "n \<le> left" and "n \<le> toRead"
  using assms by (cases rs) (auto simp: next_read_def reads_ok_def)

lemma read_loop_all:
  "reads_ok rs \<Longrightarrow> read_loop m rs rest content err = (content @ take (m - length content) rest, err)"
proof (induction "length rest" arbitrary: rs rest content rule: less_induct)
  case less
  let ?toRead = "min (m - length content) kBufferSize"
  obtain n where n: "next_read rs ?toRead (length rest) = Inr n" "0 < ?toRead \<Longrightarrow> 0 < length rest \<Longrightarrow> 0 < n"
      "n \<le> length rest" "n \<le> ?toRead"
    using next_read_ok [OF less(2), of ?toRead "length rest"] by metis
  show ?case
  proof (cases "length content < m \<and> rest \<noteq> []")
    case True
    then have pos: "0 < n" using n(2) by (simp add: kBufferSize_def)
    have "reads_ok (tl rs)" using less(2) by (cases rs) (simp_all add: reads_ok_def)
    then have "read_loop m (tl rs) (drop n rest) (content @ take n rest) err =
        ((content @ take n rest) @ take (m - length (content @ take n rest)) (drop n rest), err)"
      using pos n(3) by (intro less(1)) auto
    moreover have "take n rest @ take (m - (length content + n)) (drop n rest) = take (m - length content) rest"
    proof -
      have "n + (m - (length content + n)) = m - length content" using n(4) True by auto
      then show ?thesis using take_add [of n "m - (length content + n)" rest] by simp
    qed
    ultimately show ?thesis using True pos n by (subst read_loop.simps) simp
  next
    case False
    then show ?thesis using n by (subst read_loop.simps) auto
  qed
qed

text \<open>C30: reading a small file returns, with no error and exactly the first \<open>maxSize\<close> bytes of the
  file, however the kernel cuts the reads; what the string held before is gone.\<close>

theorem small_file_read:
  assumes "0 \<le> src_fd src" and "src_stat src = Inr st" and "st_kind st = Regular" and "reads_ok (src_reads src)"
    and "0 \<le> maxSize" and "maxSize < 2 ^ 31"
  shows "readSmallFile maxSize content wantSize m c src =
    \<lparr>rr_err = 0, rr_content = take (nat maxSize) (src_data src),
     rr_size = (if wantSize then Some (st_size st) else None),
     rr_mtime = (if wantSize \<and> m then Some (st_mtime st) else None),
     rr_ctime = (if wantSize \<and> c then Some (st_ctime st) else None)\<rparr>"
proof -
  have "size_of_int maxSize = nat maxSize" using assms(5,6) by (simp add: size_of_int_def)
  with assms show ?thesis
    by (simp add: readSmallFile_def readToString_def new_small_file_def read_loop_all Let_def)
qed

theorem small_file_read_witness:
  "readSmallFile 5 ''old'' True True False \<lparr>src_fd = 3, src_errno = 0,
      src_stat = Inr \<lparr>st_kind = Regular, st_size = 11, st_mtime = 7, st_ctime = 8\<rparr>,
      src_data = ''hello world'', src_reads = [Upto 2, Upto 0]\<rparr> =
    \<lparr>rr_err = 0, rr_content = ''hello'', rr_size = Some 11, rr_mtime = Some 7, rr_ctime = None\<rparr>"
  by (subst small_file_read [where st = "\<lparr>st_kind = Regular, st_size = 11, st_mtime = 7, st_ctime = 8\<rparr>"])
     (simp_all add: reads_ok_def)

text \<open>A directory is reported by its own error and read nevertheless; the error of the read replaces it.\<close>

lemma directory_read:
  "readSmallFile 100 ''old'' True False False \<lparr>src_fd = 3, src_errno = 0,
      src_stat = Inr \<lparr>st_kind = Directory, st_size = 4096, st_mtime = 7, st_ctime = 8\<rparr>,
      src_data = [], src_reads = [Read_fails 5]\<rparr> =
    \<lparr>rr_err = 5, rr_content = [], rr_size = None, rr_mtime = None, rr_ctime = None\<rparr>"
  by (simp add: readSmallFile_def readToString_def new_small_file_def Let_def size_of_int_def read_loop.simps
      next_read_def)

section \<open>The class File\<close>

text \<open>
  The kernel knows the open descriptors of the process; its next calls of \<open>open\<close> answer a descriptor or
  nothing (-1), and when the answers run out they fail. Flags are the constants the calls pass.
\<close>

datatype open_state = File_SUCCESS | File_FAIL
datatype open_mod = READ_ONLY | WRITE_ONLY | WRITE_APPEND | READ_WRITE

record descriptors =
  fds_open :: "int list"
  fds_next :: "nat option list"

record file_object =
  fo_path :: string
  fo_fd :: int
  fo_size :: nat
  isOpen :: bool
  isClose :: bool

text \<open>\<open>file_size\<close> throws when there is no such file.\<close>

definition new_file :: "(string \<Rightarrow> nat option) \<Rightarrow> string \<Rightarrow> file_object res" where
  "new_file fsize path =
     (case fsize path of
        None \<Rightarrow> Inl (Raised (Logic_error ''filesystem_error''))
      | Some n \<Rightarrow> Inr \<lparr>fo_path = path, fo_fd = -1, fo_size = n, isOpen = False, isClose = True\<rparr>)"

definition sys_open :: "descriptors \<Rightarrow> int \<times> descriptors" where
  "sys_open k =
     (case fds_next k of
        Some fd # as \<Rightarrow> (int fd, k\<lparr>fds_open := int fd # fds_open k, fds_next := as\<rparr>)
      | as \<Rightarrow> (-1, k\<lparr>fds_next := tl as\<rparr>))"

definition sys_close :: "int \<Rightarrow> descriptors \<Rightarrow> descriptors" where
  "sys_close fd k = k\<lparr>fds_open := remove1 fd (fds_open k)\<rparr>"

text \<open>The cases of \<open>open\<close> for writing have no \<open>break\<close>.\<close>

definition file_open :: "open_mod \<Rightarrow> file_object \<Rightarrow> descriptors \<Rightarrow> open_state \<times> file_object \<times> descriptors" where
  "file_open md f k =
     (if isOpen f then (File_SUCCESS, f, k)
      else case md of
             READ_ONLY \<Rightarrow>
               (let (fd, k) = sys_open k; f = f\<lparr>fo_fd := fd\<rparr>
                in if fo_fd f = -1 then (File_FAIL, f, k)
                   else (File_SUCCESS, f\<lparr>isOpen := True, isClose := False\<rparr>, k))
           | WRITE_ONLY \<Rightarrow>
               (let (fd, k) = sys_open k; f = f\<lparr>fo_fd := fd\<rparr>; (fd, k) = sys_open k; f = f\<lparr>fo_fd := fd\<rparr>
                in (File_FAIL, f, k))
           | WRITE_APPEND \<Rightarrow>
               (let (fd, k) = sys_open k; f = f\<lparr>fo_fd := fd\<rparr> in (File_FAIL, f, k))
           | READ_WRITE \<Rightarrow> (File_FAIL, f, k))"

definition file_close :: "file_object \<Rightarrow> descriptors \<Rightarrow> file_object \<times> descriptors" where
  "file_close f k =
     (f\<lparr>isOpen := False, isClose := True\<rparr>, if isOpen f then sys_close (fo_fd f) k else k)"

text \<open>Any use of one object, and its end.\<close>

datatype file_op = Op_open open_mod | Op_close

fun file_run :: "file_op list \<Rightarrow> file_object \<Rightarrow> descriptors \<Rightarrow> file_object \<times> descriptors" where
  "file_run [] f k = file_close f k"
| "file_run (Op_open md # ops) f k = (let (_, f, k) = file_open md f k in file_run ops f k)"
| "file_run (Op_close # ops) f k = (let (f, k) = file_close f k in file_run ops f k)"

text \<open>The descriptors opened by operations for writing, newest first.\<close>

definition fo_ok :: "int list \<Rightarrow> file_object \<Rightarrow> descriptors \<Rightarrow> bool" where
  "fo_ok base f k \<longleftrightarrow>
     isClose f = (\<not> isOpen f) \<and> fds_open k = (if isOpen f then fo_fd f # base else base)"

definition for_writing :: "open_mod \<Rightarrow> bool" where
  "for_writing md \<longleftrightarrow> md = WRITE_ONLY \<or> md = WRITE_APPEND"

lemma fo_ok_open:
  assumes "fo_ok base f k" and "\<not> for_writing md"
  shows "fo_ok base (fst (snd (file_open md f k))) (snd (snd (file_open md f k)))"
  using assms
  by (cases md; cases "fds_next k" rule: list.exhaust; cases "hd (fds_next k)")
     (auto simp: file_open_def fo_ok_def sys_open_def for_writing_def Let_def)

lemma fo_ok_close:
  "fo_ok base f k \<Longrightarrow> fo_ok base (fst (file_close f k)) (snd (file_close f k))"
  by (simp add: fo_ok_def file_close_def sys_close_def)

lemma file_run_ok:
  "fo_ok base f k \<Longrightarrow> list_all (\<lambda>op. \<forall>md. op = Op_open md \<longrightarrow> \<not> for_writing md) ops \<Longrightarrow>
   fds_open (snd (file_run ops f k)) = base"
proof (induction ops f k rule: file_run.induct)
  case (1 f k)
  then show ?case by (simp add: fo_ok_def file_close_def sys_close_def)
next
  case (2 md ops f k)
  obtain st f' k' where e: "file_open md f k = (st, f', k')" by (metis prod_cases3)
  from 2(2) have "fo_ok base (fst (snd (file_open md f k))) (snd (snd (file_open md f k)))"
    by (rule fo_ok_open) (use 2(3) in simp)
  with 2(1) [of "(st, f', k')" st "(f', k')" f' k'] 2(3) e show ?case by simp
next
  case (3 ops f k)
  with fo_ok_close [OF 3(2)] show ?case by (simp add: case_prod_beta)
qed

text \<open>A file that is only opened for reading gives back, when it is destroyed, every descriptor it
  has opened, whatever the order of its operations and whichever of its opens fail.\<close>

theorem file_returns_descriptors:
  assumes "new_file fsize path = Inr f" and "Op_open WRITE_ONLY \<notin> set ops" and "Op_open WRITE_APPEND \<notin> set ops"
  shows "fds_open (snd (file_run ops f k)) = fds_open k"
proof (rule file_run_ok)
  show "fo_ok (fds_open k) f k"
    using assms(1) by (auto simp: new_file_def fo_ok_def split: option.splits)
  show "list_all (\<lambda>op. \<forall>md. op = Op_open md \<longrightarrow> \<not> for_writing md) ops"
    using assms(2,3) by (auto simp: list_all_iff for_writing_def)
qed

theorem file_returns_descriptors_witness:
  "fds_open (snd (file_run [Op_open READ_ONLY, Op_open READ_WRITE, Op_close, Op_open READ_ONLY]
      \<lparr>fo_path = ''f'', fo_fd = -1, fo_size = 3, isOpen = False, isClose = True\<rparr>
      \<lparr>fds_open = [0, 1, 2], fds_next = [Some 3, None]\<rparr>)) = [0, 1, 2]"
  by (subst file_returns_descriptors [where fsize = "\<lambda>_. Some 3" and path = "''f''"])
     (simp_all add: new_file_def)

text \<open>
  An open for writing answers \<open>FAIL\<close> although the file has been opened, and what it has opened stays
  open: twice as many descriptors for \<open>WRITE_ONLY\<close>, which goes on into the next case.
\<close>

lemma write_open_leaks:
  assumes "\<not> isOpen f" and "fds_next k = Some a # Some b # as"
  shows "fst (file_open WRITE_ONLY f k) = File_FAIL \<and>
    fds_open (snd (file_run [Op_open WRITE_ONLY] f k)) = int b # int a # fds_open k"
  using assms by (simp add: file_open_def sys_open_def file_close_def Let_def)

lemma append_open_leaks:
  assumes "\<not> isOpen f" and "fds_next k = Some a # as"
  shows "fst (file_open WRITE_APPEND f k) = File_FAIL \<and>
    fds_open (snd (file_run [Op_open WRITE_APPEND] f k)) = int a # fds_open k"
  using assms by (simp add: file_open_def sys_open_def file_close_def)

section \<open>Memory mappings\<close>

text \<open>\<open>fstat\<close> answers a size or leaves the structure unset; \<open>mmap\<close> answers the bytes or fails.\<close>

record mmap_object =
  mm_addr :: "string option"
  mm_size :: nat

definition new_mmap :: "nat option \<Rightarrow> (nat \<Rightarrow> string option) \<Rightarrow> mmap_object res" where
  "new_mmap fstat mmap =
     (case fstat of
        None \<Rightarrow> Inl Undefined
      | Some n \<Rightarrow> Inr (case mmap n of
                        None \<Rightarrow> \<lparr>mm_addr = None, mm_size = 0\<rparr>
                      | Some bytes \<Rightarrow> \<lparr>mm_addr = Some bytes, mm_size = n\<rparr>))"

text \<open>
  \<open>FileSSLSendStream::send\<close>: its constructors never set \<open>ssl_\<close>, so the first call of \<open>SSL_write\<close>
  reads an indeterminate pointer; they always make a mapping, so there is such a call.
\<close>

definition ssl_stream_send :: "mmap_object option \<Rightarrow> (int \<times> int) res" where
  "ssl_stream_send mmap = (case mmap of Some m \<Rightarrow> Inl Undefined | None \<Rightarrow> Inr (0, 0))"

end
