(* ===== verification/ProcInfo.thy ===== *)
theory ProcInfo
  imports Files
begin

text \<open>
  \<open>haha_web/base/ProcessInfo.{h,cpp}\<close>: what the process finds out about itself. The answers of the
  system calls, the files under \<open>/proc\<close> and the names in its directories are arguments.
\<close>

section \<open>Numbers in text\<close>

text \<open>\<open>atoi\<close> of the C library: \<open>strtol\<close>, which stops at the limits of \<open>long\<close>, reduced to \<open>int\<close>.\<close>

definition proc_int32 :: "int \<Rightarrow> int" where
  "proc_int32 v = (v + 2 ^ 31) mod 2 ^ 32 - 2 ^ 31"

definition atoi :: "string \<Rightarrow> int" where
  "atoi s =
     (let (neg, r) = strip_sign (dropWhile isspace s);
          n = int (digits_val (takeWhile isdigit r))
      in proc_int32 (if neg then max (- (2 ^ 63)) (- n) else min (2 ^ 63 - 1) n))"

definition pidString :: "int \<Rightarrow> string" where
  "pidString pid = take 31 (int_to_string pid)"

section \<open>Names\<close>

text \<open>The answer of \<open>getpwuid_r\<close>, \<open>gethostname\<close> and \<open>readlink\<close>.\<close>

definition username :: "string option \<Rightarrow> string" where
  "username pw = (case pw of Some name \<Rightarrow> name | None \<Rightarrow> ''unknownuser'')"

definition hostname :: "string option \<Rightarrow> string" where
  "hostname h = (case h of Some name \<Rightarrow> take 255 (takeWhile (\<lambda>c. c \<noteq> NUL) name) | None \<Rightarrow> ''unknownhost'')"

definition exePath :: "string option \<Rightarrow> string" where
  "exePath link = (case link of Some s \<Rightarrow> take 1024 s | None \<Rightarrow> [])"

definition rfind_char :: "char \<Rightarrow> string \<Rightarrow> nat option" where
  "rfind_char c s = map_option (\<lambda>k. length s - 1 - k) (find_char (\<lambda>d. d = c) (rev s))"

definition procname :: "string \<Rightarrow> string" where
  "procname stat =
     (case (find_char (\<lambda>c. c = CHR ''('') stat, rfind_char (CHR '')'') stat) of
        (Some lp, Some rp) \<Rightarrow> if lp < rp then substr (lp + 1) (rp - lp - 1) stat else []
      | _ \<Rightarrow> [])"

section \<open>The files under /proc\<close>

definition read_proc :: "(string \<Rightarrow> file_source) \<Rightarrow> string \<Rightarrow> string" where
  "read_proc proc path = rr_content (readSmallFile 65536 [] False False False (proc path))"

definition procStatus :: "(string \<Rightarrow> file_source) \<Rightarrow> string" where
  "procStatus proc = read_proc proc ''/proc/self/status''"

definition procStat :: "(string \<Rightarrow> file_source) \<Rightarrow> string" where
  "procStat proc = read_proc proc ''/proc/self/stat''"

text \<open>The number in the path is the \<open>pthread_t\<close> of the thread cut to 32 bits.\<close>

definition threadStat :: "int \<Rightarrow> (string \<Rightarrow> file_source) \<Rightarrow> string" where
  "threadStat self proc =
     read_proc proc (take 63 (''/proc/self/task/'' @ int_to_string (proc_int32 self) @ ''/stat''))"

definition own_procname :: "(string \<Rightarrow> file_source) \<Rightarrow> string" where
  "own_procname proc = procname (procStat proc)"

definition numThreads :: "(string \<Rightarrow> file_source) \<Rightarrow> int" where
  "numThreads proc =
     (let status = procStatus proc
      in case find_sub ''Threads:'' status of
           None \<Rightarrow> 0
         | Some pos \<Rightarrow> atoi (drop (pos + 8) status))"

section \<open>Directories\<close>

text \<open>
  \<open>scandir\<close> calls the filter for every name; both filters keep nothing, so the list stays null and
  the assertion of \<open>scanDir\<close> holds. A directory that cannot be opened calls no filter.
\<close>

definition starts_with_digit :: "string \<Rightarrow> bool" where
  "starts_with_digit name \<longleftrightarrow> name \<noteq> [] \<and> isdigit (hd name)"

definition fdDirFilter :: "string \<Rightarrow> int \<Rightarrow> int" where
  "fdDirFilter name opened = (if starts_with_digit name then opened + 1 else opened)"

definition taskDirFilter :: "string \<Rightarrow> int list \<Rightarrow> int list" where
  "taskDirFilter name pids = (if starts_with_digit name then pids @ [atoi name] else pids)"

definition scanDir :: "(string \<Rightarrow> 'a \<Rightarrow> 'a) \<Rightarrow> string list option \<Rightarrow> 'a \<Rightarrow> 'a" where
  "scanDir keep dir st = (case dir of None \<Rightarrow> st | Some names \<Rightarrow> fold keep names st)"

definition openedFiles :: "string list option \<Rightarrow> int" where
  "openedFiles dir = scanDir fdDirFilter dir 0"

definition maxOpenFiles :: "int option \<Rightarrow> string list option \<Rightarrow> int" where
  "maxOpenFiles rlim dir = (case rlim of None \<Rightarrow> openedFiles dir | Some cur \<Rightarrow> proc_int32 cur)"

definition threads :: "string list option \<Rightarrow> int list" where
  "threads dir = sort (scanDir taskDirFilter dir [])"

section \<open>What the functions give\<close>

lemma find_char_skip: "c \<notin> set a \<Longrightarrow> find_char (\<lambda>d. d = c) (a @ c # b) = Some (length a)"
  by (induction a) auto

lemma rfind_char_skip: "c \<notin> set b \<Longrightarrow> rfind_char c (a @ c # b) = Some (length a)"
  using find_char_skip [of c "rev b" "rev a"] by (simp add: rfind_char_def)

text \<open>The name of the process is what stands between the first opening and the last closing
  parenthesis of its \<open>stat\<close> line, also when the name has parentheses of its own.\<close>

theorem procname_exact:
  assumes "CHR ''('' \<notin> set pid" and "CHR '')'' \<notin> set rest"
  shows "procname (pid @ ''('' @ name @ '')'' @ rest) = name"
proof -
  have "find_char (\<lambda>c. c = CHR ''('') (pid @ ''('' @ name @ '')'' @ rest) = Some (length pid)"
    using find_char_skip [OF assms(1)] by simp
  moreover have "rfind_char (CHR '')'') (pid @ ''('' @ name @ '')'' @ rest) = Some (length pid + 1 + length name)"
    using rfind_char_skip [OF assms(2), of "pid @ ''('' @ name"] by simp
  ultimately show ?thesis by (simp add: procname_def substr_def)
qed

theorem procname_exact_witness: "procname ''42 (web) server) S 1'' = ''web) server''"
  using procname_exact [of "''42 ''" "'' S 1''" "''web) server''"] by simp

lemma atoi_nat_to_string:
  assumes "n < 2 ^ 31" and "r = [] \<or> \<not> isdigit (hd r)"
  shows "atoi (nat_to_string n @ r) = int n"
proof -
  have h: "isdigit (hd (nat_to_string n @ r))"
    using nat_to_string_digits [of "hd (nat_to_string n)" n] by simp
  have t: "takeWhile isdigit (nat_to_string n @ r) = nat_to_string n"
    using assms(2) nat_to_string_digits by (cases r) (auto simp: takeWhile_append)
  have "strip_sign (dropWhile isspace (nat_to_string n @ r)) = (False, nat_to_string n @ r)"
    using h by (simp add: dropWhile_isspace_digit strip_sign_digit)
  then show ?thesis using assms(1) t by (simp add: atoi_def proc_int32_def)
qed

text \<open>The threads are numbers in ascending order, those of the names that begin with a digit.\<close>

lemma fold_taskDirFilter:
  "fold taskDirFilter names pids = pids @ map atoi (filter starts_with_digit names)"
  by (induction names arbitrary: pids) (simp_all add: taskDirFilter_def)

lemma threads_sorted:
  "threads (Some names) = sort (map atoi (filter starts_with_digit names))"
  by (simp add: threads_def scanDir_def fold_taskDirFilter)

lemma openedFiles_count:
  "openedFiles (Some names) = int (length (filter starts_with_digit names))"
proof -
  have "fold fdDirFilter names n = n + int (length (filter starts_with_digit names))" for n
    by (induction names arbitrary: n) (simp_all add: fdDirFilter_def)
  then show ?thesis by (simp add: openedFiles_def scanDir_def)
qed

text \<open>
  The name of the process comes first in its \<open>status\<close> file, so a name with the searched word decides
  what \<open>numThreads\<close> answers.
\<close>

lemma numThreads_fooled:
  "numThreads (\<lambda>_. \<lparr>src_fd = 3, src_errno = 0, src_stat = Inl 1,
      src_data = ''Name: Threads:9'' @ [LF] @ ''Threads: 2'' @ [LF], src_reads = []\<rparr>) = 9"
proof -
  let ?s = "''Name: Threads:9'' @ [LF] @ ''Threads: 2'' @ [LF]"
  have p: "find_sub ''Threads:'' ?s = Some 6" by code_simp
  have "atoi (drop 14 ?s) = 9" by code_simp
  with p show ?thesis
    by (simp add: numThreads_def procStatus_def read_proc_def readSmallFile_def readToString_def new_small_file_def
        read_loop_all reads_ok_def size_of_int_def Let_def)
qed

text \<open>An unlimited number of descriptors is reported as -1.\<close>

lemma unlimited_files: "maxOpenFiles (Some (2 ^ 64 - 1)) dir = -1"
  by (simp add: maxOpenFiles_def proc_int32_def)

end
