(* ===== verification/Locks.thy ===== *)
theory Locks
  imports Prelude
begin

text \<open>
  \<open>haha_web/base/Mutex.{h,cpp}\<close> and \<open>haha_web/base/ReadWriteLock.h\<close>: the locks and their guards, taken
  and released by threads that take turns between any two of their steps. \<open>CASLock\<close> is modelled down
  to its atomic flag; of the POSIX mutex, spin lock, semaphore and read-write lock it is used what POSIX
  says of them.
\<close>

section \<open>Guards over a lock\<close>

text \<open>
  A thread is outside, in the constructor of its guard (\<open>lock()\<close> has not returned), or holds the guard.
  One attempt to take the lock gives the lock taken, or nothing, after which \<open>lock()\<close> goes on.
\<close>

datatype guard_place = Outside | Taking | Guarded

record 'l guarded =
  gd_lock :: 'l
  gd_places :: "guard_place list"

definition set_place :: "nat \<Rightarrow> guard_place \<Rightarrow> 'l guarded \<Rightarrow> 'l guarded" where
  "set_place i p s = s\<lparr>gd_places := (gd_places s)[i := p]\<rparr>"

definition at_place :: "nat \<Rightarrow> guard_place \<Rightarrow> 'l guarded \<Rightarrow> bool" where
  "at_place i p s \<longleftrightarrow> i < length (gd_places s) \<and> gd_places s ! i = p"

inductive guard_step ::
  "('l \<Rightarrow> 'l option) \<Rightarrow> ('l \<Rightarrow> 'l) \<Rightarrow> 'l guarded \<Rightarrow> 'l guarded \<Rightarrow> bool" for attempt unlock where
  construct: "at_place i Outside s \<Longrightarrow> guard_step attempt unlock s (set_place i Taking s)"
| taken: "at_place i Taking s \<Longrightarrow> attempt (gd_lock s) = Some l \<Longrightarrow>
    guard_step attempt unlock s (set_place i Guarded (s\<lparr>gd_lock := l\<rparr>))"
| again: "at_place i Taking s \<Longrightarrow> attempt (gd_lock s) = None \<Longrightarrow> guard_step attempt unlock s s"
| destroy: "at_place i Guarded s \<Longrightarrow>
    guard_step attempt unlock s (set_place i Outside (s\<lparr>gd_lock := unlock (gd_lock s)\<rparr>))"

inductive guard_run ::
  "('l \<Rightarrow> 'l option) \<Rightarrow> ('l \<Rightarrow> 'l) \<Rightarrow> 'l \<Rightarrow> nat \<Rightarrow> 'l guarded \<Rightarrow> bool" for attempt unlock l0 n where
  guard_init: "guard_run attempt unlock l0 n \<lparr>gd_lock = l0, gd_places = replicate n Outside\<rparr>"
| guard_next: "guard_run attempt unlock l0 n s \<Longrightarrow> guard_step attempt unlock s s' \<Longrightarrow> guard_run attempt unlock l0 n s'"

definition holders :: "'l guarded \<Rightarrow> nat" where
  "holders s = length (filter (\<lambda>p. p = Guarded) (gd_places s))"

lemma filter_update:
  assumes "i < length ps"
  shows "length (filter P (ps[i := p])) + (if P (ps ! i) then 1 else 0) =
    length (filter P ps) + (if P p then 1 else 0)"
proof -
  have "ps = take i ps @ ps ! i # drop (Suc i) ps" using assms by (rule id_take_nth_drop)
  then have "length (filter P ps) = length (filter P (take i ps @ ps ! i # drop (Suc i) ps))" by simp
  with assms show ?thesis by (simp add: upd_conv_take_nth_drop)
qed

section \<open>What every lock has to promise\<close>

locale mutual_lock =
  fixes attempt :: "'l \<Rightarrow> 'l option" and unlock :: "'l \<Rightarrow> 'l" and locked :: "'l \<Rightarrow> bool" and fresh :: 'l
  assumes fresh_open: "\<not> locked fresh"
    and try_free: "\<not> locked l \<Longrightarrow> \<exists>l'. attempt l = Some l' \<and> locked l'"
    and try_held: "locked l \<Longrightarrow> attempt l = None"
    and unlock_open: "\<not> locked (unlock l)"
begin

lemma guard_inv:
  "guard_run attempt unlock fresh n s \<Longrightarrow>
   length (gd_places s) = n \<and> holders s = (if locked (gd_lock s) then 1 else 0)"
proof (induction rule: guard_run.induct)
  case guard_init
  then show ?case by (simp add: holders_def fresh_open)
next
  case (guard_next s s')
  from guard_next(2) show ?case
  proof cases
    case (construct i)
    with guard_next(3) filter_update [of i "gd_places s" "\<lambda>p. p = Guarded" Taking] show ?thesis
      by (simp add: holders_def set_place_def at_place_def)
  next
    case (taken i l)
    then have free: "\<not> locked (gd_lock s)" using try_held by fastforce
    moreover have "locked l" using try_free [OF free] taken by (metis option.inject)
    ultimately have "\<not> locked (gd_lock s)" "locked l" by simp_all
    with taken guard_next(3) filter_update [of i "gd_places s" "\<lambda>p. p = Guarded" Guarded] show ?thesis
      by (simp add: holders_def set_place_def at_place_def)
  next
    case again
    with guard_next(3) show ?thesis by simp
  next
    case (destroy i)
    with guard_next(3) filter_update [of i "gd_places s" "\<lambda>p. p = Guarded" Outside] unlock_open show ?thesis
      by (simp add: holders_def set_place_def at_place_def split: if_splits)
  qed
qed

lemma mutual_exclusion:
  assumes "guard_run attempt unlock fresh n s"
  shows "holders s \<le> 1"
  using guard_inv [OF assms] by simp

lemma lock_available:
  assumes "guard_run attempt unlock fresh n s" and "holders s = 0" and "at_place i Taking s"
  shows "\<exists>l. attempt (gd_lock s) = Some l"
  using guard_inv [OF assms(1)] assms(2) try_free [of "gd_lock s"] by (auto split: if_splits)

end

section \<open>The compare-and-swap lock\<close>

text \<open>The flag: \<open>test_and_set\<close> answers the old value and sets it in one step.\<close>

definition test_and_set :: "bool \<Rightarrow> bool \<times> bool" where
  "test_and_set flag = (flag, True)"

definition new_CASLock :: bool where "new_CASLock = False"

text \<open>One turn of the loop of \<open>lock\<close>: the loop ends when the old value was clear. Otherwise the flag has
  been set again, which changes nothing.\<close>

definition CASLock_try :: "bool \<Rightarrow> bool option" where
  "CASLock_try flag = (let (old, flag') = test_and_set flag in if old then None else Some flag')"

definition CASLock_unlock :: "bool \<Rightarrow> bool" where
  "CASLock_unlock flag = False"

lemma test_and_set_again: "CASLock_try flag = None \<Longrightarrow> snd (test_and_set flag) = flag"
  by (simp add: CASLock_try_def test_and_set_def split: if_splits)

interpretation cas: mutual_lock CASLock_try CASLock_unlock "\<lambda>flag. flag" new_CASLock
  by unfold_locales (auto simp: CASLock_try_def test_and_set_def CASLock_unlock_def new_CASLock_def)

section \<open>The POSIX locks\<close>

text \<open>
  A mutex or spin lock is free or owned by one thread, and unlocking frees it. Who owns it is not needed:
  guards unlock only what they have locked.
\<close>

datatype posix_lock = Free | Owned

definition posix_try :: "posix_lock \<Rightarrow> posix_lock option" where
  "posix_try l = (case l of Free \<Rightarrow> Some Owned | Owned \<Rightarrow> None)"

definition posix_unlock :: "posix_lock \<Rightarrow> posix_lock" where
  "posix_unlock l = Free"

interpretation posix: mutual_lock posix_try posix_unlock "\<lambda>l. l = Owned" Free
proof unfold_locales
  fix l
  show "l \<noteq> Owned \<Longrightarrow> \<exists>l'. posix_try l = Some l' \<and> l' = Owned"
    by (cases l) (simp_all add: posix_try_def)
qed (simp_all add: posix_try_def posix_unlock_def)

text \<open>C22: at most one guard over a \<open>CASLock\<close> exists at any time, however the threads take turns, and a
  thread that tries while nobody holds the lock gets it.\<close>

theorem cas_guards_exclude:
  assumes "guard_run CASLock_try CASLock_unlock new_CASLock n s"
  shows "holders s \<le> 1 \<and>
    (holders s = 0 \<longrightarrow> (\<forall>i. at_place i Taking s \<longrightarrow>
       guard_step CASLock_try CASLock_unlock s (set_place i Guarded (s\<lparr>gd_lock := True\<rparr>))))"
proof (intro conjI impI allI)
  show "holders s \<le> 1" by (rule cas.mutual_exclusion [OF assms])
  fix i assume "holders s = 0" "at_place i Taking s"
  then obtain l where "CASLock_try (gd_lock s) = Some l" using cas.lock_available [OF assms] by blast
  moreover then have "l = True" by (simp add: CASLock_try_def test_and_set_def split: if_splits)
  ultimately show "guard_step CASLock_try CASLock_unlock s (set_place i Guarded (s\<lparr>gd_lock := True\<rparr>))"
    using \<open>at_place i Taking s\<close> taken by fast
qed

theorem cas_guards_exclude_witness:
  "\<exists>s. guard_run CASLock_try CASLock_unlock new_CASLock 2 s \<and> gd_places s = [Guarded, Taking] \<and> holders s \<le> 1"
proof -
  let ?s0 = "\<lparr>gd_lock = new_CASLock, gd_places = replicate 2 Outside\<rparr>"
  let ?s1 = "set_place 0 Taking ?s0"
  let ?s2 = "set_place 1 Taking ?s1"
  let ?s3 = "set_place 0 Guarded (?s2\<lparr>gd_lock := True\<rparr>)"
  have "guard_step CASLock_try CASLock_unlock ?s0 ?s1" by (rule construct) (simp add: at_place_def)
  with guard_init have "guard_run CASLock_try CASLock_unlock new_CASLock 2 ?s1" by (rule guard_next)
  moreover have "guard_step CASLock_try CASLock_unlock ?s1 ?s2"
    by (rule construct) (simp add: at_place_def set_place_def)
  ultimately have "guard_run CASLock_try CASLock_unlock new_CASLock 2 ?s2" by (rule guard_next)
  moreover have "guard_step CASLock_try CASLock_unlock ?s2 ?s3"
    by (rule taken) (simp_all add: at_place_def set_place_def CASLock_try_def test_and_set_def new_CASLock_def)
  ultimately have run: "guard_run CASLock_try CASLock_unlock new_CASLock 2 ?s3" by (rule guard_next)
  have "gd_places ?s3 = [Guarded, Taking]" by (simp add: set_place_def numeral_2_eq_2)
  with run cas_guards_exclude [OF run] show ?thesis by blast
qed

section \<open>The semaphore\<close>

definition SEM_VALUE_MAX :: nat where "SEM_VALUE_MAX = 2147483647"

definition new_Semaphore :: "nat \<Rightarrow> nat res" where
  "new_Semaphore count =
     (if count > SEM_VALUE_MAX then Inl (Raised (Logic_error ''sem_init error'')) else Inr count)"

text \<open>\<open>None\<close> while the caller sleeps; a wait can also fail, when a signal interrupts it.\<close>

definition Semaphore_wait :: "bool \<Rightarrow> nat \<Rightarrow> nat res option" where
  "Semaphore_wait interrupted count =
     (if count > 0 then Some (Inr (count - 1))
      else if interrupted then Some (Inl (Raised (Logic_error ''sem_wait error'')))
      else None)"

definition Semaphore_notify :: "nat \<Rightarrow> nat res" where
  "Semaphore_notify count =
     (if count = SEM_VALUE_MAX then Inl (Raised (Logic_error ''sem_post error'')) else Inr (count + 1))"

lemma semaphore_balance:
  "Semaphore_notify c = Inr c' \<Longrightarrow> Semaphore_wait b c' = Some (Inr c)"
  by (simp add: Semaphore_notify_def Semaphore_wait_def split: if_splits)

section \<open>The read-write lock\<close>

text \<open>
  POSIX: a read lock is granted when no thread writes (it may be refused for a while when writers wait,
  which is one more \<open>again\<close>), a write lock when no thread reads or writes; \<open>unlock\<close> gives back what the
  thread holds.
\<close>

datatype rw_place = RW_outside | RW_reading | RW_writing

record rw_state =
  rw_readers :: nat
  rw_writer :: bool
  rw_places :: "rw_place list"

definition rw_at :: "nat \<Rightarrow> rw_place \<Rightarrow> rw_state \<Rightarrow> bool" where
  "rw_at i p s \<longleftrightarrow> i < length (rw_places s) \<and> rw_places s ! i = p"

inductive rw_step :: "rw_state \<Rightarrow> rw_state \<Rightarrow> bool" where
  rdlock: "rw_at i RW_outside s \<Longrightarrow> \<not> rw_writer s \<Longrightarrow>
    rw_step s (s\<lparr>rw_readers := Suc (rw_readers s), rw_places := (rw_places s)[i := RW_reading]\<rparr>)"
| wrlock: "rw_at i RW_outside s \<Longrightarrow> \<not> rw_writer s \<Longrightarrow> rw_readers s = 0 \<Longrightarrow>
    rw_step s (s\<lparr>rw_writer := True, rw_places := (rw_places s)[i := RW_writing]\<rparr>)"
| rdunlock: "rw_at i RW_reading s \<Longrightarrow>
    rw_step s (s\<lparr>rw_readers := rw_readers s - 1, rw_places := (rw_places s)[i := RW_outside]\<rparr>)"
| wrunlock: "rw_at i RW_writing s \<Longrightarrow>
    rw_step s (s\<lparr>rw_writer := False, rw_places := (rw_places s)[i := RW_outside]\<rparr>)"

inductive rw_run :: "nat \<Rightarrow> rw_state \<Rightarrow> bool" for n where
  rw_init: "rw_run n \<lparr>rw_readers = 0, rw_writer = False, rw_places = replicate n RW_outside\<rparr>"
| rw_next: "rw_run n s \<Longrightarrow> rw_step s s' \<Longrightarrow> rw_run n s'"

definition rw_count :: "rw_place \<Rightarrow> rw_state \<Rightarrow> nat" where
  "rw_count p s = length (filter (\<lambda>q. q = p) (rw_places s))"

lemma rw_count_update:
  "i < length ps \<Longrightarrow> length (filter (\<lambda>q. q = p) (ps[i := q'])) + (if ps ! i = p then 1 else 0) =
   length (filter (\<lambda>q. q = p) ps) + (if q' = p then 1 else 0)"
  by (rule filter_update)

lemma rw_inv:
  "rw_run n s \<Longrightarrow> rw_readers s = rw_count RW_reading s \<and>
     rw_count RW_writing s = (if rw_writer s then 1 else 0) \<and> (rw_writer s \<longrightarrow> rw_readers s = 0)"
proof (induction rule: rw_run.induct)
  case rw_init
  then show ?case by (simp add: rw_count_def)
next
  case (rw_next s s')
  note u = rw_count_update [where ps = "rw_places s"]
  from rw_next(2) show ?case
  proof cases
    case (rdlock i)
    with rw_next(3) u [of i RW_reading RW_reading] u [of i RW_writing RW_reading] show ?thesis
      by (simp add: rw_count_def rw_at_def)
  next
    case (wrlock i)
    with rw_next(3) u [of i RW_reading RW_writing] u [of i RW_writing RW_writing] show ?thesis
      by (simp add: rw_count_def rw_at_def)
  next
    case (rdunlock i)
    with rw_next(3) u [of i RW_reading RW_outside] u [of i RW_writing RW_outside] show ?thesis
      by (auto simp: rw_count_def rw_at_def split: if_splits)
  next
    case (wrunlock i)
    with rw_next(3) u [of i RW_reading RW_outside] u [of i RW_writing RW_outside] show ?thesis
      by (simp add: rw_count_def rw_at_def split: if_splits)
  qed
qed

text \<open>Guards for writing exclude each other and all guards for reading.\<close>

lemma rw_guards_exclude:
  assumes "rw_run n s"
  shows "rw_count RW_writing s \<le> 1 \<and> (rw_count RW_writing s = 1 \<longrightarrow> rw_count RW_reading s = 0)"
  using rw_inv [OF assms] by (auto split: if_splits)

end
