(* ===== verification/Threads.thy ===== *)
theory Threads
  imports EventLoop
begin

text \<open>
  \<open>haha_web/base/Thread.{h,cpp}\<close>, \<open>net/EventLoopThread.{h,cpp}\<close> and the deadline of
  \<open>base/ConditionVariable.h\<close>: thread objects, and the construction and destruction of a thread that
  runs an event loop, as steps of the two threads that take part and of those that use the loop.
\<close>

section \<open>Thread objects\<close>

text \<open>\<open>pthread_t\<close> is a number, 0 for none; the counter of threads is passed along.\<close>

record thread_object =
  th_id :: nat
  th_joined :: bool
  th_name :: string

definition setDefaultName :: "nat \<Rightarrow> string \<Rightarrow> string" where
  "setDefaultName n name = (if name = [] then ''Thread_'' @ nat_to_string n else name)"

text \<open>The constructor up to the wait for the new thread: \<open>ret\<close> and \<open>tid\<close> are what \<open>pthread_create\<close> gives.\<close>

definition new_thread :: "int \<Rightarrow> nat \<Rightarrow> string \<Rightarrow> nat \<Rightarrow> thread_object res \<times> nat" where
  "new_thread ret tid name n =
     (let n = n + 1; t = \<lparr>th_id = 0, th_joined = False, th_name = setDefaultName n name\<rparr>
      in (if ret \<noteq> 0 then Inl (Raised (Logic_error ''pthread_create error'')) else Inr (t\<lparr>th_id := tid\<rparr>), n))"

definition joinable :: "thread_object \<Rightarrow> bool" where
  "joinable t \<longleftrightarrow> \<not> th_joined t \<and> th_id t \<noteq> 0"

text \<open>What is done to a kernel thread by \<open>join\<close> and by the destructor.\<close>

datatype thread_release = Joined nat | Detached nat

definition thread_join :: "int \<Rightarrow> thread_object \<Rightarrow> thread_object res \<times> thread_release list" where
  "thread_join ret t =
     (if th_id t \<noteq> 0
      then if ret \<noteq> 0 then (Inl (Raised (Logic_error ''pthread_join error'')), [])
           else (Inr (t\<lparr>th_id := 0, th_joined := True\<rparr>), [Joined (th_id t)])
      else (Inr t, []))"

definition thread_destroy :: "thread_object \<Rightarrow> nat \<Rightarrow> nat \<times> thread_release list" where
  "thread_destroy t n = (n - 1, if th_id t \<noteq> 0 then [Detached (th_id t)] else [])"

text \<open>A use of a thread object: attempts to join it, of which a failing one throws, and its end.\<close>

fun thread_run :: "int list \<Rightarrow> thread_object \<Rightarrow> thread_release list" where
  "thread_run [] t = snd (thread_destroy t 1)"
| "thread_run (r # rs) t =
     (case thread_join r t of
        (Inl e, l) \<Rightarrow> l @ snd (thread_destroy t 1)
      | (Inr t', l) \<Rightarrow> l @ thread_run rs t')"

lemma thread_run_none: "th_id t = 0 \<Longrightarrow> thread_run rs t = []"
  by (induction rs) (simp_all add: thread_destroy_def thread_join_def)

text \<open>Every thread is released exactly once, whatever \<open>pthread_join\<close> answers.\<close>

lemma thread_released_once:
  assumes "fst (new_thread ret tid name n) = Inr t" and "tid \<noteq> 0"
  shows "thread_run rs t = [Joined tid] \<or> thread_run rs t = [Detached tid]"
proof -
  have t: "th_id t = tid" "tid \<noteq> 0" using assms by (auto simp: new_thread_def Let_def split: if_splits)
  then show ?thesis
    by (cases rs) (auto simp: thread_join_def thread_destroy_def thread_run_none)
qed

text \<open>
  The default name is the number of threads at that time: after the end of an older thread a new one
  gets the name of a thread that still runs. A failing \<open>pthread_create\<close> leaves the number too high.
\<close>

lemma default_names_repeat:
  assumes "new_thread 0 7 [] 0 = (Inr a, n1)" "new_thread 0 8 [] n1 = (Inr b, n2)"
    "thread_destroy a n2 = (n3, l)" "new_thread 0 9 [] n3 = (Inr c, n4)"
  shows "th_name c = th_name b"
  using assms by (auto simp: new_thread_def thread_destroy_def Let_def)

lemma failed_thread_counted: "snd (new_thread ret tid name n) = n + 1"
  by (simp add: new_thread_def Let_def)

section \<open>The deadline of a timed wait\<close>

text \<open>
  \<open>seconds\<close> times \<open>10^9\<close> is given as a whole number of nanoseconds; \<open>/\<close> and \<open>%\<close> round towards zero.
  The values stay below the bounds of \<open>int64_t\<close>.
\<close>

definition wait_deadline :: "int \<times> int \<Rightarrow> int \<Rightarrow> int \<times> int" where
  "wait_deadline now ns =
     (let t = snd now + ns
      in (fst now + sgn t * (\<bar>t\<bar> div 1000000000), sgn t * (\<bar>t\<bar> mod 1000000000)))"

lemma wait_deadline_exact:
  assumes "0 \<le> snd now" and "0 \<le> ns" and "wait_deadline now ns = (s, n)"
  shows "s * 1000000000 + n = fst now * 1000000000 + snd now + ns" and "0 \<le> n" and "n < 1000000000"
proof -
  let ?t = "snd now + ns"
  have "0 \<le> ?t" using assms(1,2) by simp
  then have "s = fst now + ?t div 1000000000" "n = ?t mod 1000000000"
    using assms(3) by (auto simp: wait_deadline_def Let_def sgn_if)
  then show "s * 1000000000 + n = fst now * 1000000000 + snd now + ns" and "0 \<le> n" and "n < 1000000000"
    by simp_all
qed

section \<open>A thread with its loop\<close>

text \<open>
  The constructor starts the thread and spins until the loop is there; the destructor asks the loop to
  quit, wakes it up and joins. \<open>Maker\<close> is the thread of the object, \<open>worker\<close> the one it started.
\<close>

datatype maker_place =
    M_start | M_wait_started | M_wait_loop | M_ready | M_failed | M_quit | M_join | M_joined | M_crashed

datatype worker_place = W_none | W_run | W_work | W_made | W_ok | W_loop | W_end

record ('t, 'c) loop_thread =
  elt_id :: nat
  elt_timefd :: int
  elt_maker :: maker_place
  elt_worker :: worker_place
  elt_started :: bool
  loop_ok :: bool
  elt_loop :: "('t, 'c) loop_threads option"

definition new_loop_thread :: "nat \<Rightarrow> int \<Rightarrow> ('t, 'c) loop_thread" where
  "new_loop_thread tid fd =
     \<lparr>elt_id = tid, elt_timefd = fd, elt_maker = M_start, elt_worker = W_none, elt_started = False,
      loop_ok = False, elt_loop = None\<rparr>"

text \<open>What the thread of a loop does next by itself; nothing while it waits without having been woken up.\<close>

definition own_turn :: "('t, 'c) loop_threads \<Rightarrow> ('t, 'c) loop_threads option" where
  "own_turn l =
     (case lt_phase l of
        Polling \<Rightarrow>
          if el_ready (lt_loop l)
          then Some (l\<lparr>lt_loop := (lt_loop l)\<lparr>el_ready := False\<rparr>, lt_phase := Handling True\<rparr>)
          else None
      | Handling True \<Rightarrow> Some (l\<lparr>lt_loop := handleWakeup (lt_loop l), lt_phase := Handling False\<rparr>)
      | Handling False \<Rightarrow>
          (case take_tasks (lt_loop l) of (ts, l') \<Rightarrow> Some (l\<lparr>lt_loop := l', lt_phase := Running ts\<rparr>))
      | Running (t # ts) \<Rightarrow> Some (l\<lparr>lt_phase := Running ts\<rparr>)
      | Running [] \<Rightarrow>
          Some (l\<lparr>lt_loop := end_tasks (lt_loop l),
                  lt_phase := (if el_quit (lt_loop l) then Stopped else Polling)\<rparr>)
      | Stopped \<Rightarrow> None)"

lemma own_turn_step: "own_turn l = Some l' \<Longrightarrow> \<exists>x. loop_step l x l'"
proof (cases "lt_phase l = Running []")
  case True
  assume "own_turn l = Some l'"
  with True loop_step.next_round [OF True] show ?thesis by (auto simp: own_turn_def)
qed (auto simp: own_turn_def split: phase.splits bool.splits list.splits if_splits prod.splits
      intro: loop_step.intros)

text \<open>
  \<open>Own\<close> steps happen by themselves; \<open>Other\<close> ones are up to the kernel and to the users of the
  loop: a failing \<open>pthread_create\<close>, events of other descriptors, tasks queued, the destruction.
\<close>

datatype who = Own | Other

inductive elt_step :: "who \<Rightarrow> ('t, 'c) loop_thread \<Rightarrow> ('t, 'c) loop_thread \<Rightarrow> bool" where
  create: "elt_maker s = M_start \<Longrightarrow>
    elt_step Own s (s\<lparr>elt_maker := M_wait_started, elt_worker := W_run\<rparr>)"
| create_fails: "elt_maker s = M_start \<Longrightarrow> elt_step Other s (s\<lparr>elt_maker := M_failed\<rparr>)"
| started: "elt_worker s = W_run \<Longrightarrow> elt_step Own s (s\<lparr>elt_started := True, elt_worker := W_work\<rparr>)"
| see_started: "elt_maker s = M_wait_started \<Longrightarrow> elt_started s \<Longrightarrow> elt_step Own s (s\<lparr>elt_maker := M_wait_loop\<rparr>)"
| make_loop: "elt_worker s = W_work \<Longrightarrow>
    elt_step Own s (s\<lparr>elt_loop := Some (fresh_threads (new_event_loop (elt_id s) (elt_timefd s))), elt_worker := W_made\<rparr>)"
| set_ok: "elt_worker s = W_made \<Longrightarrow> elt_step Own s (s\<lparr>loop_ok := True, elt_worker := W_ok\<rparr>)"
| see_ok: "elt_maker s = M_wait_loop \<Longrightarrow> loop_ok s \<Longrightarrow> elt_step Own s (s\<lparr>elt_maker := M_ready\<rparr>)"
| enter: "elt_worker s = W_ok \<Longrightarrow> elt_loop s = Some l \<Longrightarrow>
    elt_step Own s (s\<lparr>elt_worker := (if el_quit (lt_loop l) then W_end else W_loop)\<rparr>)"
| turn: "elt_worker s = W_loop \<Longrightarrow> elt_loop s = Some l \<Longrightarrow> own_turn l = Some l' \<Longrightarrow>
    elt_step Own s (s\<lparr>elt_loop := Some l', elt_worker := (if lt_phase l' = Stopped then W_end else W_loop)\<rparr>)"
| waken: "elt_loop s = Some l \<Longrightarrow> 0 < lt_writers l \<Longrightarrow>
    elt_step Own s (s\<lparr>elt_loop := Some (l\<lparr>lt_loop := wakeup (lt_loop l), lt_writers := lt_writers l - 1\<rparr>)\<rparr>)"
| events: "elt_worker s = W_loop \<Longrightarrow> elt_loop s = Some l \<Longrightarrow> lt_phase l = Polling \<Longrightarrow> \<not> el_ready (lt_loop l) \<Longrightarrow>
    elt_step Other s (s\<lparr>elt_loop := Some (l\<lparr>lt_phase := Handling False\<rparr>)\<rparr>)"
| queue: "loop_ok s \<Longrightarrow> elt_loop s = Some l \<Longrightarrow>
    elt_step Other s (s\<lparr>elt_loop := Some (l\<lparr>lt_loop := push_task t (lt_loop l), lt_writers := lt_writers l + 1\<rparr>)\<rparr>)"
| quit_by_user: "loop_ok s \<Longrightarrow> elt_loop s = Some l \<Longrightarrow>
    elt_step Other s (s\<lparr>elt_loop := Some (l\<lparr>lt_loop := (lt_loop l)\<lparr>el_quit := True\<rparr>, lt_writers := lt_writers l + 1\<rparr>)\<rparr>)"
| destroy: "elt_maker s = M_ready \<Longrightarrow> elt_loop s = Some l \<Longrightarrow>
    elt_step Other s (s\<lparr>elt_loop := Some (l\<lparr>lt_loop := (lt_loop l)\<lparr>el_quit := True\<rparr>\<rparr>), elt_maker := M_quit\<rparr>)"
| destroy_null: "elt_maker s = M_ready \<Longrightarrow> elt_loop s = None \<Longrightarrow> elt_step Other s (s\<lparr>elt_maker := M_crashed\<rparr>)"
| wake_quit: "elt_maker s = M_quit \<Longrightarrow> elt_loop s = Some l \<Longrightarrow>
    elt_step Own s (s\<lparr>elt_loop := Some (l\<lparr>lt_loop := wakeup (lt_loop l)\<rparr>), elt_maker := M_join\<rparr>)"
| join: "elt_maker s = M_join \<Longrightarrow> elt_worker s = W_end \<Longrightarrow> elt_step Own s (s\<lparr>elt_maker := M_joined\<rparr>)"

inductive elt_reach :: "nat \<Rightarrow> int \<Rightarrow> ('t, 'c) loop_thread \<Rightarrow> bool" for tid fd where
  init: "elt_reach tid fd (new_loop_thread tid fd)"
| step: "elt_reach tid fd s \<Longrightarrow> elt_step w s s' \<Longrightarrow> elt_reach tid fd s'"

abbreviation own_run :: "('t, 'c) loop_thread \<Rightarrow> ('t, 'c) loop_thread \<Rightarrow> bool" where
  "own_run \<equiv> (elt_step Own)\<^sup>*\<^sup>*"

inductive_cases elt_stepE: "elt_step w s s'"

text \<open>The invariant: how far the two threads may be apart, and that a loop that has to quit is or will be woken up.\<close>

definition wakes :: "maker_place \<Rightarrow> ('t, 'c) loop_threads \<Rightarrow> bool" where
  "wakes m l \<longleftrightarrow> lt_phase l = Polling \<and> el_quit (lt_loop l) \<longrightarrow>
     el_ready (lt_loop l) \<or> 0 < lt_writers l \<or> m = M_quit"

definition elt_loop_inv :: "maker_place \<Rightarrow> worker_place \<Rightarrow> ('t, 'c) loop_threads \<Rightarrow> bool" where
  "elt_loop_inv m w l \<longleftrightarrow>
     (w \<in> {W_made, W_ok} \<longrightarrow> lt_phase l = Polling) \<and> (w = W_loop \<longrightarrow> lt_phase l \<noteq> Stopped) \<and>
     (m \<in> {M_quit, M_join, M_joined} \<longrightarrow> el_quit (lt_loop l)) \<and> wakes m l"

fun fits :: "maker_place \<Rightarrow> worker_place \<Rightarrow> bool" where
  "fits M_start w \<longleftrightarrow> w = W_none"
| "fits M_failed w \<longleftrightarrow> w = W_none"
| "fits M_wait_started w \<longleftrightarrow> w \<noteq> W_none"
| "fits M_wait_loop w \<longleftrightarrow> w \<noteq> W_none \<and> w \<noteq> W_run"
| "fits M_joined w \<longleftrightarrow> w = W_end"
| "fits M_crashed w \<longleftrightarrow> False"
| "fits _ w \<longleftrightarrow> w = W_ok \<or> w = W_loop \<or> w = W_end"

definition places_ok :: "('t, 'c) loop_thread \<Rightarrow> bool" where
  "places_ok s \<longleftrightarrow>
     fits (elt_maker s) (elt_worker s) \<and>
     elt_started s = (elt_worker s \<noteq> W_none \<and> elt_worker s \<noteq> W_run) \<and>
     loop_ok s = (elt_worker s = W_ok \<or> elt_worker s = W_loop \<or> elt_worker s = W_end) \<and>
     (elt_loop s = None) = (elt_worker s = W_none \<or> elt_worker s = W_run \<or> elt_worker s = W_work)"

definition loop_of_inv :: "('t, 'c) loop_thread \<Rightarrow> bool" where
  "loop_of_inv s \<longleftrightarrow> (case elt_loop s of None \<Rightarrow> True | Some l \<Rightarrow> elt_loop_inv (elt_maker s) (elt_worker s) l)"

lemma own_turn_wakes: "own_turn l = Some l' \<Longrightarrow> wakes m l'"
  by (auto simp: own_turn_def wakes_def handleWakeup_def take_tasks_def end_tasks_def
      split: phase.splits bool.splits list.splits if_splits)

lemma own_turn_quit: "own_turn l = Some l' \<Longrightarrow> el_quit (lt_loop l') = el_quit (lt_loop l)"
  by (auto simp: own_turn_def handleWakeup_def take_tasks_def end_tasks_def
      split: phase.splits bool.splits list.splits if_splits)

lemma fits_next:
  "fits m W_run \<Longrightarrow> fits m W_work" "fits m W_work \<Longrightarrow> fits m W_made" "fits m W_made \<Longrightarrow> fits m W_ok"
  "fits m W_ok \<Longrightarrow> fits m W_loop" "fits m W_ok \<Longrightarrow> fits m W_end" "fits m W_loop \<Longrightarrow> fits m W_end"
  by (cases m; simp)+

lemma places_step: "elt_step w s s' \<Longrightarrow> places_ok s \<Longrightarrow> places_ok s'"
  by (erule elt_stepE, simp_all add: places_ok_def fits_next) auto

lemma loop_of_inv_step: "elt_step w s s' \<Longrightarrow> places_ok s \<Longrightarrow> loop_of_inv s \<Longrightarrow> loop_of_inv s'"
proof (induction rule: elt_step.induct)
  case (turn s l l')
  then show ?case using own_turn_quit [OF turn(3)] by (simp add: loop_of_inv_def elt_loop_inv_def own_turn_wakes)
next
  case (make_loop s)
  then show ?case
    by (cases "elt_maker s") (simp_all add: loop_of_inv_def elt_loop_inv_def wakes_def fresh_threads_def new_event_loop_def places_ok_def)
qed (simp_all add: loop_of_inv_def elt_loop_inv_def wakes_def places_ok_def wakeup_def push_task_def split: option.splits)

lemma elt_reach_inv: "elt_reach tid fd s \<Longrightarrow> places_ok s \<and> loop_of_inv s"
proof (induction rule: elt_reach.induct)
  case init
  show ?case by (simp add: loop_of_inv_def places_ok_def new_loop_thread_def)
next
  case (step s w s')
  then show ?case using places_step loop_of_inv_step by blast
qed

section \<open>The constructor and the destructor return\<close>

lemma own_run_turn:
  assumes "elt_worker s = W_loop" "elt_loop s = Some l" "own_turn l = Some l'" "lt_phase l' \<noteq> Stopped"
  shows "own_run s (s\<lparr>elt_loop := Some l'\<rparr>)"
proof -
  have "elt_step Own s (s\<lparr>elt_loop := Some l', elt_worker := W_loop\<rparr>)"
    using elt_step.turn [OF assms(1-3)] assms(4) by simp
  moreover have "s\<lparr>elt_loop := Some l', elt_worker := W_loop\<rparr> = s\<lparr>elt_loop := Some l'\<rparr>"
    using assms(1) by simp
  ultimately show ?thesis by auto
qed

text \<open>A loop that has to quit and is not left waiting ends.\<close>

definition ends :: "('t, 'c) loop_thread \<Rightarrow> bool" where
  "ends s \<longleftrightarrow> (\<exists>s'. own_run s s' \<and> elt_worker s' = W_end \<and> elt_maker s' = elt_maker s)"

lemma ends_before: "own_run s (s\<lparr>elt_loop := Some l'\<rparr>) \<Longrightarrow> ends (s\<lparr>elt_loop := Some l'\<rparr>) \<Longrightarrow> ends s"
proof -
  assume r: "own_run s (s\<lparr>elt_loop := Some l'\<rparr>)" and e: "ends (s\<lparr>elt_loop := Some l'\<rparr>)"
  from e obtain s' where s': "own_run (s\<lparr>elt_loop := Some l'\<rparr>) s'" "elt_worker s' = W_end"
      "elt_maker s' = elt_maker (s\<lparr>elt_loop := Some l'\<rparr>)"
    unfolding ends_def by blast
  from rtranclp_trans [OF r s'(1)] s'(2,3) show "ends s" unfolding ends_def by auto
qed

lemma ends_running:
  "elt_worker s = W_loop \<Longrightarrow> elt_loop s = Some l \<Longrightarrow> lt_phase l = Running ts \<Longrightarrow> el_quit (lt_loop l) \<Longrightarrow> ends s"
proof (induction ts arbitrary: s l)
  case Nil
  have t: "own_turn l = Some (l\<lparr>lt_loop := end_tasks (lt_loop l), lt_phase := Stopped\<rparr>)"
    using Nil(3,4) by (simp add: own_turn_def)
  from elt_step.turn [OF Nil(1,2) t]
  have "own_run s (s\<lparr>elt_loop := Some (l\<lparr>lt_loop := end_tasks (lt_loop l), lt_phase := Stopped\<rparr>), elt_worker := W_end\<rparr>)"
    by (intro r_into_rtranclp) simp
  then show ?case unfolding ends_def by fastforce
next
  case (Cons t ts)
  have t: "own_turn l = Some (l\<lparr>lt_phase := Running ts\<rparr>)" using Cons(4) by (simp add: own_turn_def)
  show ?case
    by (rule ends_before [OF own_run_turn [OF Cons(2,3) t]])
      (simp, rule Cons.IH [where l = "l\<lparr>lt_phase := Running ts\<rparr>"], use Cons.prems in simp_all)
qed

lemma ends_handling_tasks:
  assumes "elt_worker s = W_loop" "elt_loop s = Some l" "lt_phase l = Handling False" "el_quit (lt_loop l)"
  shows "ends s"
proof -
  have t: "own_turn l = Some (l\<lparr>lt_loop := snd (take_tasks (lt_loop l)), lt_phase := Running (pendingTasks (lt_loop l))\<rparr>)"
    using assms(3) by (simp add: own_turn_def take_tasks_def)
  show ?thesis
    by (rule ends_before [OF own_run_turn [OF assms(1,2) t]])
      (use assms in \<open>auto simp: take_tasks_def intro!: ends_running\<close>)
qed

lemma ends_handling:
  assumes "elt_worker s = W_loop" "elt_loop s = Some l" "lt_phase l = Handling b" "el_quit (lt_loop l)"
  shows "ends s"
proof (cases b)
  case True
  then have t: "own_turn l = Some (l\<lparr>lt_loop := handleWakeup (lt_loop l), lt_phase := Handling False\<rparr>)"
    using assms(3) by (simp add: own_turn_def)
  show ?thesis
    by (rule ends_before [OF own_run_turn [OF assms(1,2) t]])
      (use assms in \<open>auto simp: handleWakeup_def intro!: ends_handling_tasks\<close>)
qed (use assms ends_handling_tasks in auto)

lemma ends_ready:
  assumes "elt_worker s = W_loop" "elt_loop s = Some l" "lt_phase l = Polling" "el_quit (lt_loop l)" "el_ready (lt_loop l)"
  shows "ends s"
proof -
  have t: "own_turn l = Some (l\<lparr>lt_loop := (lt_loop l)\<lparr>el_ready := False\<rparr>, lt_phase := Handling True\<rparr>)"
    using assms(3,5) by (simp add: own_turn_def)
  show ?thesis
    by (rule ends_before [OF own_run_turn [OF assms(1,2) t]])
      (use assms in \<open>auto intro!: ends_handling\<close>)
qed

lemma quitting_loop_ends:
  assumes "elt_worker s = W_loop" "elt_loop s = Some l" "lt_phase l \<noteq> Stopped" "el_quit (lt_loop l)"
    and "lt_phase l = Polling \<Longrightarrow> el_ready (lt_loop l) \<or> 0 < lt_writers l"
  shows "ends s"
proof (cases "lt_phase l")
  case Polling
  show ?thesis
  proof (cases "el_ready (lt_loop l)")
    case False
    with assms(5) Polling have w: "0 < lt_writers l" by simp
    show ?thesis
      by (rule ends_before [OF r_into_rtranclp [of "elt_step Own", OF elt_step.waken [OF assms(2) w]]])
        (use assms Polling in \<open>auto simp: wakeup_def intro!: ends_ready\<close>)
  qed (use assms Polling ends_ready in blast)
next
  case (Handling b)
  then show ?thesis using assms ends_handling by blast
next
  case (Running ts)
  then show ?thesis using assms ends_running by blast
qed (use assms in simp)

lemma joining_ends:
  assumes "places_ok s" "loop_of_inv s" "elt_maker s = M_join"
  shows "ends s"
proof -
  have w: "elt_worker s = W_ok \<or> elt_worker s = W_loop \<or> elt_worker s = W_end"
    using assms(1,3) by (simp add: places_ok_def)
  then obtain l where l: "elt_loop s = Some l" using assms(1) by (cases "elt_loop s") (auto simp: places_ok_def)
  have inv: "elt_loop_inv M_join (elt_worker s) l" using assms(2,3) l by (simp add: loop_of_inv_def)
  from w consider "elt_worker s = W_end" | "elt_worker s = W_ok" | "elt_worker s = W_loop" by blast
  then show ?thesis
  proof cases
    case 1
    then show ?thesis by (auto simp: ends_def)
  next
    case 2
    have "own_run s (s\<lparr>elt_worker := W_end\<rparr>)"
      using elt_step.enter [OF 2 l] inv by (auto simp: elt_loop_inv_def)
    then show ?thesis by (force simp: ends_def)
  next
    case 3
    then show ?thesis using quitting_loop_ends [OF 3 l] inv by (auto simp: elt_loop_inv_def wakes_def)
  qed
qed

lemma quitting_joined:
  assumes "places_ok s" "loop_of_inv s" "elt_maker s = M_quit \<or> elt_maker s = M_join"
  shows "\<exists>s'. own_run s s' \<and> elt_maker s' = M_joined"
proof -
  have join: "\<exists>s'. own_run s s' \<and> elt_maker s' = M_joined"
    if s: "places_ok s" "loop_of_inv s" "elt_maker s = M_join" for s :: "('a, 'b) loop_thread"
  proof -
    obtain s' where s': "own_run s s'" "elt_worker s' = W_end" "elt_maker s' = M_join"
      using joining_ends [OF s] s(3) by (auto simp: ends_def)
    from s'(1) elt_step.join [OF s'(3,2)] have "own_run s (s'\<lparr>elt_maker := M_joined\<rparr>)"
      by (rule rtranclp.rtrancl_into_rtrancl)
    then show ?thesis by force
  qed
  show ?thesis
  proof (cases "elt_maker s = M_join")
    case False
    with assms(3) have m: "elt_maker s = M_quit" by simp
    then obtain l where l: "elt_loop s = Some l" using assms(1) by (cases "elt_loop s") (auto simp: places_ok_def)
    let ?s = "s\<lparr>elt_loop := Some (l\<lparr>lt_loop := wakeup (lt_loop l)\<rparr>), elt_maker := M_join\<rparr>"
    have st: "elt_step Own s ?s" using elt_step.wake_quit [OF m l] .
    have "\<exists>s'. own_run ?s s' \<and> elt_maker s' = M_joined"
      by (rule join) (use places_step [OF st] loop_of_inv_step [OF st] assms(1,2) in auto)
    then show ?thesis using st by (meson converse_rtranclp_into_rtranclp)
  qed (use join assms in blast)
qed

lemma places_loop: "places_ok s \<Longrightarrow> elt_worker s = W_ok \<or> elt_worker s = W_loop \<or> elt_worker s = W_end \<Longrightarrow> elt_loop s \<noteq> None"
  by (auto simp: places_ok_def)

text \<open>The constructor: what is missing until the loop is ready is done by the new thread without further help.\<close>

lemma own_run_step: "own_run s s' \<Longrightarrow> elt_step Own s' s'' \<Longrightarrow> own_run s s''"
  by (rule rtranclp.rtrancl_into_rtrancl)

lemma worker_gets_ready:
  assumes "places_ok s" "elt_worker s \<noteq> W_none"
  shows "\<exists>s'. own_run s s' \<and> elt_maker s' = elt_maker s \<and> elt_started s' \<and> loop_ok s'"
proof -
  define good where "good = (\<lambda>s s' :: ('a, 'b) loop_thread. own_run s s' \<and> elt_maker s' = elt_maker s \<and> elt_started s' \<and> loop_ok s')"
  have made: "\<exists>s'. good s s'" if "elt_worker s = W_made" "elt_started s" for s :: "('a, 'b) loop_thread"
    using elt_step.set_ok [OF that(1)] that(2) by (intro exI [of _ "s\<lparr>loop_ok := True, elt_worker := W_ok\<rparr>"]) (auto simp: good_def)
  have before: "\<exists>s'. good s s'"
    if "elt_step Own s s1" "elt_maker s1 = elt_maker s" "\<exists>s'. good s1 s'" for s s1 :: "('a, 'b) loop_thread"
    using that by (auto simp: good_def intro: converse_rtranclp_into_rtranclp)
  have work: "\<exists>s'. good s s'" if "elt_worker s = W_work" "elt_started s" for s :: "('a, 'b) loop_thread"
    by (rule before [OF elt_step.make_loop [OF that(1)]]) (use that in \<open>auto intro: made\<close>)
  have run: "\<exists>s'. good s s'" if "elt_worker s = W_run" for s :: "('a, 'b) loop_thread"
    by (rule before [OF elt_step.started [OF that(1)]]) (use that in \<open>auto intro: work\<close>)
  have "\<exists>s'. good s s'"
  proof (cases "elt_worker s")
    case W_none
    with assms(2) show ?thesis by simp
  next
    case W_run
    then show ?thesis by (rule run)
  next
    case W_work
    then show ?thesis by (rule work) (use W_work assms(1) in \<open>simp add: places_ok_def\<close>)
  next
    case W_made
    then show ?thesis by (rule made) (use W_made assms(1) in \<open>simp add: places_ok_def\<close>)
  qed (use assms in \<open>auto simp: places_ok_def good_def\<close>)
  then show ?thesis by (simp add: good_def)
qed

lemma constructor_returns:
  assumes "places_ok s" "elt_maker s = M_wait_started \<or> elt_maker s = M_wait_loop"
  shows "\<exists>s'. own_run s s' \<and> elt_maker s' = M_ready"
proof -
  have "elt_worker s \<noteq> W_none" using assms by (auto simp: places_ok_def)
  then obtain s1 where s1: "own_run s s1" "elt_maker s1 = elt_maker s" "elt_started s1" "loop_ok s1"
    using worker_gets_ready [OF assms(1)] by blast
  have see: "\<exists>s'. own_run s s' \<and> elt_maker s' = M_ready"
    if "own_run s s2" "elt_maker s2 = M_wait_loop" "loop_ok s2" for s2
    using own_run_step [OF that(1) elt_step.see_ok [OF that(2,3)]] by force
  from assms(2) show ?thesis
  proof
    assume "elt_maker s = M_wait_started"
    then have m: "elt_maker s1 = M_wait_started" using s1(2) by simp
    show ?thesis
      by (rule see [OF own_run_step [OF s1(1) elt_step.see_started [OF m s1(3)]]]) (use s1 in simp_all)
  qed (use see s1 in simp)
qed

text \<open>C24: in every interleaving of a thread that makes and destroys an \<open>EventLoopThread\<close>, the thread
  it starts, and others that queue tasks or quit the loop: the loop is there when the constructor
  has returned, so the destructor never goes through a null pointer; and neither blocks: once the
  thread has been created the constructor, and once it has been called the destructor, can return
  by steps of the two threads and of writers to the eventfd alone, without any event from outside.\<close>

theorem loop_thread_lifecycle:
  assumes "elt_reach tid fd s"
  shows "elt_maker s \<noteq> M_crashed \<and> (elt_maker s = M_ready \<longrightarrow> elt_loop s \<noteq> None) \<and>
    (elt_maker s = M_wait_started \<or> elt_maker s = M_wait_loop \<longrightarrow> (\<exists>s'. own_run s s' \<and> elt_maker s' = M_ready)) \<and>
    (elt_maker s = M_quit \<or> elt_maker s = M_join \<longrightarrow> (\<exists>s'. own_run s s' \<and> elt_maker s' = M_joined))"
proof -
  from elt_reach_inv [OF assms] have inv: "places_ok s" "loop_of_inv s" by simp_all
  then have "elt_maker s \<noteq> M_crashed" "elt_maker s = M_ready \<longrightarrow> elt_loop s \<noteq> None"
    by (auto simp: places_ok_def)
  moreover have "elt_maker s = M_wait_started \<or> elt_maker s = M_wait_loop \<longrightarrow> (\<exists>s'. own_run s s' \<and> elt_maker s' = M_ready)"
    using constructor_returns [OF inv(1)] by blast
  moreover have "elt_maker s = M_quit \<or> elt_maker s = M_join \<longrightarrow> (\<exists>s'. own_run s s' \<and> elt_maker s' = M_joined)"
    using quitting_joined [OF inv] by blast
  ultimately show ?thesis by blast
qed

text \<open>A loop that waits in \<open>epoll_wait\<close> when its object is destroyed.\<close>

definition quitting_loop :: "(nat, unit) loop_thread" where
  "quitting_loop =
     \<lparr>elt_id = 1, elt_timefd = 5, elt_maker = M_quit, elt_worker = W_loop, elt_started = True, loop_ok = True,
      elt_loop = Some (fresh_threads ((new_event_loop 1 5)\<lparr>el_quit := True\<rparr>))\<rparr>"

lemma quitting_loop_reached: "elt_reach 1 5 quitting_loop"
proof -
  note go = elt_reach.step [OF _ elt_step.create] elt_reach.step [OF _ elt_step.started]
    elt_reach.step [OF _ elt_step.see_started] elt_reach.step [OF _ elt_step.make_loop]
    elt_reach.step [OF _ elt_step.set_ok] elt_reach.step [OF _ elt_step.see_ok]
    elt_reach.step [OF _ elt_step.enter] elt_reach.step [OF _ elt_step.destroy]
  have "elt_reach 1 5 (new_loop_thread 1 5 :: (nat, unit) loop_thread)" by (rule elt_reach.init)
  from go(1) [OF this] have "elt_reach 1 5 ((new_loop_thread 1 5 :: (nat, unit) loop_thread)
      \<lparr>elt_maker := M_wait_started, elt_worker := W_run\<rparr>)" by (simp add: new_loop_thread_def)
  from go(2) [OF this] have "elt_reach 1 5 ((new_loop_thread 1 5 :: (nat, unit) loop_thread)
      \<lparr>elt_maker := M_wait_started, elt_worker := W_work, elt_started := True\<rparr>)" by (simp add: new_loop_thread_def)
  from go(3) [OF this] have "elt_reach 1 5 ((new_loop_thread 1 5 :: (nat, unit) loop_thread)
      \<lparr>elt_maker := M_wait_loop, elt_worker := W_work, elt_started := True\<rparr>)" by (simp add: new_loop_thread_def)
  from go(4) [OF this] have "elt_reach 1 5 ((new_loop_thread 1 5 :: (nat, unit) loop_thread)
      \<lparr>elt_maker := M_wait_loop, elt_worker := W_made, elt_started := True,
       elt_loop := Some (fresh_threads (new_event_loop 1 5))\<rparr>)" by (simp add: new_loop_thread_def)
  from go(5) [OF this] have "elt_reach 1 5 ((new_loop_thread 1 5 :: (nat, unit) loop_thread)
      \<lparr>elt_maker := M_wait_loop, elt_worker := W_ok, elt_started := True, loop_ok := True,
       elt_loop := Some (fresh_threads (new_event_loop 1 5))\<rparr>)" by (simp add: new_loop_thread_def)
  from go(6) [OF this] have "elt_reach 1 5 ((new_loop_thread 1 5 :: (nat, unit) loop_thread)
      \<lparr>elt_maker := M_ready, elt_worker := W_ok, elt_started := True, loop_ok := True,
       elt_loop := Some (fresh_threads (new_event_loop 1 5))\<rparr>)" by (simp add: new_loop_thread_def)
  from go(7) [OF this, of "fresh_threads (new_event_loop 1 5)"]
  have "elt_reach 1 5 ((new_loop_thread 1 5 :: (nat, unit) loop_thread)
      \<lparr>elt_maker := M_ready, elt_worker := W_loop, elt_started := True, loop_ok := True,
       elt_loop := Some (fresh_threads (new_event_loop 1 5))\<rparr>)"
    by (simp add: new_loop_thread_def fresh_threads_def new_event_loop_def)
  from go(8) [OF this, of "fresh_threads (new_event_loop 1 5)"]
  show ?thesis by (simp add: new_loop_thread_def quitting_loop_def fresh_threads_def new_event_loop_def)
qed

theorem loop_thread_lifecycle_witness:
  "\<exists>s'. own_run quitting_loop s' \<and> elt_maker s' = M_joined"
  using loop_thread_lifecycle [OF quitting_loop_reached] by (simp add: quitting_loop_def)

end
