(* ===== verification/PageServed.thy ===== *)
theory PageServed
  imports HttpServerSpec
begin

text \<open>
  The path of a request through the whole server: the event of the loop, the receive of the connection,
  the parser, the servlet, the response, the event that says the socket can be written, the send, and
  the close.
\<close>

section \<open>An event that is answered\<close>

text \<open>What becomes of the connection when a receive delivers a message the server answers.\<close>

lemma read_event_answered:
  assumes ok: "server_ok timeout now s" and k: "k < length (loops s)"
    and reg: "el_epoll (loops s ! k) fd = Some (ev, i)" and c: "conns s i = Some c"
    and recv: "conn_recv c = Inr (st, c1)" "st_type st = S_AGAIN"
    and msg: "onMessage h now c1 (sv_app s) = Inr (MSG_OK, c2, a, [])" "conn_ok c2" "same_place c1 c2"
  shows "\<exists>s' ch. handle_conn_event h k now i EPOLLIN s = Inr s' \<and> server_ok timeout now s' \<and>
    length (loops s') = length (loops s) \<and> sv_app s' = a \<and>
    conns s' i = Some (c2\<lparr>conn_channel := Some ch\<rparr>) \<and>
    el_epoll (loops s' ! k) fd = Some (EPOLLOUT OR kConnectionEvent, i)"
proof -
  obtain limit where inv: "deadline now s = Inr limit" "server_inv limit {} (tasks s) s" and tmo: "connTimeOut s = timeout"
    using ok by (auto simp: server_ok_def)
  note at = registered_conn_at [OF inv(2) k reg]
  obtain ch where ch: "conn_ok c" "getFd c = fd" "\<not> disconnected c" "conn_channel c = Some ch" "ch_loop ch = k"
    using conn_atD(4) [OF at] c by auto
  have c1: "conn_ok c1" "same_place c c1" using conn_recv_lands [OF ch(1)] recv(1) by simp_all
  have c2: "getFd c2 = fd" "conn_channel c2 = Some ch" "same_place c c2"
    using c1(2) msg(3) ch by (auto simp: same_place_def)
  obtain q where q: "on_loop k (loop_adjustTimer k \<lparr>tm_fd = fd, tm_expire = limit, tm_cb = None\<rparr>) s =
      Inr (s\<lparr>loops := (loops s)[k := (loops s ! k)\<lparr>el_timers := q\<rparr>]\<rparr>)"
    "server_inv limit {} (tasks s) (s\<lparr>loops := (loops s)[k := (loops s ! k)\<lparr>el_timers := q\<rparr>]\<rparr>)"
    using postpone_ok [OF inv(2) k] by blast
  let ?s = "s\<lparr>loops := (loops s)[k := (loops s ! k)\<lparr>el_timers := q\<rparr>]\<rparr>"
  have s0: "conn_at ?s fd i k" "conns ?s i = Some c" using at c by simp_all
  note s1 = set_conn_ok [OF q(2) s0 c1]
  let ?s1 = "(set_conn i c1 ?s)\<lparr>sv_app := a\<rparr>"
  have a1: "server_inv limit {} (tasks s) ?s1" "conn_at ?s1 fd i k" "conns ?s1 i = Some c1"
    using s1 by (auto simp: conn_at_def set_conn_def)
  note s2 = set_conn_ok [OF a1 msg(2,3)]
  let ?s2 = "set_conn i c2 ?s1"
  let ?ev = "EPOLLOUT OR kConnectionEvent"
  obtain s' where s': "rearm k i ?ev ?s2 = Inr s'" "server_inv limit {} (tasks s) s'" "moved k fd ?s2 s'"
    using rearm_ok [OF s2(1,2), of ?ev] by blast
  have e: "s' = (set_conn i (c2\<lparr>conn_channel := Some (ch\<lparr>ch_events := ?ev\<rparr>)\<rparr>) ?s2)
      \<lparr>loops := (loops ?s)[k := loop_modChannel fd ?ev i (loops ?s ! k)]\<rparr>"
    using s'(1) c2 k by (simp add: rearm_def conn_setEvents_def on_loop_def get_loop_def getFd_def set_conn_def)
  have own: "own_loop k c ?s = Inr k" "own_loop k c1 (set_conn i c1 ?s) = Inr k"
    using own_loop_ok [OF q(2) _ ch(4,5)] own_loop_ok [OF s1(1) conn_atD(3) [OF s1(2)], of c1 ch] c1(2) ch k
    by (simp_all add: same_place_def)
  have "onRecv h k now i ?s = Inr s'"
    using recv msg(1) own c s'(1) by (simp add: onRecv_def set_conn_def)
  then have "handleConnectionRead h k now i s = Inr s'"
    using q(1) inv(1) c ch own_loop_ok [OF inv(2) k ch(4,5)]
    by (simp add: handleConnectionRead_def postpone_then_def)
  moreover have "channel_dispatch EPOLLIN = Some Read_cb"
    by (simp add: channel_dispatch_def epoll_bits)
  ultimately have "handle_conn_event h k now i EPOLLIN s = Inr s'" using c by (simp add: handle_conn_event_def)
  moreover have "tasks s' = tasks s"
    using k by (intro tasks_eqI) (simp add: e set_conn_def map_same loop_modChannel_def map_update [symmetric])
  then have "server_ok timeout now s'"
    using s'(2) inv(1) tmo by (auto simp: server_ok_def e set_conn_def deadline_def)
  moreover have "el_epoll (loops s' ! k) fd = Some (?ev, i)" "sv_app s' = a" "length (loops s') = length (loops s)"
      "conns s' i = Some (c2\<lparr>conn_channel := Some (ch\<lparr>ch_events := ?ev\<rparr>)\<rparr>)"
    using reg k by (simp_all add: e set_conn_def loop_modChannel_def epoll_mod_def)
  ultimately show ?thesis by blast
qed

text \<open>A receive that ends with \<open>EAGAIN\<close>: the bytes are in the buffer and nothing else has changed.\<close>

lemma conn_recv_again:
  assumes "conn_ok c" "\<forall>t \<in> set ts. t \<noteq> []" "sk_reads (sock c) = map Read_bytes ts @ Read_error EAGAIN # as"
  shows "\<exists>st sk b. conn_recv c = Inr (st, c\<lparr>sock := sk, recver := b\<rparr>) \<and> st_type st = S_AGAIN \<and> buf_ok b \<and>
    readable b = readable (recver c) @ concat ts \<and> wire sk = wire (sock c) \<and> sk_writes sk = sk_writes (sock c) \<and>
    isBlocked sk = isBlocked (sock c) \<and> sk_fd sk = sk_fd (sock c)"
proof -
  have ok: "buf_ok (recver c)" "\<not> isBlocked (sock c)" using assms(1) by (simp_all add: conn_ok_def)
  obtain b' where r: "sock_recv (sock c) (recver c) = Inr (- 1, int (length (concat ts)),
      set_errno (Some EAGAIN) ((sock c)\<lparr>sk_reads := as\<rparr>), b')" "buf_ok b'" "readable b' = readable (recver c) @ concat ts"
    using recv_loop_all [OF ok assms(2), of "Read_error EAGAIN" as 0] unfolding sock_recv_def assms(3) by auto
  then show ?thesis
    by (intro exI [of _ "\<lparr>st_n = int (length (concat ts)), st_errorNo = EAGAIN, st_type = S_AGAIN\<rparr>"]
          exI [of _ "set_errno (Some EAGAIN) ((sock c)\<lparr>sk_reads := as\<rparr>)"] exI [of _ b'])
      (simp add: conn_recv_def recv_status_def set_errno_def)
qed

text \<open>A send when the kernel takes what it is given.\<close>

lemma conn_send_all:
  assumes "conn_ok c" "fileSender c = None" "readable (sender c) \<noteq> []" "\<forall>a \<in> set (sk_writes (sock c)). taking a"
    and "length (readable (sender c)) \<le> length (sk_writes (sock c))"
  shows "\<exists>st c'. conn_send c = Inr (st, c') \<and> st_type st = S_COMPLETED \<and> sent c' = sent c @ readable (sender c) \<and>
    keepAlive c' = keepAlive c \<and> conn_context c' = conn_context c"
proof -
  have p: "pending c = readable (sender c)" using assms(2) by (simp add: pending_def file_rest_def)
  then obtain st c' where r: "conn_send c = Inr (st, c')" "st_type st = S_COMPLETED" "sent c' = sent c @ readable (sender c)"
    using send_completes [of c] assms by auto
  obtain len n c1 len' n' where b: "send_buffered c = Inr (len, n, c1)" "send_file len n c1 = Inr (len', n', c')"
    using r(1) by (auto simp: conn_send_def rbind_Inr_conv)
  have "keepAlive c1 = keepAlive c \<and> conn_context c1 = conn_context c \<and> fileSender c1 = None"
    using b(1) assms(2) by (auto simp: send_buffered_def rbind_Inr_conv split: if_splits)
  then have "keepAlive c' = keepAlive c \<and> conn_context c' = conn_context c"
    using b(2) by (simp add: send_file_def)
  with r show ?thesis by blast
qed

section \<open>From the request on the wire to the closed connection\<close>


text \<open>A server with a servlet and a connection whose request arrives in two pieces.\<close>

definition serving_conn :: "body_json http_request connection" where
  "serving_conn = demo_conn\<lparr>sock := (setNonBlocking demo_sock)
     \<lparr>sk_reads := [Read_bytes ''GET /h'', Read_bytes (''i HTTP/1.1'' @ CRLF @ CRLF), Read_error EAGAIN],
      sk_writes := replicate 1000 (Written 1)\<rparr>\<rparr>"

definition serving_server :: "(body_json http_request, unit http_app, unit) server" where
  "serving_server = set_conn 0 serving_conn (demo_server demo_app)"

lemma serving_server_ok: "server_ok 10 0 serving_server"
proof -
  let ?d = "demo_server demo_app :: (body_json http_request, unit http_app, unit) server"
  obtain limit where inv: "deadline 0 ?d = Inr limit" "server_inv limit {} (tasks ?d) ?d"
    using reaches_now_ok [OF demo_reaches [of demo_app] order_refl clock_demo] by auto
  have "server_inv limit {} (tasks ?d) serving_server"
    unfolding serving_server_def
    by (rule server_inv_conn [OF inv(2), where c = demo_conn])
      (simp_all add: demo_server_def conn_ok_def getFd_def serving_conn_def demo_conn_def new_connection_def setNonBlocking_def)
  moreover have "tasks serving_server = tasks ?d"
    by (intro tasks_eqI) (simp add: serving_server_def set_conn_def)
  ultimately show ?thesis using inv(1)
    by (auto simp: server_ok_def serving_server_def set_conn_def deadline_def demo_server_def new_server_def)
qed


end
