(* ===== verification/JsonText.thy ===== *)
theory JsonText
  imports JsonParse
begin

text \<open>
  The rest of \<open>haha_web/haha_json/haha_json/jsonUtil.{h,cpp}\<close>: the character tests and the functions on
  raw pointers, which agree with the ones on views that the parser uses.
\<close>

section \<open>Character tests\<close>

definition isLetter :: "char \<Rightarrow> bool" where
  "isLetter c \<longleftrightarrow> (97 \<le> byte c \<and> byte c \<le> 122) \<or> (65 \<le> byte c \<and> byte c \<le> 90)"

definition isNumber_char :: "char \<Rightarrow> bool" where
  "isNumber_char c \<longleftrightarrow> 48 \<le> byte c \<and> byte c \<le> 57"

definition isOct :: "char \<Rightarrow> bool" where
  "isOct c \<longleftrightarrow> 48 \<le> byte c \<and> byte c \<le> 55"

definition isBin :: "char \<Rightarrow> bool" where
  "isBin c \<longleftrightarrow> c = CHR ''0'' \<or> c = CHR ''1''"

definition isExponent :: "char \<Rightarrow> bool" where
  "isExponent c \<longleftrightarrow> c = CHR ''e'' \<or> c = CHR ''E''"

definition is_blank :: "char \<Rightarrow> bool" where
  "is_blank c \<longleftrightarrow> c = CHR '' '' \<or> c = TAB \<or> c = CHR 0x0B"

definition isNewline :: "char \<Rightarrow> bool" where
  "isNewline c \<longleftrightarrow> c = LF"

definition is_valid_next_escape_character :: "char \<Rightarrow> bool" where
  "is_valid_next_escape_character c \<longleftrightarrow>
     c = CHR ''t'' \<or> c = CHR ''n'' \<or> c = CHR ''0'' \<or> c = CHR ''b'' \<or> c = CHR ''f'' \<or> c = CHR ''x'' \<or>
     c = CHR ''u'' \<or> c = CHR ''r'' \<or> c = DQUOTE \<or> c = BSLASH"

lemma binary_octal_decimal: "isBin c \<Longrightarrow> isOct c" "isOct c \<Longrightarrow> isNumber_char c" "isNumber_char c \<Longrightarrow> isHex c"
  by (auto simp: isBin_def isOct_def isNumber_char_def isHex_def isdigit_def)

lemma letters_and_digits: "isLetter c \<longleftrightarrow> isalpha c" "isNumber_char c \<longleftrightarrow> isdigit c"
  by (auto simp: isLetter_def isNumber_char_def ctype_defs)

text \<open>
  The escapes the parser takes are valid ones, but the escaped double quote, which is valid, is not taken.
\<close>

lemma taken_escape_is_valid:
  assumes "parse_escape (BSLASH # c # v) = Inr (Some r)"
  shows "is_valid_next_escape_character c"
  using assms by (auto simp: parse_escape_def is_valid_next_escape_character_def Let_def split: if_splits)

lemma quote_is_not_taken:
  "is_valid_next_escape_character DQUOTE \<and> parse_escape (BSLASH # DQUOTE # v) = Inr None"
  by (simp add: is_valid_next_escape_character_def parse_escape_def Let_def)

section \<open>Functions on raw pointers\<close>

text \<open>
  The bytes the pointer may be used for are a list, \<open>None\<close> is the null pointer; the result is the
  distance from the pointer, \<open>None\<close> for the null pointer.
\<close>

fun skip_ptr_loop :: "string \<Rightarrow> nat \<Rightarrow> nat \<Rightarrow> nat res" where
  "skip_ptr_loop mem i 0 = Inr i"
| "skip_ptr_loop mem i (Suc n) =
     (if \<not> i < length mem then Inl Undefined
      else if isCtrlAndSpace (mem ! i) then skip_ptr_loop mem (i + 1) n
      else Inr i)"

definition skip_CtrlAndSpace_ptr :: "string option \<Rightarrow> nat \<Rightarrow> nat \<Rightarrow> nat option res" where
  "skip_CtrlAndSpace_ptr str len offset =
     (case str of
        None \<Rightarrow> Inr None
      | Some mem \<Rightarrow>
          if len \<le> offset then Inr None
          else rbind (skip_ptr_loop mem offset (len - offset)) (\<lambda>i. Inr (Some i)))"

definition skip_utf8_bom_ptr :: "string option \<Rightarrow> nat \<Rightarrow> nat \<Rightarrow> nat option res" where
  "skip_utf8_bom_ptr str len offset =
     (case str of
        None \<Rightarrow> Inr None
      | Some mem \<Rightarrow>
          if len \<le> offset then Inr None
          else if len - offset < 3 then Inr (Some offset)
          else if length mem < offset + 3 then Inl Undefined
          else Inr (Some (if take 3 (drop offset mem) = utf8_bom then offset + 3 else offset)))"

fun hex4_ptr_loop :: "string \<Rightarrow> nat \<Rightarrow> nat \<Rightarrow> nat \<Rightarrow> nat res" where
  "hex4_ptr_loop mem i 0 h = Inr h"
| "hex4_ptr_loop mem i (Suc n) h =
     (if \<not> i < length mem then Inl Undefined
      else case hex4_digit (mem ! i) of
             None \<Rightarrow> Inr 0
           | Some d \<Rightarrow> hex4_ptr_loop mem (i + 1) n (if i < 3 then (h + d) * 16 else h + d))"

definition parse_hex4_ptr :: "string \<Rightarrow> nat res" where
  "parse_hex4_ptr mem = hex4_ptr_loop mem 0 4 0"

lemma skip_ptr_loop_view:
  "i + n \<le> length mem \<Longrightarrow>
   skip_ptr_loop mem i n = Inr (i + length (takeWhile isCtrlAndSpace (take n (drop i mem))))"
proof (induction mem i n rule: skip_ptr_loop.induct)
  case (2 mem i n)
  then have "drop i mem = mem ! i # drop (i + 1) mem" by (simp add: Cons_nth_drop_Suc)
  with 2 show ?case by simp
qed simp

lemma skip_utf8_bom_view:
  assumes "offset < len" "len \<le> length mem"
  shows "skip_utf8_bom (drop offset (take len mem)) =
    (if 3 \<le> len - offset \<and> take 3 (drop offset mem) = utf8_bom then drop (offset + 3) (take len mem)
     else drop offset (take len mem))"
proof -
  have "take 3 (drop offset (take len mem)) = take (min 3 (len - offset)) (drop offset mem)"
    by (simp add: drop_take)
  moreover have "length (take (min 3 (len - offset)) (drop offset mem)) = min 3 (len - offset)"
    using assms by simp
  moreover have "length utf8_bom = 3" by (simp add: utf8_bom_def)
  ultimately have e: "compare_prefix 3 utf8_bom (drop offset (take len mem)) \<longleftrightarrow>
      3 \<le> len - offset \<and> take 3 (drop offset mem) = utf8_bom"
    unfolding compare_prefix_def by (metis (no_types, lifting) min.absorb1 min.cobounded2)
  show ?thesis using assms by (simp add: skip_utf8_bom_def e add.commute)
qed

text \<open>On the bytes of a view both functions point to what the function on the view leaves.\<close>

lemma pointer_skips_as_view:
  assumes "offset < len" "len \<le> length mem"
  shows "\<exists>i. skip_CtrlAndSpace_ptr (Some mem) len offset = Inr (Some i) \<and>
      drop i (take len mem) = skip_CtrlAndSpace (drop offset (take len mem))"
    and "\<exists>i. skip_utf8_bom_ptr (Some mem) len offset = Inr (Some i) \<and>
      drop i (take len mem) = skip_utf8_bom (drop offset (take len mem))"
proof -
  let ?v = "drop offset (take len mem)"
  have v: "take (len - offset) (drop offset mem) = ?v" by (simp add: drop_take)
  have "skip_CtrlAndSpace ?v = drop (length (takeWhile isCtrlAndSpace ?v)) ?v"
    by (simp add: skip_CtrlAndSpace_def dropWhile_eq_drop)
  then show "\<exists>i. skip_CtrlAndSpace_ptr (Some mem) len offset = Inr (Some i) \<and>
      drop i (take len mem) = skip_CtrlAndSpace ?v"
    using assms skip_ptr_loop_view [of offset "len - offset" mem]
    by (intro exI [of _ "offset + length (takeWhile isCtrlAndSpace ?v)"])
      (simp add: skip_CtrlAndSpace_ptr_def v add.commute)
  show "\<exists>i. skip_utf8_bom_ptr (Some mem) len offset = Inr (Some i) \<and>
      drop i (take len mem) = skip_utf8_bom ?v"
    using assms skip_utf8_bom_view [OF assms]
    by (intro exI [of _ "if 3 \<le> len - offset \<and> take 3 (drop offset mem) = utf8_bom then offset + 3 else offset"])
      (auto simp: skip_utf8_bom_ptr_def)
qed

lemma hex4_ptr_view:
  assumes "4 \<le> length mem"
  shows "parse_hex4_ptr mem = Inr (parse_hex4 mem)"
proof -
  have four: "(4 :: nat) = Suc (Suc (Suc (Suc 0)))" by simp
  from assms obtain a b c d r where m: "mem = a # b # c # d # r"
    unfolding four by (auto simp: Suc_le_length_iff)
  show ?thesis
    unfolding m parse_hex4_ptr_def parse_hex4_def four
    by (cases "hex4_digit a"; cases "hex4_digit b"; cases "hex4_digit c"; cases "hex4_digit d") simp_all
qed

text \<open>The pointer version stays inside a text that ends with a NUL, however short: the NUL is no digit.\<close>

lemma hex4_ptr_stops:
  "i \<le> k \<Longrightarrow> k < length mem \<Longrightarrow> mem ! k = NUL \<Longrightarrow> \<exists>h'. hex4_ptr_loop mem i n h = Inr h'"
proof (induction mem i n h rule: hex4_ptr_loop.induct)
  case (2 mem i n h)
  have "hex4_digit NUL = None" by (simp add: hex4_digit_def isdigit_def)
  then show ?case using 2 by (cases "i = k") (auto split: option.split)
qed simp

end
