(* ===== verification/JsonFile.thy ===== *)
theory JsonFile
  imports JsonRoundTrip
begin

text \<open>
  \<open>haha_web/haha_json/haha_json/jsonBuffer.h\<close> and the reading and writing of files in \<open>json.cpp\<close>: a
  buffer with a cursor, filled from a file or a string, and what becomes of a value that is written
  to a file and of a file that is read.
\<close>

section \<open>The buffer\<close>

definition max_size :: int where "max_size = 4 * 1000 * 1000"

definition EOF_char :: char where "EOF_char = CHR 0xFF"

record json_buffer =
  sbuffer :: "string option"
  jb_ptr :: int
  jb_len :: int

definition empty_buffer :: json_buffer where
  "empty_buffer = \<lparr>sbuffer = None, jb_ptr = -1, jb_len = 0\<rparr>"

text \<open>
  \<open>new char[n]{0}\<close>: an array of \<open>n\<close> bytes must hold the one initialiser, otherwise
  \<open>std::bad_array_new_length\<close> is thrown.
\<close>

definition new_chars :: "int \<Rightarrow> string res" where
  "new_chars n = (if n < 1 then Inl (Raised (Logic_error ''bad_array_new_length'')) else Inr (replicate (nat n) NUL))"

text \<open>A file is its size and what reading it gives (less when it cannot be opened or has shrunk).\<close>

record json_file =
  jf_size :: nat
  jf_bytes :: string

definition int_of_size :: "nat \<Rightarrow> int" where
  "int_of_size n = (let m = int n mod 2 ^ 32 in if m < 2 ^ 31 then m else m - 2 ^ 32)"

definition readFile :: "json_file option \<Rightarrow> json_buffer \<Rightarrow> (bool \<times> json_buffer) res" where
  "readFile file b =
     (case file of
        None \<Rightarrow> Inr (False, b)
      | Some f \<Rightarrow>
          let fsz = int_of_size (jf_size f)
          in if fsz > max_size then Inl (Raised (Json_error ''unsupport file size bigger than 4M !!!''))
             else rbind (new_chars (fsz + 1)) (\<lambda>m.
               let t = take (nat fsz) (jf_bytes f)
               in Inr (True, b\<lparr>sbuffer := Some (t @ drop (length t) m), jb_ptr := -1, jb_len := fsz\<rparr>)))"

definition readString :: "string \<Rightarrow> json_buffer \<Rightarrow> json_buffer res" where
  "readString s b =
     rbind (new_chars (int (length s))) (\<lambda>m.
       Inr (b\<lparr>sbuffer := Some (s @ drop (length s) m), jb_ptr := -1, jb_len := int (length s)\<rparr>))"

text \<open>The buffer as a C string: it is read up to a NUL, which must be there.\<close>

definition c_text :: "string option \<Rightarrow> string res" where
  "c_text mem =
     (case mem of
        None \<Rightarrow> Inl Undefined
      | Some m \<Rightarrow> if NUL \<in> set m then Inr (takeWhile (\<lambda>c. c \<noteq> NUL) m) else Inl Undefined)"

text \<open>What \<open>writeFile\<close> leaves in the file; nothing without a buffer.\<close>

definition writeFile :: "json_buffer \<Rightarrow> string option res" where
  "writeFile b =
     (case sbuffer b of
        None \<Rightarrow> Inr None
      | Some m \<Rightarrow> rbind (c_text (Some m)) (\<lambda>t. Inr (Some t)))"

definition writeString :: "json_buffer \<Rightarrow> string res" where
  "writeString b = c_text (sbuffer b)"

section \<open>The cursor\<close>

definition jb_at :: "int \<Rightarrow> json_buffer \<Rightarrow> char res" where
  "jb_at i b =
     (case sbuffer b of
        None \<Rightarrow> Inl Undefined
      | Some m \<Rightarrow> if 0 \<le> i \<and> nat i < length m then Inr (m ! nat i) else Inl Undefined)"

definition jb_cur :: "json_buffer \<Rightarrow> char res" where
  "jb_cur b = (if jb_ptr b \<le> -1 \<or> jb_len b \<le> jb_ptr b then Inr EOF_char else jb_at (jb_ptr b) b)"

definition jb_get :: "json_buffer \<Rightarrow> (char \<times> json_buffer) res" where
  "jb_get b =
     (let b = b\<lparr>jb_ptr := jb_ptr b + 1\<rparr>
      in if jb_len b \<le> jb_ptr b then Inr (EOF_char, b)
         else rbind (jb_at (jb_ptr b) b) (\<lambda>c. Inr (c, b)))"

definition jb_backc :: "json_buffer \<Rightarrow> char res" where
  "jb_backc b = (if jb_ptr b - 1 < 0 then Inr EOF_char else jb_at (jb_ptr b - 1) b)"

definition jb_back :: "json_buffer \<Rightarrow> json_buffer" where
  "jb_back b = b\<lparr>jb_ptr := jb_ptr b - 1\<rparr>"

definition jb_peek :: "json_buffer \<Rightarrow> char res" where
  "jb_peek b = (if jb_len b \<le> jb_ptr b + 1 then Inr EOF_char else jb_at (jb_ptr b + 1) b)"

definition jb_geteq :: "int \<Rightarrow> json_buffer \<Rightarrow> ((bool \<times> char) \<times> json_buffer) res" where
  "jb_geteq c b =
     rbind (jb_get b) (\<lambda>(x, b).
       let r = char_of (nat (c mod 256))
       in if schar x = c then Inr ((True, r), b) else Inr ((False, r), jb_back b))"

fun gets_loop :: "nat \<Rightarrow> string \<Rightarrow> json_buffer \<Rightarrow> (string \<times> json_buffer) res" where
  "gets_loop 0 s b = Inr (s, b)"
| "gets_loop (Suc n) s b = rbind (jb_get b) (\<lambda>(c, b). gets_loop n (s @ [c]) b)"

definition jb_gets :: "int \<Rightarrow> json_buffer \<Rightarrow> (string \<times> json_buffer) res" where
  "jb_gets count b = gets_loop (nat count) [] b"

definition jb_eof :: "json_buffer \<Rightarrow> bool" where
  "jb_eof b \<longleftrightarrow> jb_ptr b > jb_len b - 1"

definition jb_reset :: "json_buffer \<Rightarrow> json_buffer" where
  "jb_reset b = b\<lparr>jb_ptr := -1\<rparr>"

definition jb_clear :: "json_buffer \<Rightarrow> json_buffer res" where
  "jb_clear b =
     (let b = jb_reset b
      in case sbuffer b of
           None \<Rightarrow> Inl Undefined
         | Some m \<Rightarrow> Inr (b\<lparr>sbuffer := Some (replicate (nat (jb_len b)) NUL @ drop (nat (jb_len b)) m)\<rparr>))"

definition to_stringview :: "json_buffer \<Rightarrow> string res" where
  "to_stringview b =
     (case sbuffer b of
        None \<Rightarrow> if jb_len b = 0 then Inr [] else Inl Undefined
      | Some m \<Rightarrow> if nat (jb_len b) \<le> length m then Inr (take (nat (jb_len b)) m) else Inl Undefined)"

text \<open>A filled buffer holds a text; the cursor walks over it.\<close>

definition jb_holds :: "string \<Rightarrow> json_buffer \<Rightarrow> bool" where
  "jb_holds t b \<longleftrightarrow> (\<exists>m. sbuffer b = Some (t @ m)) \<and> jb_len b = int (length t)"

lemma readString_holds: "s \<noteq> [] \<Longrightarrow> \<exists>b'. readString s b = Inr b' \<and> jb_holds s b' \<and> sbuffer b' = Some s \<and> jb_ptr b' = -1"
  by (cases s) (auto simp: readString_def new_chars_def jb_holds_def)

lemma readString_empty: "readString [] b = Inl (Raised (Logic_error ''bad_array_new_length''))"
  by (simp add: readString_def new_chars_def)

lemma readFile_holds:
  assumes "jf_size f = length (jf_bytes f)" "int (jf_size f) \<le> max_size"
  shows "\<exists>b'. readFile (Some f) b = Inr (True, b') \<and> jb_holds (jf_bytes f) b' \<and> jb_ptr b' = -1"
proof -
  have "int_of_size (jf_size f) = int (jf_size f)"
    using assms(2) by (simp add: int_of_size_def max_size_def)
  then show ?thesis using assms by (auto simp: readFile_def new_chars_def jb_holds_def Let_def)
qed

lemma holds_view: "jb_holds t b \<Longrightarrow> to_stringview b = Inr t"
  by (auto simp: jb_holds_def to_stringview_def)

text \<open>Any number of \<open>get\<close>s, from any place the cursor can reach without going back beyond the start.\<close>

lemma jb_get_holds:
  assumes "jb_holds t b" "-1 \<le> jb_ptr b"
  shows "jb_get b = Inr (if nat (jb_ptr b + 1) < length t then t ! nat (jb_ptr b + 1) else EOF_char, b\<lparr>jb_ptr := jb_ptr b + 1\<rparr>)"
  using assms by (auto simp: jb_get_def jb_at_def jb_holds_def nth_append Let_def)

lemma jb_get_back:
  assumes "jb_holds t b" "-1 \<le> jb_ptr b" "jb_get b = Inr (c, b')"
  shows "jb_back b' = b"
  using assms by (auto simp: jb_get_holds jb_back_def)

lemma gets_loop_holds:
  assumes "jb_holds t b" "jb_ptr b = int p - 1"
  shows "gets_loop n s b = Inr (s @ take n (drop p t) @ replicate (n - (length t - p)) EOF_char, b\<lparr>jb_ptr := jb_ptr b + int n\<rparr>)"
  using assms
proof (induction n arbitrary: s b p)
  case (Suc n)
  let ?b = "b\<lparr>jb_ptr := jb_ptr b + 1\<rparr>"
  let ?c = "if p < length t then t ! p else EOF_char"
  have g: "jb_get b = Inr (?c, ?b)" using jb_get_holds [OF Suc.prems(1)] Suc.prems(2) by simp
  have "jb_holds t ?b" "jb_ptr ?b = int (Suc p) - 1" using Suc.prems by (simp_all add: jb_holds_def)
  from Suc.IH [OF this, of "s @ [?c]"] g
  have "gets_loop (Suc n) s b = Inr ((s @ [?c]) @ take n (drop (Suc p) t) @ replicate (n - (length t - Suc p)) EOF_char,
      b\<lparr>jb_ptr := jb_ptr b + 1 + int n\<rparr>)" by simp
  moreover have "[?c] @ take n (drop (Suc p) t) @ replicate (n - (length t - Suc p)) EOF_char =
      take (Suc n) (drop p t) @ replicate (Suc n - (length t - p)) EOF_char"
  proof (cases "p < length t")
    case True
    then have "drop p t = t ! p # drop (Suc p) t" by (simp add: Cons_nth_drop_Suc)
    with True show ?thesis by (simp add: Suc_diff_Suc)
  qed simp
  ultimately show ?case by (simp add: algebra_simps)
qed simp

lemma gets_from_start:
  assumes "jb_holds t b" "jb_ptr b = -1" "0 \<le> n"
  shows "\<exists>b'. jb_gets n b = Inr (take (nat n) t @ replicate (nat n - length t) EOF_char, b')"
  using gets_loop_holds [OF assms(1), of 0 "nat n" "[]"] assms(2) by (simp add: jb_gets_def)

text \<open>The end is told by a byte that may also be in the text; the cursor may be taken out of the array.\<close>

lemma end_is_ambiguous:
  "jb_cur \<lparr>sbuffer = Some [EOF_char], jb_ptr = 0, jb_len = 1\<rparr> = jb_cur \<lparr>sbuffer = Some [EOF_char], jb_ptr = 1, jb_len = 1\<rparr>"
  by (simp add: jb_cur_def jb_at_def)

lemma back_before_start:
  "jb_get (jb_back (jb_back \<lparr>sbuffer = Some ''a'', jb_ptr = -1, jb_len = 1\<rparr>)) = Inl Undefined"
  by (simp add: jb_get_def jb_back_def jb_at_def)

section \<open>Files\<close>

definition fromFile :: "json_file option \<Rightarrow> json option res" where
  "fromFile file =
     rbind (readFile file empty_buffer) (\<lambda>(_, b). rbind (to_stringview b) parse)"

definition toFile :: "json \<Rightarrow> JsonFormatType \<Rightarrow> string option res" where
  "toFile js fmt =
     rbind (readString (json_toString fmt 0 js) empty_buffer) writeFile"

lemma file_with_text:
  assumes "json_wf v" "printable v" "length (json_toString fmt d v) \<le> 4000000"
  shows "fromFile (Some \<lparr>jf_size = length (json_toString fmt d v), jf_bytes = json_toString fmt d v\<rparr>) = Inr (Some v)"
proof -
  let ?f = "\<lparr>jf_size = length (json_toString fmt d v), jf_bytes = json_toString fmt d v\<rparr>"
  obtain b where "readFile (Some ?f) empty_buffer = Inr (True, b)" "jb_holds (json_toString fmt d v) b"
    using readFile_holds [of ?f empty_buffer] assms(3) by (auto simp: max_size_def)
  then show ?thesis using parse_printed [OF assms(1,2)] by (simp add: fromFile_def holds_view)
qed

text \<open>What the printer writes can be read back from a file: a file of at most 4,000,000 bytes with
  the printed text of a well-formed value, in any format, gives the value.\<close>

theorem json_file_roundtrip:
  assumes "json_wf v" "printable v" "length (json_toString fmt d v) \<le> 4000000"
  shows "fromFile (Some \<lparr>jf_size = length (json_toString fmt d v), jf_bytes = json_toString fmt d v\<rparr>) = Inr (Some v)"
  using assms by (rule file_with_text)

lemma printed_not_empty: "json_toString fmt d v \<noteq> []"
  by (cases v) (auto simp: string_toString_def int_to_string_def double_to_string_def Let_def)


theorem json_file_roundtrip_witness:
  "fromFile (Some \<lparr>jf_size = length (json_toString SPACE 0 (JsonArray [JsonInteger (-1), JsonString ''a''])),
      jf_bytes = json_toString SPACE 0 (JsonArray [JsonInteger (-1), JsonString ''a''])\<rparr>) =
   Inr (Some (JsonArray [JsonInteger (-1), JsonString ''a'']))"
  by (rule json_file_roundtrip)
    (simp_all add: string_toString_def escape_char_def schar_def new_line_def closing_def int_to_string_def nat_to_string.simps)

text \<open>C23: \<open>toFile\<close> never writes the whole text of a value: the buffer has no room for the NUL that ends
  a C string, so without a NUL in the text it is read beyond its end, and with one the file ends there.\<close>

theorem toFile_never_complete:
  "toFile v fmt =
     (if NUL \<in> set (json_toString fmt 0 v)
      then Inr (Some (takeWhile (\<lambda>c. c \<noteq> NUL) (json_toString fmt 0 v))) else Inl Undefined) \<and>
   toFile v fmt \<noteq> Inr (Some (json_toString fmt 0 v))"
proof -
  let ?t = "json_toString fmt 0 v"
  obtain b where "readString ?t empty_buffer = Inr b" "sbuffer b = Some ?t"
    using readString_holds [OF printed_not_empty] by blast
  then have "toFile v fmt = (if NUL \<in> set ?t then Inr (Some (takeWhile (\<lambda>c. c \<noteq> NUL) ?t)) else Inl Undefined)"
    by (simp add: toFile_def writeFile_def c_text_def)
  moreover have "NUL \<in> set ?t \<Longrightarrow> takeWhile (\<lambda>c. c \<noteq> NUL) ?t \<noteq> ?t"
    by (metis (mono_tags, lifting) set_takeWhileD)
  ultimately show ?thesis by simp
qed

text \<open>A file that is too large is refused; one of more than \<open>2^31\<close> bytes is not recognised as such.\<close>

lemma large_file_refused:
  assumes "4000000 < jf_size f" "jf_size f < 2 ^ 31"
  shows "fromFile (Some f) = Inl (Raised (Json_error ''unsupport file size bigger than 4M !!!''))"
  using assms by (simp add: fromFile_def readFile_def int_of_size_def max_size_def Let_def)

lemma huge_file_size_wraps: "int_of_size (2 ^ 32 + 5) = 5" "int_of_size (2 ^ 31) = - (2 ^ 31)"
  by (simp_all add: int_of_size_def)

text \<open>A file that does not exist is parsed as an empty text, which gives the null pointer.\<close>

lemma missing_file: "fromFile None = Inr None"
proof -
  have "parse [] = Inr None" by code_simp
  then show ?thesis by (simp add: fromFile_def readFile_def empty_buffer_def to_stringview_def)
qed

end
