(* ===== verification/HttpTest.thy ===== *)
theory HttpTest
  imports HttpRequestSpec
begin

text \<open>
  \<open>haha_web/http/HttpTest.{h,cpp}\<close>: the generator of random requests the parser is tested with. The
  answers of \<open>rand\<close> are a function of the number of the call, which is passed along;
  \<open>std::random_shuffle\<close> is an argument.
\<close>

type_synonym rands = "nat \<Rightarrow> nat"

section \<open>Random strings\<close>

definition alpha :: string where
  "alpha = ''0123456789abcdefghijklmnopqrstuvwxyzABCDEFGHIJKLMNOPQRSTUVWXYZ '' @ CRLF @ ''*~&;=''"

fun genRandomStr :: "rands \<Rightarrow> nat \<Rightarrow> nat \<Rightarrow> string \<times> nat" where
  "genRandomStr rand 0 k = ([], k)"
| "genRandomStr rand (Suc n) k =
     (let (s, k') = genRandomStr rand n (k + 1) in (alpha ! (rand k mod 62) # s, k'))"

definition genRandomKVStr :: "rands \<Rightarrow> nat \<Rightarrow> string \<Rightarrow> string \<Rightarrow> bool \<Rightarrow> nat \<Rightarrow> (string \<times> nat) res" where
  "genRandomKVStr rand n join split urlencode k =
     (if \<not> length join + length split + 2 \<le> n then Inl Assertion
      else let n = n - (length join + length split);
               n1 = rand k mod (n - 1) + 1;
               n2 = n - n1;
               (key, k) = genRandomStr rand n1 (k + 1);
               (val, k) = genRandomStr rand n2 k;
               key = (if urlencode then urlEncode key else key);
               val = (if urlencode then urlEncode val else val)
           in Inr (key @ join @ val @ split, k))"

text \<open>The loop of \<open>genRandomKVStrs\<close>: \<open>i\<close> bytes are still to be made.\<close>

function kvs_loop :: "rands \<Rightarrow> string \<Rightarrow> string \<Rightarrow> bool \<Rightarrow> nat \<Rightarrow> string \<Rightarrow> nat \<Rightarrow> (string \<times> nat) res" where
  "kvs_loop rand join split urlencode i acc k =
     (if i = 0 then Inr (acc, k)
      else let min_kv_sz = length join + length split + 2;
               (kv_sz, k) = (if i < min_kv_sz * 2 then (i, k)
                             else (min (max (rand k mod i + 1) min_kv_sz) (i - min_kv_sz), k + 1))
           in rbind (genRandomKVStr rand kv_sz join split urlencode k) (\<lambda>(kv, k).
                kvs_loop rand join split urlencode (i - kv_sz) (acc @ kv) k))"
  by pat_completeness auto
termination
  by (relation "measure (\<lambda>(r, jn, sp, u, i, acc, k). i)") (auto split: if_splits)

declare kvs_loop.simps [simp del]

definition genRandomKVStrs :: "rands \<Rightarrow> nat \<Rightarrow> string \<Rightarrow> string \<Rightarrow> bool \<Rightarrow> nat \<Rightarrow> (string \<times> nat) res" where
  "genRandomKVStrs rand n join split urlencode k =
     (if \<not> length join + length split + 2 \<le> n then Inl Assertion
      else kvs_loop rand join split urlencode n [] k)"

text \<open>Cutting a string into pieces; a limit of 0 is a division by zero.\<close>

function randomSplitStr :: "rands \<Rightarrow> nat \<Rightarrow> string \<Rightarrow> nat \<Rightarrow> string list res" where
  "randomSplitStr rand limit view k =
     (if view = [] then Inr []
      else if limit = 0 then Inl Undefined
      else let i = rand k mod min (length view) limit + 1
           in rbind (randomSplitStr rand limit (drop i view) (k + 1)) (\<lambda>ps. Inr (take i view # ps)))"
  by pat_completeness auto
termination
  by (relation "measure (\<lambda>(r, l, v, k). length v)") auto

declare randomSplitStr.simps [simp del]

section \<open>Random requests\<close>

definition pick :: "rands \<Rightarrow> 'a list \<Rightarrow> nat \<Rightarrow> 'a" where
  "pick rand xs k = xs ! (rand k mod length xs)"

definition test_querys :: "string list" where
  "test_querys =
     [ ''sl=zh-CN&tl=en&text=%E9%92%A6%E4%BD%A9&op=translate'',
      ''q=c%2B%2B11+'' @ [CHR 0xE9, CHR 0x9A, CHR 0x8F, CHR 0xE6, CHR 0x9C, CHR 0xBA, CHR 0xE6, CHR 0x95, CHR 0xB0] @ ''&newwindow=1&sxsrf=ALiCzsbwl4fBbYQ780AY5kSKXzsHro4EJQ%3A1654172383021'',
      ''wd='' @ [CHR 0xE5, CHR 0xB9, CHR 0xB4, CHR 0xE5, CHR 0x90, CHR 0x8E] @ ''&rsv_spt=1&rsv_iqid=0xa99b55fa00000d7b'']"

definition create_random_RequestLine :: "rands \<Rightarrow> nat \<Rightarrow> string \<times> nat" where
  "create_random_RequestLine rand k =
     (let meth = pick rand [''GET'', ''POST'', ''HEAD''] k;
          url = pick rand [''http'', ''https''] (k + 1) @ ''://'';
          url = url @ ''www.'' @ pick rand [''baidu'', ''google'', ''taobao''] (k + 2) @ ''.com'';
          with_port = (rand (k + 3) mod 2 \<noteq> 0);
          url = url @ (if with_port then '':'' @ pick rand [''8080''] (k + 4) else []);
          k = (if with_port then k + 5 else k + 4);
          url = url @ pick rand [''/'', ''/file'', ''/search'', ''/can/can/need''] k;
          url = url @ ''?'' @ pick rand test_querys (k + 1);
          version = pick rand [''HTTP/1.0'', ''HTTP/1.1'', ''HTTP/2.0''] (k + 2)
      in (meth @ '' '' @ url @ '' '' @ version @ CRLF, k + 3))"

definition test_cookies :: "string list" where
  "test_cookies =
      [''reg_fb_gate=deleted; key3=14; Expires=Thu, 01 Jan 1970 00:00:01 GMT; Path=/; Domain=.example.com; HttpOnly; name=lfr'',
       ''BAIDU_SSP_lcr=https://www.google.com.hk/; uuid_tt_dd=10_21113699420-1615529077584-850075; UN=oto222333;'',
       ''prov=eb25da02-1e8f-5345-e936-4c70b050a938; _ga=GA1.2.361922288.1617852921; OptanonAlertBoxClosed=2021-06-06T01:31:51.310Z; __qca=P0-1960564160-1622946794364'']"

definition fields_map :: "string \<Rightarrow> string \<Rightarrow> string \<Rightarrow> string list" where
  "fields_map body content_type field =
     (if field = ''Content-Length'' then [nat_to_string (length body)]
      else if field = ''Transfer-Encoding'' then [''chunked'']
      else if field = ''Accept-Encoding'' then [''gzip'']
      else if field = ''Content-Type'' then [content_type]
      else if field = ''Connection'' then [''Close'', ''Keep-Alive'', ''keep-Alive'', ''close'']
      else if field = ''Cookie'' then test_cookies
      else if field = ''Funny'' then [''joy'', ''boy'']
      else [])"

fun header_fields :: "rands \<Rightarrow> string \<Rightarrow> string \<Rightarrow> string list \<Rightarrow> nat \<Rightarrow> string \<times> nat" where
  "header_fields rand body content_type [] k = ([], k)"
| "header_fields rand body content_type (f # fs) k =
     (let v = pick rand (fields_map body content_type f) k;
          (h, k') = header_fields rand body content_type fs (k + 1)
      in (f @ '': '' @ v @ CRLF @ h, k'))"

definition create_random_RequestHeader ::
  "rands \<Rightarrow> (string list \<Rightarrow> string list) \<Rightarrow> string \<Rightarrow> string \<Rightarrow> bool \<Rightarrow> nat \<Rightarrow> string \<times> nat" where
  "create_random_RequestHeader rand shuffle body content_type chunked k =
     (let fields = ''Content-Length'' # (if chunked then [''Transfer-Encoding''] else []) @
                   [''Accept-Encoding'', ''Content-Type'', ''Connection'', ''Cookie''];
          (h, k) = header_fields rand body content_type (shuffle fields) k
      in (h @ CRLF, k))"

text \<open>The chunks, with the counter of \<open>while(n--)\<close>.\<close>

fun chunk_loop :: "rands \<Rightarrow> string \<Rightarrow> nat \<Rightarrow> string \<Rightarrow> nat \<Rightarrow> (string \<times> nat) res" where
  "chunk_loop rand content_type 0 body k = Inr (body, k)"
| "chunk_loop rand content_type (Suc n) body k =
     (let ck_sz = max 4 (rand k mod 50 + 1)
      in rbind (if content_type = ''application/x-www-form-urlencoded''
                then genRandomKVStrs rand ck_sz ''='' ''&'' True (k + 1)
                else if content_type = ''text/plain''
                then genRandomKVStrs rand ck_sz ''='' ''&'' False (k + 1)
                else Inr ([], k + 1)) (\<lambda>(chunk, k).
           chunk_loop rand content_type n (body @ int2HexString (int ck_sz) @ CRLF @ chunk @ CRLF) k))"

definition create_random_RequestBody :: "rands \<Rightarrow> nat \<Rightarrow> ((string \<times> string \<times> bool) \<times> nat) res" where
  "create_random_RequestBody rand k =
     (let chunked = (rand k mod 2 \<noteq> 0);
          content_type = (if rand (k + 1) mod 5 = 0 then ''application/x-www-form-urlencoded'' else ''text/plain'')
      in rbind
           (if chunked
            then rbind (chunk_loop rand content_type (rand (k + 2) mod 5 + 1) [] (k + 3)) (\<lambda>(body, k).
                   Inr (body @ ''0'' @ CRLF @ CRLF, k))
            else genRandomKVStrs rand (max 4 (rand (k + 2) mod 150)) ''='' ''&''
                   (content_type = ''application/x-www-form-urlencoded'') (k + 3)) (\<lambda>(body, k).
         Inr ((body, content_type, chunked), k)))"

definition RandomHttpRequestString :: "rands \<Rightarrow> (string list \<Rightarrow> string list) \<Rightarrow> string res" where
  "RandomHttpRequestString rand shuffle =
     rbind (create_random_RequestBody rand 0) (\<lambda>((body, content_type, chunked), k).
       let (header, k) = create_random_RequestHeader rand shuffle body content_type chunked k;
           (line, k) = create_random_RequestLine rand k
       in Inr (line @ header @ body))"

section \<open>What the generator makes\<close>

lemma alpha_alnum: "j < 62 \<Longrightarrow> isalnum (alpha ! j)"
proof -
  have "list_all (\<lambda>j. isalnum (alpha ! j)) [0..<62]" by code_simp
  then show "j < 62 \<Longrightarrow> isalnum (alpha ! j)" by (simp add: list_all_iff)
qed

lemma genRandomStr_alnum:
  "length (fst (genRandomStr rand n k)) = n \<and> (\<forall>c \<in> set (fst (genRandomStr rand n k)). isalnum c)"
  by (induction n arbitrary: k) (auto simp: case_prod_beta Let_def alpha_alnum)

lemma urlEncode_alnum: "\<forall>c \<in> set s. isalnum c \<Longrightarrow> urlEncode s = s"
  by (induction s) (auto simp: urlEncode_def urlEncode_char_def url_unreserved_def)

lemma length_random [simp]: "length (fst (genRandomStr rand n k)) = n"
  and urlEncode_random [simp]: "urlEncode (fst (genRandomStr rand n k)) = fst (genRandomStr rand n k)"
  using genRandomStr_alnum urlEncode_alnum by blast+

declare genRandomStr.simps [simp del]

lemma genRandomKVStr_length:
  assumes "length join + length split + 2 \<le> n"
  shows "\<exists>kv k'. genRandomKVStr rand n join split urlencode k = Inr (kv, k') \<and> length kv = n"
proof -
  let ?n = "n - (length join + length split)"
  let ?n1 = "rand k mod (?n - 1) + 1"
  have "?n1 \<le> ?n" using assms mod_less_divisor [of "?n - 1" "rand k"] by linarith
  then show ?thesis
    using assms by (simp add: genRandomKVStr_def Let_def case_prod_beta)
qed

lemma kvs_loop_length:
  "i = 0 \<or> length join + length split + 2 \<le> i \<Longrightarrow>
   \<exists>s k'. kvs_loop rand join split urlencode i acc k = Inr (acc @ s, k') \<and> length s = i"
proof (induction i arbitrary: acc k rule: less_induct)
  case (less i)
  let ?m = "length join + length split + 2"
  show ?case
  proof (cases "i = 0")
    case False
    define p where "p = (if i < ?m * 2 then (i, k) else (min (max (rand k mod i + 1) ?m) (i - ?m), k + 1))"
    obtain z k1 where z: "p = (z, k1)" by (cases p)
    have zi: "?m \<le> z" "z \<le> i" "i - z = 0 \<or> ?m \<le> i - z"
      using z False less.prems by (auto simp: p_def split: if_splits)
    obtain kv k2 where kv: "genRandomKVStr rand z join split urlencode k1 = Inr (kv, k2)" "length kv = z"
      using genRandomKVStr_length [OF zi(1)] by blast
    have "i - z < i" using zi False by linarith
    from less.IH [OF this zi(3), of "acc @ kv" k2]
    obtain s k' where s: "kvs_loop rand join split urlencode (i - z) (acc @ kv) k2 = Inr ((acc @ kv) @ s, k')"
        "length s = i - z" by blast
    have "kvs_loop rand join split urlencode i acc k =
        (case p of (z, k) \<Rightarrow> rbind (genRandomKVStr rand z join split urlencode k) (\<lambda>(kv, k).
           kvs_loop rand join split urlencode (i - z) (acc @ kv) k))"
      using False by (subst kvs_loop.simps) (simp only: if_False Let_def p_def)
    then have "kvs_loop rand join split urlencode i acc k = Inr (acc @ (kv @ s), k')"
      using z kv(1) s(1) by simp
    with kv(2) s(2) zi(2) show ?thesis by (intro exI [of _ "kv @ s"]) auto
  qed (auto simp: kvs_loop.simps)
qed

lemma genRandomKVStrs_length:
  assumes "length join + length split + 2 \<le> n"
  shows "\<exists>s k'. genRandomKVStrs rand n join split urlencode k = Inr (s, k') \<and> length s = n"
  using kvs_loop_length [of n join split rand urlencode "[]" k] assms by (auto simp: genRandomKVStrs_def)

lemma chunk_loop_chunks:
  assumes "ct = ''application/x-www-form-urlencoded'' \<or> ct = ''text/plain''"
  shows "\<exists>ds k'. chunk_loop rand ct n body k = Inr (body @ concat (map chunk_text ds), k') \<and> length ds = n \<and>
    (\<forall>d \<in> set ds. 4 \<le> length d \<and> length d \<le> 50)"
proof (induction n arbitrary: body k)
  case (Suc n)
  let ?z = "max 4 (rand k mod 50 + 1)"
  have z: "length ''='' + length ''&'' + 2 \<le> ?z" "?z \<le> 50"
    using mod_less_divisor [of 50 "rand k"] by simp_all
  let ?e = "ct = ''application/x-www-form-urlencoded''"
  obtain d k1 where d: "genRandomKVStrs rand ?z ''='' ''&'' ?e (k + 1) = Inr (d, k1)" "length d = ?z"
    using genRandomKVStrs_length [OF z(1), of rand ?e "k + 1"] by blast
  obtain ds k2 where ds: "chunk_loop rand ct n (body @ chunk_text d) k1 =
      Inr ((body @ chunk_text d) @ concat (map chunk_text ds), k2)" "length ds = n"
      "\<forall>d \<in> set ds. 4 \<le> length d \<and> length d \<le> 50"
    using Suc by blast
  have "chunk_loop rand ct (Suc n) body k = Inr (body @ concat (map chunk_text (d # ds)), k2)"
    using assms d ds(1) by (elim disjE) (simp_all add: Let_def chunk_text_def)
  then show ?case using ds(2,3) d(2) z(2) by (intro exI [of _ "d # ds"]) auto
qed simp

lemma random_body:
  "\<exists>body ct ch k'. create_random_RequestBody rand k = Inr ((body, ct, ch), k') \<and>
     (ch \<longrightarrow> (\<exists>ds. body = chunks_text ds \<and> 1 \<le> length ds \<and> length ds \<le> 5 \<and> (\<forall>d \<in> set ds. 4 \<le> length d \<and> length d \<le> 50))) \<and>
     (\<not> ch \<longrightarrow> 4 \<le> length body \<and> length body < 150)"
proof -
  define ct where "ct = (if rand (k + 1) mod 5 = 0 then ''application/x-www-form-urlencoded'' else ''text/plain'')"
  have ct: "ct = ''application/x-www-form-urlencoded'' \<or> ct = ''text/plain''" by (simp add: ct_def)
  show ?thesis
  proof (cases "rand k mod 2 \<noteq> 0")
    case True
    let ?n = "rand (k + 2) mod 5 + 1"
    obtain ds k' where ds: "chunk_loop rand ct ?n [] (k + 3) = Inr ([] @ concat (map chunk_text ds), k')" "length ds = ?n"
        "\<forall>d \<in> set ds. 4 \<le> length d \<and> length d \<le> 50"
      using chunk_loop_chunks [OF ct] by blast
    have "create_random_RequestBody rand k = Inr ((chunks_text ds, ct, True), k')"
      using True ds(1)
      unfolding create_random_RequestBody_def Let_def ct_def [symmetric] chunks_text_def
      by (simp del: chunk_loop.simps)
    moreover have "?n \<le> 5" using mod_less_divisor [of 5 "rand (k + 2)"] by linarith
    ultimately show ?thesis using ds(2,3) by fastforce
  next
    case False
    let ?z = "max 4 (rand (k + 2) mod 150)"
    have z: "length ''='' + length ''&'' + 2 \<le> ?z" "?z < 150"
      using mod_less_divisor [of 150 "rand (k + 2)"] by auto
    obtain body k' where b: "genRandomKVStrs rand ?z ''='' ''&'' (ct = ''application/x-www-form-urlencoded'') (k + 3) = Inr (body, k')"
        "length body = ?z"
      using genRandomKVStrs_length [OF z(1)] by blast
    have "create_random_RequestBody rand k = Inr ((body, ct, False), k')"
      using False b(1) unfolding create_random_RequestBody_def Let_def ct_def [symmetric] by simp
    then show ?thesis using b(2) z(2) by fastforce
  qed
qed

text \<open>C28: whatever \<open>rand\<close> answers, the generator of test bodies returns without a failing assertion; a
  chunked body it makes is read by the request parser completely: the parser answers with the
  concatenation of its one to five chunks and leaves what follows the body unread.\<close>

theorem random_body_decoded:
  "\<exists>body ct ch k. create_random_RequestBody rand 0 = Inr ((body, ct, ch), k) \<and>
     (ch \<longrightarrow> (\<exists>ds. body = chunks_text ds \<and> 1 \<le> length ds \<and> length ds \<le> 5 \<and> (\<forall>d \<in> set ds. 4 \<le> length d \<and> length d \<le> 50) \<and>
       (\<forall>b rest. buf_ok b \<longrightarrow> readable b = body @ rest \<longrightarrow> length (readable b) < 2 ^ 31 \<longrightarrow>
         (\<exists>b' r'. parseChunked b (new_request :: 's http_request) = Inr (OK_REQUEST, b', r') \<and> readable b' = rest \<and>
            r_body r' = concat ds))))"
proof -
  obtain body ct ch k where c: "create_random_RequestBody rand 0 = Inr ((body, ct, ch), k)"
      "ch \<longrightarrow> (\<exists>ds. body = chunks_text ds \<and> 1 \<le> length ds \<and> length ds \<le> 5 \<and> (\<forall>d \<in> set ds. 4 \<le> length d \<and> length d \<le> 50))"
    using random_body [of rand 0] by blast
  have "\<exists>b' r'. parseChunked b (new_request :: 's http_request) = Inr (OK_REQUEST, b', r') \<and> readable b' = rest \<and> r_body r' = concat ds"
    if "\<forall>d \<in> set ds. 4 \<le> length d \<and> length d \<le> 50" "buf_ok b" "readable b = chunks_text ds @ rest" "length (readable b) < 2 ^ 31"
    for ds b rest
  proof -
    have "\<forall>d \<in> set ds. chunk_ok d" using that(1) by (fastforce simp: chunk_ok_def)
    from chunks_decoded [OF this _ that(2-4), of "new_request :: 's http_request"]
    show ?thesis by (auto simp: new_request_def)
  qed
  with c show ?thesis by blast
qed

definition ones :: rands where "ones = (\<lambda>_. 1)"

theorem random_body_decoded_witness:
  "\<exists>b' r'. parseChunked (full_buffer (chunks_text [''1=1&'', ''1=1&''] @ ''GET'')) (new_request :: unit http_request) =
     Inr (OK_REQUEST, b', r') \<and> readable b' = ''GET'' \<and> r_body r' = ''1=1&1=1&''"
proof -
  have e: "create_random_RequestBody ones 0 = Inr ((chunks_text [''1=1&'', ''1=1&''], ''text/plain'', True), 11)" by code_simp
  let ?b = "full_buffer (chunks_text [''1=1&'', ''1=1&''] @ ''GET'')"
  have "length (chunks_text [''1=1&'', ''1=1&''] @ ''GET'') < 100" by code_simp
  then have "length (readable ?b) < 2 ^ 31" by (simp only: full_buffer_simps, elim less_trans) simp
  moreover have "buf_ok ?b" "readable ?b = chunks_text [''1=1&'', ''1=1&''] @ ''GET''" by (simp_all only: full_buffer_simps)
  moreover from random_body_decoded [of ones, where ?'s = unit]
  obtain ds where "\<forall>b rest. buf_ok b \<longrightarrow> readable b = chunks_text [''1=1&'', ''1=1&''] @ rest \<longrightarrow> length (readable b) < 2 ^ 31 \<longrightarrow>
      (\<exists>b' r'. parseChunked b (new_request :: unit http_request) = Inr (OK_REQUEST, b', r') \<and> readable b' = rest \<and> r_body r' = concat ds)"
    unfolding e by blast
  ultimately obtain b' r' where r: "parseChunked ?b (new_request :: unit http_request) = Inr (OK_REQUEST, b', r')"
      "readable b' = ''GET''" "r_body r' = concat ds"
    by blast
  moreover have "case parseChunked ?b (new_request :: unit http_request) of Inl e \<Rightarrow> False | Inr (ret, b, r) \<Rightarrow> r_body r = ''1=1&1=1&''"
    by code_simp
  ultimately show ?thesis by auto
qed

text \<open>The pieces of a split string are its pieces in order, none empty and none above the limit.\<close>

lemma random_split:
  "0 < limit \<Longrightarrow> \<exists>ps. randomSplitStr rand limit view k = Inr ps \<and> concat ps = view \<and>
     (\<forall>p \<in> set ps. p \<noteq> [] \<and> length p \<le> limit)"
proof (induction view arbitrary: k rule: length_induct)
  case (1 view)
  show ?case
  proof (cases "view = []")
    case False
    let ?i = "rand k mod min (length view) limit + 1"
    have i: "0 < ?i" "?i \<le> limit" "?i \<le> length view"
      using mod_less_divisor [of "min (length view) limit" "rand k"] 1(2) False by auto
    have "length (drop ?i view) < length view" using i(1) False by simp
    with 1 obtain ps where ps: "randomSplitStr rand limit (drop ?i view) (k + 1) = Inr ps" "concat ps = drop ?i view"
        "\<forall>p \<in> set ps. p \<noteq> [] \<and> length p \<le> limit" by blast
    have "randomSplitStr rand limit view k = Inr (take ?i view # ps)"
      using False 1(2) ps(1) by (subst randomSplitStr.simps) (simp add: Let_def)
    then show ?thesis using ps i False by (intro exI [of _ "take ?i view # ps"]) auto
  qed (simp add: randomSplitStr.simps)
qed

end
