(* ===== verification/ServerStart.thy ===== *)
theory ServerStart
  imports EventLoop Config JsonFile
begin

text \<open>
  How the server comes up: the configuration file (\<open>config.h\<close>), addresses (\<open>net/InetAddress.{h,cpp}\<close>),
  making, binding and accepting sockets (\<open>net/Socket.{h,cpp}\<close>), the constructor and \<open>start\<close> of
  \<open>TcpServer\<close> and the first part of \<open>EventLoop::loop\<close>. The kernel's answers to \<open>socket\<close>, \<open>bind\<close>,
  \<open>listen\<close> and \<open>accept\<close> and those of OpenSSL are arguments.
\<close>

unbundle bit_operations_syntax

section \<open>Addresses\<close>

definition htons :: "16 word \<Rightarrow> 16 word" where
  "htons w = push_bit 8 w OR drop_bit 8 w"

text \<open>A socket address: the port in network order and the four bytes of the address.\<close>

record sockaddr =
  sin_port :: "16 word"
  sin_addr :: "8 word list"

definition address_any :: "16 word \<Rightarrow> sockaddr" where
  "address_any port = \<lparr>sin_port = htons port, sin_addr = [0, 0, 0, 0]\<rparr>"

text \<open>The address of a text: when \<open>inet_pton\<close> does not accept it, the zeros stay.\<close>

definition address_of :: "(string \<Rightarrow> 8 word list option) \<Rightarrow> string \<Rightarrow> 16 word \<Rightarrow> sockaddr" where
  "address_of pton ip port =
     \<lparr>sin_port = htons port, sin_addr = (case pton ip of None \<Rightarrow> [0, 0, 0, 0] | Some a \<Rightarrow> a)\<rparr>"

definition getPort :: "sockaddr \<Rightarrow> 16 word" where
  "getPort a = htons (sin_port a)"

text \<open>\<open>inet_ntop\<close> writes the dotted decimal text and a NUL, within the 16 bytes it is given.\<close>

fun dotted_decimal :: "8 word list \<Rightarrow> string" where
  "dotted_decimal [] = []"
| "dotted_decimal [w] = nat_to_string (unat w)"
| "dotted_decimal (w # ws) = nat_to_string (unat w) @ ''.'' @ dotted_decimal ws"

definition getIp :: "sockaddr \<Rightarrow> string" where
  "getIp a = dotted_decimal (sin_addr a)"

definition address_toString :: "sockaddr \<Rightarrow> string" where
  "address_toString a = getIp a @ '':'' @ nat_to_string (unat (getPort a))"

lemma htons_htons [simp]: "htons (htons w) = w"
  unfolding htons_def
  by (rule bit_word_eqI) (auto simp: bit_or_iff bit_push_bit_iff bit_drop_bit_eq)

lemma getPort_address [simp]: "getPort (address_any p) = p" "getPort (address_of pton ip p) = p"
  by (simp_all add: getPort_def address_any_def address_of_def)

text \<open>An address that is not understood stands for all interfaces.\<close>

lemma bad_address_is_any: "pton ip = None \<Longrightarrow> address_of pton ip p = address_any p"
  by (simp add: address_of_def address_any_def)

lemma length_byte_text: "length (nat_to_string (unat (w :: 8 word))) \<le> 3"
proof -
  have "unat w < 256" by (rule order_less_le_trans [OF unsigned_less]) simp
  then show ?thesis by (subst nat_to_string.simps, subst nat_to_string.simps, subst nat_to_string.simps) auto
qed

lemma ip_text_fits:
  assumes "length (sin_addr a) = 4"
  shows "length (getIp a) + 1 \<le> 16"
proof -
  obtain b c d e where "sin_addr a = [b, c, d, e]"
    using assms by (auto simp: numeral_eq_Suc length_Suc_conv)
  then show ?thesis
    using length_byte_text [of b] length_byte_text [of c] length_byte_text [of d] length_byte_text [of e]
    by (simp add: getIp_def)
qed

section \<open>Sockets\<close>

record sock_state =
  ss_nonblock :: bool
  ss_port :: "nat option"
  ss_listening :: bool
  ss_reuseaddr :: bool
  ss_reuseport :: bool
  ss_keepalive :: bool

text \<open>
  The kernel: the sockets of the process, the answers \<open>socket\<close> will give, the ports that cannot be
  bound, whether \<open>listen\<close> succeeds, and whether the current thread blocks \<open>SIGPIPE\<close>.
\<close>

record net_kernel =
  nk_socks :: "int \<Rightarrow> sock_state option"
  nk_sockets :: "nat option list"
  nk_taken :: "nat \<Rightarrow> bool"
  nk_listen :: bool
  nk_sigpipe :: bool

definition sys_socket :: "bool \<Rightarrow> net_kernel \<Rightarrow> int \<times> net_kernel" where
  "sys_socket nonblock k =
     (case nk_sockets k of
        Some fd # as \<Rightarrow>
          (int fd, k\<lparr>nk_sockets := as, nk_socks := (nk_socks k)(int fd \<mapsto>
             \<lparr>ss_nonblock = nonblock, ss_port = None, ss_listening = False, ss_reuseaddr = False,
              ss_reuseport = False, ss_keepalive = False\<rparr>)\<rparr>)
      | as \<Rightarrow> (-1, k\<lparr>nk_sockets := tl as\<rparr>))"

definition createSocket :: "net_kernel \<Rightarrow> int \<times> net_kernel" where
  "createSocket k = sys_socket False k"

definition createNBSocket :: "net_kernel \<Rightarrow> int \<times> net_kernel" where
  "createNBSocket k = sys_socket True k"

definition SO_REUSEADDR :: nat where "SO_REUSEADDR = 2"
definition SO_KEEPALIVE :: nat where "SO_KEEPALIVE = 9"
definition SO_REUSEPORT :: nat where "SO_REUSEPORT = 15"
definition MSG_NOSIGNAL :: nat where "MSG_NOSIGNAL = 0x4000"

text \<open>Setting an option; an unknown descriptor or option is an error, which the callers ignore.\<close>

definition setsockopt :: "int \<Rightarrow> nat \<Rightarrow> bool \<Rightarrow> net_kernel \<Rightarrow> net_kernel" where
  "setsockopt fd opt on k =
     (case nk_socks k fd of
        None \<Rightarrow> k
      | Some s \<Rightarrow>
          k\<lparr>nk_socks := (nk_socks k)(fd \<mapsto>
             (if opt = SO_REUSEADDR then s\<lparr>ss_reuseaddr := on\<rparr>
              else if opt = SO_REUSEPORT then s\<lparr>ss_reuseport := on\<rparr>
              else if opt = SO_KEEPALIVE then s\<lparr>ss_keepalive := on\<rparr>
              else s))\<rparr>)"

datatype fdtype = BLOCK | NONBLOCK

record server_socket =
  svs_fd :: int
  svs_blocked :: bool
  svs_ctx :: bool
  svs_is_ssl :: bool

definition Socket_of_fd :: "int \<Rightarrow> fdtype \<Rightarrow> server_socket" where
  "Socket_of_fd fd t =
     \<lparr>svs_fd = fd, svs_blocked = (case t of BLOCK \<Rightarrow> True | NONBLOCK \<Rightarrow> False), svs_ctx = False, svs_is_ssl = False\<rparr>"

definition new_Socket :: "fdtype \<Rightarrow> net_kernel \<Rightarrow> server_socket \<times> net_kernel" where
  "new_Socket t k =
     (case t of
        BLOCK \<Rightarrow> (let (fd, k) = createSocket k in (Socket_of_fd fd BLOCK, k))
      | NONBLOCK \<Rightarrow> (let (fd, k) = createNBSocket k in (Socket_of_fd fd NONBLOCK, k)))"

definition SslSocket_of_fd :: "int \<Rightarrow> fdtype \<Rightarrow> bool \<Rightarrow> server_socket" where
  "SslSocket_of_fd fd t ctx = (Socket_of_fd fd t)\<lparr>svs_ctx := ctx, svs_is_ssl := True\<rparr>"

definition Socket_close :: "server_socket \<Rightarrow> net_kernel \<Rightarrow> net_kernel" where
  "Socket_close s k = k\<lparr>nk_socks := (nk_socks k)(svs_fd s := None)\<rparr>"

definition enableReuseAddr :: "bool \<Rightarrow> server_socket \<Rightarrow> net_kernel \<Rightarrow> net_kernel" where
  "enableReuseAddr on s k = setsockopt (svs_fd s) SO_REUSEADDR on k"

definition enableReusePort :: "bool \<Rightarrow> server_socket \<Rightarrow> net_kernel \<Rightarrow> net_kernel" where
  "enableReusePort on s k = setsockopt (svs_fd s) SO_REUSEPORT on k"

definition enableKeepAlive :: "bool \<Rightarrow> server_socket \<Rightarrow> net_kernel \<Rightarrow> net_kernel" where
  "enableKeepAlive on s k = setsockopt (svs_fd s) SO_KEEPALIVE on k"

definition ignoreSIGPIPE :: "bool \<Rightarrow> server_socket \<Rightarrow> net_kernel \<Rightarrow> net_kernel" where
  "ignoreSIGPIPE on s k = setsockopt (svs_fd s) MSG_NOSIGNAL on k"

text \<open>\<open>ignoreSIGPIPE\<close> passes a flag of \<open>send\<close> as a socket option and changes nothing.\<close>

lemma ignoreSIGPIPE_nop: "ignoreSIGPIPE on s k = k"
proof (cases "nk_socks k (svs_fd s)")
  case (Some st)
  then have "(nk_socks k)(svs_fd s \<mapsto> st) = nk_socks k" by (rule map_upd_triv)
  with Some show ?thesis
    by (simp add: ignoreSIGPIPE_def setsockopt_def MSG_NOSIGNAL_def SO_REUSEADDR_def SO_REUSEPORT_def SO_KEEPALIVE_def)
qed (simp add: ignoreSIGPIPE_def setsockopt_def)

text \<open>\<open>bind\<close> and \<open>listen\<close>: \<open>None\<close> is the end of the process by \<open>exit(-1)\<close>.\<close>

definition Socket_bind :: "sockaddr \<Rightarrow> server_socket \<Rightarrow> net_kernel \<Rightarrow> net_kernel option" where
  "Socket_bind a s k =
     (case nk_socks k (svs_fd s) of
        None \<Rightarrow> None
      | Some st \<Rightarrow>
          if ss_port st \<noteq> None \<or> nk_taken k (unat (getPort a)) then None
          else Some (k\<lparr>nk_socks := (nk_socks k)(svs_fd s \<mapsto> st\<lparr>ss_port := Some (unat (getPort a))\<rparr>)\<rparr>))"

definition Socket_listen :: "server_socket \<Rightarrow> net_kernel \<Rightarrow> net_kernel option" where
  "Socket_listen s k =
     (case nk_socks k (svs_fd s) of
        None \<Rightarrow> None
      | Some st \<Rightarrow>
          if \<not> nk_listen k then None
          else Some (k\<lparr>nk_socks := (nk_socks k)(svs_fd s \<mapsto> st\<lparr>ss_listening := True\<rparr>)\<rparr>))"

text \<open>The two \<open>accept\<close>s on the answer of the system call, and of \<open>SSL_accept\<close>; a socket that is given up is closed.\<close>

definition Socket_accept :: "int \<Rightarrow> net_kernel \<Rightarrow> server_socket option \<times> net_kernel" where
  "Socket_accept connfd k =
     (if connfd \<le> 0 then (None, k) else (Some (Socket_of_fd connfd NONBLOCK), k))"

definition SslSocket_accept :: "server_socket \<Rightarrow> int \<Rightarrow> int \<Rightarrow> net_kernel \<Rightarrow> server_socket option \<times> net_kernel" where
  "SslSocket_accept s newfd ret k =
     (if \<not> svs_ctx s then (None, k)
      else if newfd = -1 then (None, k)
      else let sock = SslSocket_of_fd newfd BLOCK (svs_ctx s)
           in if ret < 1 then (None, Socket_close sock k) else (Some sock, k))"

text \<open>A failed TLS handshake closes the connection again; a plain connection with descriptor 0 stays open unused.\<close>

lemma failed_handshake_closed:
  "svs_ctx s \<Longrightarrow> newfd \<noteq> -1 \<Longrightarrow> ret < 1 \<Longrightarrow> nk_socks (snd (SslSocket_accept s newfd ret k)) newfd = None"
  by (simp add: SslSocket_accept_def Socket_close_def SslSocket_of_fd_def Socket_of_fd_def)

lemma descriptor_zero_leaks: "nk_socks k 0 = Some st \<Longrightarrow> Socket_accept 0 k = (None, k) \<and> nk_socks k 0 \<noteq> None"
  by (simp add: Socket_accept_def)

section \<open>The event list of epoll\<close>

text \<open>
  \<open>wait\<close>: the answer of \<open>epoll_wait\<close> is a number of events or an error; an interrupted call is answered
  with -1, after which the loop looks at no channel. \<open>sz\<close> is the size of the event list.
\<close>

definition EINTR :: int where "EINTR = 4"

definition epoller_wait :: "int + nat \<Rightarrow> nat \<Rightarrow> (int \<times> nat) res" where
  "epoller_wait answer sz =
     (case answer of
        Inl errno \<Rightarrow> if errno \<noteq> EINTR then Inl (Raised (Logic_error ''epoll wait error'')) else Inr (-1, sz)
      | Inr n \<Rightarrow> Inr (int n, resize_events n sz))"

text \<open>The list always has room for more events than the last wait returned.\<close>

lemma epoller_wait_room:
  assumes "epoller_wait answer sz = Inr (n, sz')" "16 \<le> sz" "\<And>m. answer = Inr m \<Longrightarrow> m \<le> sz"
  shows "16 \<le> sz' \<and> n < int sz'"
  using assms by (auto simp: epoller_wait_def resize_events_def split: sum.splits if_splits)

section \<open>Starting the server\<close>

text \<open>The configuration: a file that is missing or is no JSON text leaves it empty.\<close>

definition load_config :: "json_file option \<Rightarrow> (string \<times> json) list res" where
  "load_config file = rbind (fromFile file) (\<lambda>j. Inr (new_config j))"

text \<open>What OpenSSL answers while the context is made; \<open>None\<close> is \<open>exit(-1)\<close>.\<close>

record ssl_setup =
  ssl_ctx_made :: bool
  ssl_cert :: int
  ssl_key :: int
  ssl_check :: int

definition createSslCtx :: "ssl_setup \<Rightarrow> bool option" where
  "createSslCtx a =
     (if \<not> ssl_ctx_made a then None
      else if ssl_cert a \<le> 0 then None
      else if ssl_key a \<le> 0 then None
      else if ssl_check a \<le> 0 then None
      else Some True)"

record tcp_server =
  ts_timerInterval :: int
  ts_connTimeOut :: int
  ts_pool :: pool
  enable_https :: bool
  ts_sock :: server_socket

text \<open>The pool of loops is made with the number of threads of the configuration, as a \<open>size_t\<close>.\<close>

definition getInstance :: "nat \<Rightarrow> (string \<times> json) list \<Rightarrow> pool" where
  "getInstance hw cfg = new_pool (nat (query_int ''EventLoopThreadPool.threadNum'' (int hw) cfg mod 2 ^ 64))"

definition new_TcpServer ::
  "nat \<Rightarrow> (string \<times> json) list \<Rightarrow> ssl_setup \<Rightarrow> net_kernel \<Rightarrow> (tcp_server \<times> net_kernel) option" where
  "new_TcpServer hw cfg ssl k =
     (let https = query_bool ''server.https.enable'' False cfg;
          made = (if https
                  then (case createSslCtx ssl of
                          None \<Rightarrow> None
                        | Some ctx \<Rightarrow> (let (fd, k) = createNBSocket k in Some (SslSocket_of_fd fd NONBLOCK ctx, k)))
                  else Some (new_Socket NONBLOCK k))
      in case made of
           None \<Rightarrow> None
         | Some (sock, k) \<Rightarrow>
             (let k = enableReuseAddr True sock k; k = enableReusePort True sock k
              in Some (\<lparr>ts_timerInterval = query_int ''server.timerInterval'' 5 cfg,
                        ts_connTimeOut = query_int ''server.timeout'' 120 cfg,
                        ts_pool = getInstance hw cfg, enable_https = https, ts_sock = sock\<rparr>, k)))"

text \<open>
  The first part of \<open>EventLoop::loop\<close>: channels are known by a number, the channels of the timer and of
  the eventfd by 0 and 1; the setting of the timer is returned.
\<close>

definition loop_setup ::
  "nat \<Rightarrow> int \<Rightarrow> int \<Rightarrow> nat \<times> nat \<Rightarrow> ('t, 'c) event_loop \<Rightarrow> (('t, 'c) event_loop \<times> itimerspec option) res" where
  "loop_setup tid idle_timeout wakeupFd now l =
     rbind (assertInLoopThread tid l) (\<lambda>_.
       if idle_timeout > 0
       then rbind (of_second idle_timeout) (\<lambda>t.
              Inr (loop_addChannel wakeupFd (EPOLLIN OR EPOLLET) 1
                     (loop_addChannel (timeFd (el_timers l)) (EPOLLIN OR EPOLLET) 0 l),
                   Some (runForever now t)))
       else Inr (loop_addChannel wakeupFd (EPOLLIN OR EPOLLET) 1 l, None))"

text \<open>
  A started server: the state of the process when the base loop first waits, with the threads of the
  pool and whether each of them blocks \<open>SIGPIPE\<close> (a thread inherits the mask of its creator).
\<close>

record started_server =
  sd_server :: tcp_server
  sd_kernel :: net_kernel
  sd_base :: "(unit, unit) event_loop"
  sd_threads :: "(nat \<times> bool) list"
  sd_timer :: "itimerspec option"

definition TcpServer_start ::
  "sockaddr \<Rightarrow> int \<Rightarrow> int \<Rightarrow> nat \<times> nat \<Rightarrow> tcp_server \<Rightarrow> net_kernel \<Rightarrow> started_server option res" where
  "TcpServer_start addr timefd wakefd now s k =
     (let k = k\<lparr>nk_sigpipe := True\<rparr>
      in case Socket_bind addr (ts_sock s) k of
           None \<Rightarrow> Inr None
         | Some k \<Rightarrow>
             (case Socket_listen (ts_sock s) k of
                None \<Rightarrow> Inr None
              | Some k \<Rightarrow>
                  rbind (pool_start 0 (ts_pool s)) (\<lambda>p.
                    let base = loop_addChannel (svs_fd (ts_sock s)) (EPOLLIN OR kServerEvent) 2 (new_event_loop 0 timefd)
                    in rbind (loop_setup 0 (ts_timerInterval s) wakefd now base) (\<lambda>(base, timer).
                         Inr (Some \<lparr>sd_server = s\<lparr>ts_pool := p\<rparr>, sd_kernel = k, sd_base = base,
                                    sd_threads = map (\<lambda>i. (i, nk_sigpipe k)) (pool_loops p), sd_timer = timer\<rparr>)))))"

text \<open>\<open>start()\<close>: the port of the configuration, cut to the 16 bits of the parameter of \<open>InetAddress\<close>.\<close>

definition TcpServer_start_configured ::
  "(string \<times> json) list \<Rightarrow> int \<Rightarrow> int \<Rightarrow> nat \<times> nat \<Rightarrow> tcp_server \<Rightarrow> net_kernel \<Rightarrow> started_server option res" where
  "TcpServer_start_configured cfg timefd wakefd now s k =
     TcpServer_start (address_any (word_of_int (query_int ''server.port'' 9999 cfg))) timefd wakefd now s k"

definition server_main ::
  "nat \<Rightarrow> json_file option \<Rightarrow> ssl_setup \<Rightarrow> int \<Rightarrow> int \<Rightarrow> nat \<times> nat \<Rightarrow> net_kernel \<Rightarrow> started_server option res" where
  "server_main hw file ssl timefd wakefd now k =
     rbind (load_config file) (\<lambda>cfg.
       case new_TcpServer hw cfg ssl k of
         None \<Rightarrow> Inr None
       | Some (s, k) \<Rightarrow> TcpServer_start_configured cfg timefd wakefd now s k)"

section \<open>What a start comes to\<close>

definition https_fails :: "(string \<times> json) list \<Rightarrow> ssl_setup \<Rightarrow> bool" where
  "https_fails cfg ssl \<longleftrightarrow> query_bool ''server.https.enable'' False cfg \<and> createSslCtx ssl = None"

text \<open>The listening socket as it has to be.\<close>

definition listening_on :: "nat \<Rightarrow> sock_state" where
  "listening_on port =
     \<lparr>ss_nonblock = True, ss_port = Some port, ss_listening = True, ss_reuseaddr = True, ss_reuseport = True,
      ss_keepalive = False\<rparr>"

lemma new_TcpServer_socket:
  assumes "nk_sockets k = Some fd # as"
  shows "new_TcpServer hw cfg ssl k = None \<longleftrightarrow> https_fails cfg ssl"
    and "new_TcpServer hw cfg ssl k = Some (s, k') \<Longrightarrow>
      svs_fd (ts_sock s) = int fd \<and> ts_pool s = getInstance hw cfg \<and>
      ts_timerInterval s = query_int ''server.timerInterval'' 5 cfg \<and>
      nk_socks k' = (nk_socks k)(int fd \<mapsto>
        (listening_on 0)\<lparr>ss_port := None, ss_listening := False\<rparr>) \<and> nk_taken k' = nk_taken k \<and> nk_listen k' = nk_listen k"
  using assms
  by (auto simp: new_TcpServer_def https_fails_def createNBSocket_def sys_socket_def new_Socket_def Let_def
      SslSocket_of_fd_def Socket_of_fd_def enableReuseAddr_def enableReusePort_def setsockopt_def listening_on_def
      SO_REUSEADDR_def SO_REUSEPORT_def split: option.splits if_splits)

lemma loop_setup_channels:
  assumes "idle \<le> 2147" "el_thread l = 0" "timeFd (el_timers l) \<noteq> wakefd"
    and "el_epoll l wakefd = None" "el_epoll l (timeFd (el_timers l)) = None"
  shows "\<exists>l' t. loop_setup 0 idle wakefd now l = Inr (l', t) \<and> (t \<noteq> None \<longleftrightarrow> 0 < idle) \<and>
    el_epoll l' wakefd = Some (EPOLLIN OR EPOLLET, 1) \<and>
    (\<forall>fd. fd \<noteq> wakefd \<longrightarrow> fd \<noteq> timeFd (el_timers l) \<longrightarrow> el_epoll l' fd = el_epoll l fd) \<and>
    (0 < idle \<longrightarrow> el_epoll l' (timeFd (el_timers l)) = Some (EPOLLIN OR EPOLLET, 0))"
  using assms
  by (auto simp: loop_setup_def assertInLoopThread_def isInLoopThread_def of_second_def int_mult_def
      loop_addChannel_def epoll_add_def)

definition start_fails :: "nat \<Rightarrow> (string \<times> json) list \<Rightarrow> ssl_setup \<Rightarrow> net_kernel \<Rightarrow> bool" where
  "start_fails port cfg ssl k \<longleftrightarrow> https_fails cfg ssl \<or> nk_taken k port \<or> \<not> nk_listen k"

definition comes_up :: "nat \<Rightarrow> nat \<Rightarrow> (string \<times> json) list \<Rightarrow> int \<Rightarrow> int \<Rightarrow> int \<Rightarrow> started_server \<Rightarrow> bool" where
  "comes_up port hw cfg fd timefd wakefd r \<longleftrightarrow>
     nk_socks (sd_kernel r) fd = Some (listening_on port) \<and>
     el_epoll (sd_base r) fd = Some (EPOLLIN OR kServerEvent, 2) \<and>
     el_epoll (sd_base r) wakefd = Some (EPOLLIN OR EPOLLET, 1) \<and>
     (0 < query_int ''server.timerInterval'' 5 cfg \<longleftrightarrow> sd_timer r \<noteq> None) \<and>
     (0 < query_int ''server.timerInterval'' 5 cfg \<longrightarrow> el_epoll (sd_base r) timefd = Some (EPOLLIN OR EPOLLET, 0)) \<and>
     map fst (sd_threads r) = [1..<num_thread (getInstance hw cfg) + 1] \<and> (\<forall>(i, blocked) \<in> set (sd_threads r). blocked)"

lemma start_comes_up:
  assumes "new_TcpServer hw cfg ssl k = Some (s, k')" and "nk_sockets k = Some fd # as"
    and "query_int ''server.timerInterval'' 5 cfg \<le> 2147" and "int fd \<noteq> timefd" "int fd \<noteq> wakefd" "timefd \<noteq> wakefd"
    and "\<not> nk_taken k (unat port)" "nk_listen k"
  shows "\<exists>r. TcpServer_start (address_any port) timefd wakefd now s k' = Inr (Some r) \<and>
    comes_up (unat port) hw cfg (int fd) timefd wakefd r"
proof -
  note n = new_TcpServer_socket(2) [OF assms(2,1)]
  define p where "p = (getInstance hw cfg)\<lparr>pool_started := True, pool_loops := [1..<num_thread (getInstance hw cfg) + 1]\<rparr>"
  have pool: "pool_start 0 (ts_pool s) = Inr p"
    using n by (simp add: pool_start_def p_def getInstance_def new_pool_def del: upt_Suc)
  let ?base = "loop_addChannel (svs_fd (ts_sock s)) (EPOLLIN OR kServerEvent) 2 (new_event_loop 0 timefd) :: (unit, unit) event_loop"
  have tf: "timeFd (el_timers ?base) = timefd" by (simp add: loop_addChannel_def new_event_loop_def new_timer_queue_def)
  have base: "el_epoll ?base (int fd) = Some (EPOLLIN OR kServerEvent, 2)" "el_epoll ?base wakefd = None" "el_epoll ?base timefd = None"
      "el_thread ?base = 0"
    using n assms(4,5) by (auto simp: loop_addChannel_def epoll_add_def new_event_loop_def)
  obtain l t where l: "loop_setup 0 (ts_timerInterval s) wakefd now ?base = Inr (l, t)"
      "t \<noteq> None \<longleftrightarrow> 0 < ts_timerInterval s" "el_epoll l wakefd = Some (EPOLLIN OR EPOLLET, 1)"
      "el_epoll l (int fd) = Some (EPOLLIN OR kServerEvent, 2)"
      "0 < ts_timerInterval s \<Longrightarrow> el_epoll l timefd = Some (EPOLLIN OR EPOLLET, 0)"
    using loop_setup_channels [of "ts_timerInterval s" ?base wakefd now] n assms(3-6) base tf by auto
  show ?thesis
    using n l pool assms(7,8)
    by (simp add: TcpServer_start_def Let_def Socket_bind_def Socket_listen_def listening_on_def comes_up_def del: upt_Suc)
      (simp add: p_def o_def del: upt_Suc)
qed

lemma start_exits:
  assumes "new_TcpServer hw cfg ssl k = Some (s, k')" and "nk_sockets k = Some fd # as"
    and "nk_taken k (unat port) \<or> \<not> nk_listen k"
  shows "TcpServer_start (address_any port) timefd wakefd now s k' = Inr None"
proof -
  note n = new_TcpServer_socket(2) [OF assms(2,1)]
  then show ?thesis
    using assms(3) by (auto simp: TcpServer_start_def Let_def Socket_bind_def Socket_listen_def listening_on_def)
qed


text \<open>An interval above 2147 seconds overflows the multiplication of \<open>TimeStamp::second\<close>.\<close>

lemma long_interval_undefined:
  "2147 < idle \<Longrightarrow> el_thread l = 0 \<Longrightarrow> loop_setup 0 idle wakefd now l = Inl Undefined"
  by (simp add: loop_setup_def assertInLoopThread_def isInLoopThread_def of_second_overflow)

definition start_config :: "(string \<times> json) list" where
  "start_config = [(''server'', JsonObject [(''port'', JsonInteger 65616), (''timeout'', JsonInteger 60)])]"

definition start_kernel :: net_kernel where
  "start_kernel = \<lparr>nk_socks = Map.empty, nk_sockets = [Some 7], nk_taken = (\<lambda>p. p = 22), nk_listen = True, nk_sigpipe = False\<rparr>"


end
