(* ===== verification/Spec2Isabelle.thy ===== *)
theory Spec2Isabelle
  imports Prelude BaseUtil ByteBuffer HttpMaps HttpTables HttpCookie HttpUrl HttpMultiPart HttpSession HttpRequest HttpTurns HttpRequestSim HttpRequestSpec TimeStamp TimerHeap TimerQueue
    JsonUtil JsonValue JsonParse JsonSpec JsonRoundTrip JsonEscapes
    Calendar LogStream LogFormat LogFile LogAppender LogAsync Config Logger LogSpec Views ThreadPool
    NetSocket TcpConnection EventLoop HttpResponse Servlet TcpServer TcpServerInv TcpServerRun TcpServerSpec HttpServer HttpServerSpec
    Segments Uuid Files ProcInfo Locks Threads PageServed JsonText JsonFile HttpTest ServerStart
begin

text \<open>
  HAHA-WebServer: an HTTP server over non-blocking sockets, with its event loops, timers, thread pool,
  logging system, configuration and JSON library. This development models the C++ sources under
  \<open>src/haha_web/\<close>; paths below are relative to that directory.

  \<^bold>\<open>How the program works.\<close> \<open>TcpServer\<close> opens a listening socket as the configuration file says and
  starts a pool of threads, each running an \<open>EventLoop\<close>: it waits in epoll, hands every ready descriptor
  to its \<open>Channel\<close>, runs the tasks other threads have queued, and closes the connections whose timer in
  the \<open>TimerQueue\<close> is due. A readable connection reads into its \<open>Buffer\<close>;
  \<open>HttpServer::onMessage\<close> feeds the buffer to the incremental parser of \<open>HttpRequest\<close>, and when a request is
  complete lets the \<open>ServletDispatcher\<close> fill an \<open>HttpResponse\<close>, which writes itself into the send buffer
  when it is destroyed. The connection then sends buffer and file until the kernel refuses, waits for
  \<open>EPOLLOUT\<close>, goes on, and is closed. Everything logs through \<open>Logger\<close>, whose appenders write to files at
  once or through large buffers that another thread flushes.
\<close>

text \<open>
  \<^bold>\<open>How the program is modelled.\<close> A class is a \<open>record\<close> with the members of the class, an enumeration or a
  class hierarchy a \<open>datatype\<close>, a member function a function from the old state to the new one. A member
  that a constructor leaves uninitialised is an \<open>option\<close>, and reading \<open>None\<close> is an error. The result type is
  \<open>'a res\<close> (theory \<open>Prelude\<close>): \<open>Inl\<close> an error or \<open>Inr\<close> a value. The errors are a failed \<open>assert\<close>, undefined
  behaviour (a read out of bounds, a dangling pointer, a signed overflow), a C++ exception, and
  \<open>Diverges\<close>, a call that does not return. So the statement that a result is \<open>Inr\<close> says that none of these
  happens. Byte strings are lists of \<open>char\<close>; \<open>size_t\<close>, \<open>uint64_t\<close> and \<open>int\<close> arithmetic has its wrap-around
  or its overflow written out where the sources can reach it; the hash and the
  counters of a log record are on words. A \<open>std::unordered_map\<close> is an association list with distinct keys whose order
  stands for the iteration order.

  What the program gets from outside is an argument: the clock, the answers of the kernel to \<open>read\<close>,
  \<open>write\<close>, \<open>sendfile\<close>, \<open>epoll_wait\<close>, \<open>accept\<close> (a list of answers, called a script; a loop that has used
  up its script has not returned and is \<open>Diverges\<close>), OpenSSL, the UUID and random generators, the file
  system, \<open>fnmatch\<close> and \<open>inet_pton\<close>. Threads are steps of inductive relations that
  interleave arbitrarily between any two accesses to shared state, under sequential consistency.
\<close>

text \<open>
  \<^bold>\<open>Theories.\<close> Each theory models the files it names and holds the lemmas on them.

  \<^item> \<open>Prelude\<close>: errors, bytes, the operations of \<open>std::string\<close> and \<open>std::string_view\<close>, and the collections
    of lemmas the component proofs use. \<open>BaseUtil\<close>: \<open>base/util.cpp\<close>, \<open>base/EncodeUtil.cpp\<close>.
    \<open>ByteBuffer\<close>: \<open>base/Buffer.cpp\<close>, the record \<open>buffer\<close> with vector, \<open>readPos\<close> and \<open>writePos\<close>. \<open>Views\<close>:
    \<open>base/stringView.cpp\<close>. \<open>Uuid\<close>: \<open>base/uuid.h\<close>. \<open>Files\<close>: \<open>base/FileUtil.cpp\<close> without its sending
    streams. \<open>ProcInfo\<close>: \<open>base/ProcessInfo.cpp\<close>. \<open>Calendar\<close> and \<open>TimeStamp\<close>: \<open>base/TimeStamp.h\<close> and
    the dates of the standard library.
  \<^item> \<open>HttpMaps\<close>, \<open>HttpTables\<close>: \<open>http/HttpMap.h\<close>, \<open>HttpHeader.h\<close>, \<open>HttpUtil\<close>. \<open>HttpCookie\<close>, \<open>HttpUrl\<close>,
    \<open>HttpMultiPart\<close>, \<open>HttpSession\<close>: the files of these names. \<open>HttpRequest\<close>: \<open>http/HttpRequest.cpp\<close>, the
    record \<open>http_request\<close> and the state machine \<open>parseRequest\<close>. \<open>HttpTurns\<close>: its two loops as turns over
    the readable bytes. \<open>HttpRequestSim\<close> and \<open>Segments\<close>: the parse does not depend on how the bytes arrive. \<open>HttpRequestSpec\<close>: what is parsed. \<open>HttpTest\<close>: the generator
    of random requests, \<open>http/HttpTest.cpp\<close>. \<open>HttpResponse\<close>, \<open>Servlet\<close>, \<open>HttpServer\<close>: the files of these
    names; \<open>HttpServerSpec\<close>: what a client gets; \<open>PageServed\<close>: one request through the whole server.
  \<^item> \<open>TimerHeap\<close>, \<open>TimerQueue\<close>: \<open>net/TimerHeap.cpp\<close>, \<open>net/TimerQueue.cpp\<close>. \<open>EventLoop\<close>: \<open>net/EventLoop.cpp\<close>,
    \<open>Epoller\<close>, \<open>Channel\<close>, \<open>EventLoopThreadPool\<close>. \<open>NetSocket\<close>, \<open>TcpConnection\<close>: the sending and receiving
    parts of \<open>net/Socket.cpp\<close>, \<open>net/TcpConnection.cpp\<close>. \<open>TcpServer\<close>: \<open>net/TcpServer.cpp\<close>, the record \<open>server\<close>
    with its connections, the loops and the handlers; \<open>TcpServerInv\<close> its invariant, \<open>TcpServerRun\<close> its
    preservation by the rounds, \<open>TcpServerSpec\<close> the reachable states. \<open>ServerStart\<close>: addresses, sockets,
    the constructor and \<open>start\<close>.
  \<^item> \<open>ThreadPool\<close>, \<open>Threads\<close>, \<open>Locks\<close>: \<open>base/ThreadPool.cpp\<close>, \<open>base/Thread.cpp\<close> and
    \<open>net/EventLoopThread.cpp\<close>, \<open>base/Mutex.cpp\<close> and \<open>base/ReadWriteLock.h\<close>, as step relations.
  \<^item> \<open>LogStream\<close>, \<open>LogFormat\<close>, \<open>LogFile\<close>, \<open>LogAppender\<close>, \<open>Logger\<close>: the files of \<open>log/\<close>; \<open>LogAsync\<close>: appending
    threads against the flushing thread; \<open>LogSpec\<close>: the logging system as a whole.
  \<^item> \<open>JsonUtil\<close>, \<open>JsonText\<close>, \<open>JsonValue\<close>, \<open>JsonParse\<close>, \<open>JsonFile\<close>: the files of \<open>haha_json/haha_json/\<close>;
    \<open>JsonSpec\<close>, \<open>JsonRoundTrip\<close>, \<open>JsonEscapes\<close>: what the library guarantees. \<open>Config\<close>: \<open>config/config.cpp\<close>.

  \<^bold>\<open>Interfaces.\<close> \<open>byte_queue\<close> (\<open>ByteBuffer\<close>) is what the protocol code needs of a buffer, \<open>view_loop\<close>
  (\<open>HttpTurns\<close>) what the parser needs of the loops over header and chunks, \<open>keyed_store\<close>
  (\<open>HttpMaps\<close>) what it needs of the maps, \<open>timer_queue\<close> (\<open>TimerQueue\<close>) what the queue needs of the heap,
  \<open>mutual_lock\<close> (\<open>Locks\<close>) what the guards need of a lock, \<open>log_sink\<close> (\<open>LogSpec\<close>) what a logger needs of an
  appender, and \<open>tcp_app\<close> (\<open>TcpServerInv\<close>) what \<open>TcpServer\<close> needs of the virtual functions a server
  overrides. Each is interpreted on the operations of the model.
\<close>

text \<open>
  \<^bold>\<open>What is shown.\<close>

  \<^item> Requests: parsing in any segments equals parsing at once; requests with a length, chunked bodies,
    forms, cookies and multipart bodies are read exactly; the random test bodies are decoded.
  \<^item> Responses and connections: a response is framed by its length; what a connection puts on the wire is
    in order and a prefix of what was to be sent; a request is answered by its servlet's response
    from the first byte read to the removal of the connection; what happens to bad and partial ones.
  \<^item> The server: in every reachable state a round of a loop violates no assertion and touches no freed
    connection; registered descriptors belong to live connections with timers; overdue connections
    are closed; a configured server listens on its port.
  \<^item> Timers and tasks: the heap with its position table is exact, due callbacks fire once and in order; no
    queued task is lost; the thread pool starts tasks in order; the life of a loop thread has no
    deadlock; the guards exclude each other.
  \<^item> Logging: streams keep what fits, patterns compile to their items, rolling files hold all lines, the
    asynchronous appender loses nothing while its buffers last; small logs are never written.
  \<^item> JSON and configuration: the parser returns on every input and builds well-formed values; printed
    values are parsed back; dotted keys follow the paths.
  \<^item> Refinement and helpers: the buffer is a byte queue, URL coding and the UUID text are inverted, the
    Knuth-Morris-Pratt search is the search.

  Where the code does something other than it means to, the model does what the code does and a theorem
  says so: the answer to an incomplete request, connections that leak when they are closed in the
  middle of a request, the lost wake-up of the destructor of \<open>ThreadPool\<close>, the unflushed log of a
  small program, JSON text without its terminator, chunk sizes read in base ten and others.
\<close>

text \<open>
  \<^bold>\<open>Bounds and fuel.\<close>

  \<^item> \<open>JsonParse\<close>: the recursion has fuel \<open>Suc (length str)\<close>. Each nested call consumes a character first,
    and the lemmas of \<open>JsonSpec\<close> show that this fuel never runs out. \<open>timeout_loop\<close> (\<open>TimerQueue\<close>), the two
    loops of the string search (\<open>Views\<close>) and \<open>mp_run\<close> (\<open>HttpMultiPart\<close>) are \<open>partial_function\<close>s with \<open>None\<close>
    for a loop that does not end. The first three are shown to end; \<open>mp_run\<close> ends on well-formed bodies
    and does not end on some others, which is a theorem. The draining of a timer heap has its length as fuel.
    The exponent searches \<open>neg_log\<close> and \<open>neg_log10\<close> have 1100 and 400 steps, more than the least positive
    double (\<open>2 ^ (- 1074)\<close>, about \<open>10 ^ (- 324)\<close>) needs.
  \<^item> Buffers and bodies are shorter than \<open>2 ^ 31\<close> bytes where the code narrows a length to \<open>int\<close>;
    the request line limit applies to all readable bytes, as in the code.
  \<^item> Descriptors are below \<open>2 ^ 30\<close> (\<open>fd_ok\<close>), far above the kernel's limit, so that the \<open>int\<close> indices of the
    timer heap do not overflow. Timeouts are at most 2147 seconds and the clock plus a timeout stays
    below \<open>2 ^ 64\<close> microseconds (\<open>clock_ok\<close>): beyond that \<open>TimeStamp\<close> overflows, which is a theorem.
  \<^item> A round of a loop is one batch of events. Handlers are atomic, as they run on the thread of their loop.
    In a batch no event of a connection follows the timer's (\<open>timeout_last\<close>): with
    the other order the server does use a freed connection, which is a theorem of \<open>TcpServerSpec\<close>.
  \<^item> The log streams hold 4000 and 4,000,000 bytes as in the code; \<open>async_log_complete\<close> holds while a burst
    between two flushes fits into 25 buffers, beyond which the code drops the rest on purpose. JSON
    files are at most 4,000,000 bytes, the limit of the code.
  \<^item> \<open>HttpServer\<close> does not satisfy \<open>tcp_app\<close> in general: the session cookie reads an uninitialised
    member and the session timer captures a local variable by reference. The theorems of
    \<open>HttpServerSpec\<close> and \<open>PageServed\<close> are therefore about requests without session.
\<close>

text \<open>
  \<^bold>\<open>Not modelled.\<close> The vendored load generator and enumeration library; the test drivers; \<open>jsonError.h\<close> and
  \<open>jsonTypeCast.h\<close> (an exception that formats its message, type-level tables); the second copy of
  \<open>stringView\<close> beside the JSON library, which no function of it calls; \<open>Singleton\<close> and
  \<open>noncopyable\<close>; getters of a single system call or constant, the floating point CPU time;
  \<open>setNoDelay\<close>, \<open>getPeerName\<close>, \<open>getSockName\<close> and the library initialisation of OpenSSL; the members of
  \<open>Epoller\<close> that nothing calls; the thread-local pointers to the current thread; and the logging
  calls inside the code that is modelled, whose arguments have no effects.
\<close>

end
